(* ===== verification/Ferrum_Prelude.thy ===== *)
theory Ferrum_Prelude
  imports Main "HOL-Library.Word"
begin

unbundle bit_operations_syntax

text \<open>
  Shared vocabulary of the development: the Rust integer types as words, the saturating
  and checked arithmetic of the standard library that the sources call, atomic
  compare-exchange, the string operations used for keys and header fields, and the generic
  lemmas on lists, words and digits that the component theories rely on.

  The collections below carry the component proofs:
  \<^item> \<open>word_arith\<close>: how the saturating and checked operations read through \<open>unat\<close>;
  \<^item> \<open>codec\<close>: projections of packed words and rendered keys.
\<close>

named_theorems word_arith
named_theorems codec

section \<open>Integer types\<close>

type_synonym u8 = "8 word"
type_synonym u16 = "16 word"
type_synonym u32 = "32 word"
type_synonym u64 = "64 word"
type_synonym u128 = "128 word"

text \<open>\<open>uN::MAX\<close>, \<open>saturating_add\<close>, \<open>saturating_sub\<close>, \<open>saturating_mul\<close>, \<open>clamp\<close>.\<close>

definition word_max :: "'a::len word" where
  "word_max = - 1"

definition saturating_add :: "'a::len word \<Rightarrow> 'a word \<Rightarrow> 'a word" where
  "saturating_add a b = (if unat a + unat b < 2 ^ LENGTH('a) then a + b else word_max)"

definition saturating_sub :: "'a::len word \<Rightarrow> 'a word \<Rightarrow> 'a word" where
  "saturating_sub a b = (if b \<le> a then a - b else 0)"

definition saturating_mul :: "'a::len word \<Rightarrow> 'a word \<Rightarrow> 'a word" where
  "saturating_mul a b = (if unat a * unat b < 2 ^ LENGTH('a) then a * b else word_max)"

definition clamp :: "'a::linorder \<Rightarrow> 'a \<Rightarrow> 'a \<Rightarrow> 'a" where
  "clamp x lo hi = (if x < lo then lo else if hi < x then hi else x)"

lemma unat_word_max [word_arith]: "unat (word_max :: 'a::len word) = 2 ^ LENGTH('a) - 1"
  by (simp add: word_max_def unsigned_minus_1_eq_mask mask_eq_exp_minus_1)

lemma unat_saturating_add [word_arith]:
  "unat (saturating_add a b :: 'a::len word) = min (unat a + unat b) (2 ^ LENGTH('a) - 1)"
proof (cases "unat a + unat b < 2 ^ LENGTH('a)")
  case True
  then have "unat (a + b) = unat a + unat b"
    by (simp add: unat_word_ariths)
  with True show ?thesis
    by (simp add: saturating_add_def)
qed (simp add: saturating_add_def unat_word_max)

lemma unat_saturating_sub [word_arith]:
  "unat (saturating_sub a b :: 'a::len word) = unat a - unat b"
  by (auto simp: saturating_sub_def unat_sub word_le_nat_alt)

lemma unat_saturating_mul [word_arith]:
  "unat (saturating_mul a b :: 'a::len word) = min (unat a * unat b) (2 ^ LENGTH('a) - 1)"
proof (cases "unat a * unat b < 2 ^ LENGTH('a)")
  case True
  then have "unat (a * b) = unat a * unat b"
    by (simp add: unat_word_ariths)
  with True show ?thesis
    by (simp add: saturating_mul_def)
qed (simp add: saturating_mul_def unat_word_max)

lemma clamp_bounds: "lo \<le> hi \<Longrightarrow> lo \<le> clamp x lo hi \<and> clamp x lo hi \<le> hi"
  by (auto simp: clamp_def)

lemma word_less_pow2_bit: "w < 2 ^ n \<Longrightarrow> bit w i \<Longrightarrow> i < n" for w :: "'a::len word"
proof (rule ccontr)
  assume small: "w < 2 ^ n" and bit_i: "bit w i" and ge: "\<not> i < n"
  from bit_i have "i < LENGTH('a)" by (rule bit_imp_le_length)
  with ge have "n < LENGTH('a)" by simp
  then have "unat (of_nat (2 ^ n) :: 'a word) = 2 ^ n"
    by (simp add: unsigned_of_nat take_bit_nat_eq_self del: of_nat_power)
  with small have "unat w < 2 ^ n"
    by (simp add: word_less_nat_alt)
  also have "(2::nat) ^ n \<le> 2 ^ i" using ge by simp
  finally have "\<not> bit (unat w) i"
    by (simp add: bit_iff_odd)
  with bit_i show False by (simp add: bit_unsigned_iff bit_imp_le_length)
qed

lemma unat_Suc_less: "unat (w + 1) = Suc (unat w)" if "w < v" for w v :: "'a::len word"
proof -
  have "unat v < 2 ^ LENGTH('a)" by (rule unsigned_less)
  with that have "unat w + 1 < 2 ^ LENGTH('a)"
    unfolding word_less_nat_alt by linarith
  then show ?thesis by (simp add: unat_word_ariths)
qed

lemma unat_dec: "(w :: 'a::len word) \<noteq> 0 \<Longrightarrow> unat (w - 1) = unat w - 1"
  by (simp add: unat_minus_one)

section \<open>Atomic cells\<close>

text \<open>\<open>saturating_pow\<close>: the exact power when it fits, the maximum otherwise.\<close>

definition saturating_pow :: "'a::len word \<Rightarrow> nat \<Rightarrow> 'a word" where
  "saturating_pow b n = (if unat b ^ n < 2 ^ LENGTH('a) then b ^ n else word_max)"

lemma unat_saturating_pow [word_arith]:
  "unat (saturating_pow b n :: 'a::len word) = min (unat b ^ n) (2 ^ LENGTH('a) - 1)"
proof (cases "unat b ^ n < 2 ^ LENGTH('a)")
  case True
  have "unat (of_nat (unat b ^ n) :: 'a word) = unat b ^ n"
    using True by (simp only: unsigned_of_nat take_bit_nat_eq_self of_nat_id)
  then have "unat (b ^ n) = unat b ^ n" by simp
  with True show ?thesis
    by (simp add: saturating_pow_def)
qed (simp add: saturating_pow_def unat_word_max)

section \<open>Text\<close>

text \<open>
  A Rust \<^verbatim>\<open>str\<close> is the list of its UTF-8 bytes; the ASCII operations of the standard library
  act on the bytes and leave those from 128 on alone.
\<close>

definition byte_of :: "char \<Rightarrow> nat" where
  "byte_of c = of_char c"

definition is_ascii_digit :: "char \<Rightarrow> bool" where
  "is_ascii_digit c \<longleftrightarrow> 48 \<le> byte_of c \<and> byte_of c \<le> 57"

definition to_ascii_lowercase :: "char \<Rightarrow> char" where
  "to_ascii_lowercase c = (if 65 \<le> byte_of c \<and> byte_of c \<le> 90 then char_of (byte_of c + 32) else c)"

definition eq_ignore_ascii_case :: "string \<Rightarrow> string \<Rightarrow> bool" where
  "eq_ignore_ascii_case s t \<longleftrightarrow> map to_ascii_lowercase s = map to_ascii_lowercase t"

lemma byte_of_less [simp]: "byte_of c < 256"
  by (simp add: byte_of_def)

lemma byte_of_eq_iff [simp]: "byte_of c = byte_of d \<longleftrightarrow> c = d"
  by (simp add: byte_of_def)

lemma to_ascii_lowercase_idem [simp]: "to_ascii_lowercase (to_ascii_lowercase c) = to_ascii_lowercase c"
  by (simp add: to_ascii_lowercase_def byte_of_def)

text \<open>Decimal rendering, as \<open>Display\<close> prints an unsigned integer.\<close>

definition digit :: "nat \<Rightarrow> char" where
  "digit d = char_of (48 + d)"

fun dec :: "nat \<Rightarrow> string" where
  "dec n = (if n < 10 then [digit n] else dec (n div 10) @ [digit (n mod 10)])"

declare dec.simps [simp del]

text \<open>Reading a decimal numeral without bound; the callers check the width.\<close>

definition digit_value :: "char \<Rightarrow> nat" where
  "digit_value c = byte_of c - 48"

definition dec_value :: "string \<Rightarrow> nat" where
  "dec_value s = foldl (\<lambda>v c. v * 10 + digit_value c) 0 s"

lemma byte_of_digit [simp]: "d < 10 \<Longrightarrow> byte_of (digit d) = 48 + d"
  by (simp add: byte_of_def digit_def)

lemma digit_is_digit [simp]: "d < 10 \<Longrightarrow> is_ascii_digit (digit d)"
  by (simp add: is_ascii_digit_def)

lemma dec_digits: "c \<in> set (dec n) \<Longrightarrow> is_ascii_digit c"
proof (induction n rule: dec.induct)
  case (1 n)
  then show ?case by (cases "n < 10") (auto simp: dec.simps [of n])
qed

lemma dec_nonempty [simp]: "dec n \<noteq> []"
  by (subst dec.simps) simp

lemma dec_value_snoc: "dec_value (s @ [c]) = dec_value s * 10 + digit_value c"
  by (simp add: dec_value_def)

lemma dec_value_dec [codec]: "dec_value (dec n) = n"
proof (induction n rule: dec.induct)
  case (1 n)
  show ?case
  proof (cases "n < 10")
    case True
    then show ?thesis by (simp add: dec.simps [of n] dec_value_def digit_value_def)
  next
    case False
    with 1 have "dec_value (dec (n div 10)) = n div 10" by simp
    with False show ?thesis
      by (simp add: dec.simps [of n] dec_value_snoc digit_value_def)
  qed
qed

lemma dec_eq_iff [simp]: "dec m = dec n \<longleftrightarrow> m = n"
  using dec_value_dec by metis

text \<open>A list is determined by the parts around the first separator.\<close>

lemma split_at_separator:
  assumes "x \<notin> set as" "x \<notin> set cs" and "as @ x # bs = cs @ x # ds"
  shows "as = cs \<and> bs = ds"
  using assms
proof (induction as arbitrary: cs)
  case Nil
  then show ?case by (cases cs) auto
next
  case (Cons a as)
  then show ?case by (cases cs) auto
qed

text \<open>
  \<open>compare_exchange\<close> on a cell that currently holds \<open>cur\<close>: the new contents and whether
  the exchange happened. The strong form never fails spuriously; the weak form may, which
  the \<open>spurious\<close> flag stands for.
\<close>

definition compare_exchange :: "'a \<Rightarrow> 'a \<Rightarrow> 'a \<Rightarrow> 'a \<times> bool" where
  "compare_exchange cur expected new = (if cur = expected then (new, True) else (cur, False))"

definition compare_exchange_weak :: "bool \<Rightarrow> 'a \<Rightarrow> 'a \<Rightarrow> 'a \<Rightarrow> 'a \<times> bool" where
  "compare_exchange_weak spurious cur expected new =
     (if spurious then (cur, False) else compare_exchange cur expected new)"

end
