(* ===== verification/Circuit_Breaker.thy ===== *)
theory Circuit_Breaker
  imports Ferrum_Prelude
begin

unbundle bit_operations_syntax

text \<open>
  \<^verbatim>\<open>src/src/circuit_breaker.rs\<close>, one breaker: the packed word that fuses the open generation,
  the state and the half-open probe count, the operations as they run without interference
  from another thread, the well-formedness invariant every operation keeps, and the
  abstract three-state machine they implement. The interleaved executions of the same code
  are in \<^verbatim>\<open>Circuit_Breaker_Threads\<close>, the keyed cache in \<^verbatim>\<open>Circuit_Breaker_Cache\<close>.
\<close>

section \<open>The packed word\<close>

definition STATE_CLOSED :: u8 where "STATE_CLOSED = 0"
definition STATE_OPEN :: u8 where "STATE_OPEN = 1"
definition STATE_HALF_OPEN :: u8 where "STATE_HALF_OPEN = 2"

definition STATE_SHIFT :: nat where "STATE_SHIFT = 30"
definition COUNT_MASK :: u32 where "COUNT_MASK = push_bit STATE_SHIFT 1 - 1"

definition pack_full :: "u32 \<Rightarrow> u8 \<Rightarrow> u32 \<Rightarrow> u64" where
  "pack_full generation state count =
     push_bit 32 (ucast generation)
       OR ucast (push_bit STATE_SHIFT (ucast state :: u32))
       OR ucast (count AND COUNT_MASK)"

definition packed_generation :: "u64 \<Rightarrow> u32" where
  "packed_generation p = ucast (drop_bit 32 p)"

definition packed_state :: "u64 \<Rightarrow> u8" where
  "packed_state p = ucast (drop_bit STATE_SHIFT (ucast p :: u32))"

definition packed_count :: "u64 \<Rightarrow> u32" where
  "packed_count p = ucast p AND COUNT_MASK"

lemmas state_defs = STATE_CLOSED_def STATE_OPEN_def STATE_HALF_OPEN_def

lemma state_distinct [simp]:
  "STATE_CLOSED \<noteq> STATE_OPEN" "STATE_OPEN \<noteq> STATE_CLOSED"
  "STATE_CLOSED \<noteq> STATE_HALF_OPEN" "STATE_HALF_OPEN \<noteq> STATE_CLOSED"
  "STATE_OPEN \<noteq> STATE_HALF_OPEN" "STATE_HALF_OPEN \<noteq> STATE_OPEN"
  by (simp_all add: state_defs)

lemma COUNT_MASK_mask: "COUNT_MASK = mask 30"
  by (simp add: COUNT_MASK_def STATE_SHIFT_def mask_eq_decr_exp)

lemma unat_COUNT_MASK: "unat COUNT_MASK = 2 ^ 30 - 1"
  by (simp add: COUNT_MASK_def STATE_SHIFT_def)

lemma one_le_COUNT_MASK: "1 \<le> COUNT_MASK"
  by (simp add: COUNT_MASK_def STATE_SHIFT_def)

lemma packed_generation_pack [codec]:
  "packed_generation (pack_full g s c) = g"
  unfolding packed_generation_def pack_full_def COUNT_MASK_mask STATE_SHIFT_def
  by (rule bit_word_eqI) (auto simp: bit_simps)

lemma packed_state_pack [codec]:
  assumes "s < 4"
  shows "packed_state (pack_full g s c) = s"
proof (rule bit_word_eqI)
  fix n
  assume "n < LENGTH(8)"
  moreover have "bit s n \<Longrightarrow> n < 2"
    using word_less_pow2_bit [of s 2 n] assms by simp
  ultimately show "bit (packed_state (pack_full g s c)) n = bit s n"
    unfolding packed_state_def pack_full_def COUNT_MASK_mask STATE_SHIFT_def
    by (auto simp: bit_simps)
qed

lemma packed_count_pack [codec]:
  assumes "c \<le> COUNT_MASK"
  shows "packed_count (pack_full g s c) = c"
proof (rule bit_word_eqI)
  fix n
  assume "n < LENGTH(32)"
  moreover have "bit c n \<Longrightarrow> n < 30"
  proof -
    have "c < 2 ^ 30"
      using assms by (simp add: word_less_nat_alt word_le_nat_alt unat_COUNT_MASK)
    then show "bit c n \<Longrightarrow> n < 30" by (rule word_less_pow2_bit)
  qed
  ultimately show "bit (packed_count (pack_full g s c)) n = bit c n"
    unfolding packed_count_def pack_full_def COUNT_MASK_mask STATE_SHIFT_def
    by (auto simp: bit_simps)
qed

lemma state_small [simp]: "STATE_CLOSED < 4" "STATE_OPEN < 4" "STATE_HALF_OPEN < 4"
  by (simp_all add: state_defs)

lemmas pack_state [simp] =
  packed_state_pack [OF state_small(1)] packed_state_pack [OF state_small(2)]
  packed_state_pack [OF state_small(3)]

text \<open>The word is determined by its three fields.\<close>

lemma pack_fields: "pack_full (packed_generation p) (packed_state p) (packed_count p) = p"
proof (rule bit_word_eqI)
  fix n
  assume "n < LENGTH(64)"
  then show "bit (pack_full (packed_generation p) (packed_state p) (packed_count p)) n = bit p n"
    unfolding packed_count_def packed_state_def packed_generation_def pack_full_def
      COUNT_MASK_mask STATE_SHIFT_def
    by (cases "n < 32") (auto simp: bit_simps)
qed

lemma packed_count_le: "packed_count p \<le> COUNT_MASK"
  by (simp add: packed_count_def word_and_le1)

section \<open>State, configuration and operations\<close>

record CircuitBreakerConfig =
  failure_threshold :: u32
  success_threshold :: u32
  timeout_seconds :: u64
  failure_status_codes :: "u16 list"
  half_open_max_requests :: u32
  trip_on_connection_errors :: bool

definition default_CircuitBreakerConfig :: CircuitBreakerConfig where
  "default_CircuitBreakerConfig =
     \<lparr>failure_threshold = 5, success_threshold = 3, timeout_seconds = 30,
      failure_status_codes = [500, 502, 503, 504], half_open_max_requests = 1,
      trip_on_connection_errors = True\<rparr>"

record CircuitBreaker =
  packed :: u64
  failure_count :: u32
  success_count :: u32
  last_failure_tick_ms :: u64
  last_failure_epoch_ms :: u64
  config :: CircuitBreakerConfig

datatype CircuitOpenError = CircuitOpenError

definition new_CircuitBreaker :: "CircuitBreakerConfig \<Rightarrow> CircuitBreaker" where
  "new_CircuitBreaker cfg =
     \<lparr>packed = pack_full 0 STATE_CLOSED 0, failure_count = 0, success_count = 0,
      last_failure_tick_ms = 0, last_failure_epoch_ms = 0, config = cfg\<rparr>"

text \<open>The limit on concurrent probes: floored at one, capped at the 30-bit field.\<close>

definition half_open_limit :: "CircuitBreakerConfig \<Rightarrow> u32" where
  "half_open_limit cfg = clamp (half_open_max_requests cfg) 1 COUNT_MASK"

text \<open>The recovery timeout in milliseconds, and whether it has elapsed at \<open>now\<close>.\<close>

definition timeout_elapsed :: "CircuitBreakerConfig \<Rightarrow> u64 \<Rightarrow> u64 \<Rightarrow> bool" where
  "timeout_elapsed cfg now last_failure \<longleftrightarrow>
     saturating_mul (timeout_seconds cfg) 1000 \<le> saturating_sub now last_failure"

definition try_acquire_half_open_slot ::
  "CircuitBreaker \<Rightarrow> (CircuitOpenError + bool) \<times> CircuitBreaker" where
  "try_acquire_half_open_slot cb =
     (let limit = half_open_limit (config cb); p = packed cb in
      if packed_state p = STATE_HALF_OPEN then
        (let count = packed_count p in
         if limit \<le> count then (Inl CircuitOpenError, cb)
         else (Inr True,
               cb\<lparr>packed := pack_full (packed_generation p) STATE_HALF_OPEN (count + 1)\<rparr>))
      else if packed_state p = STATE_OPEN then (Inl CircuitOpenError, cb)
      else (Inr False, cb))"

definition can_execute :: "u64 \<Rightarrow> CircuitBreaker \<Rightarrow> (CircuitOpenError + bool) \<times> CircuitBreaker"
  where
  "can_execute now cb =
     (let p = packed cb in
      if packed_state p = STATE_CLOSED then (Inr False, cb)
      else if packed_state p = STATE_OPEN then
        (if timeout_elapsed (config cb) now (last_failure_tick_ms cb) then
           (let generation = packed_generation p;
                (p', won) = compare_exchange p (pack_full generation STATE_OPEN 0)
                              (pack_full generation STATE_HALF_OPEN 1)
            in if won then (Inr True, cb\<lparr>packed := p', success_count := 0\<rparr>)
               else if packed_state p' = STATE_HALF_OPEN then try_acquire_half_open_slot cb
               else if packed_state p' = STATE_CLOSED then (Inr False, cb)
               else (Inl CircuitOpenError, cb))
         else (Inl CircuitOpenError, cb))
      else if packed_state p = STATE_HALF_OPEN then try_acquire_half_open_slot cb
      else (Inr False, cb))"

definition release_half_open_slot :: "CircuitBreaker \<Rightarrow> CircuitBreaker" where
  "release_half_open_slot cb =
     (let p = packed cb; count = packed_count p in
      if count = 0 then cb
      else cb\<lparr>packed := pack_full (packed_generation p) (packed_state p) (count - 1)\<rparr>)"

definition release_if :: "bool \<Rightarrow> CircuitBreaker \<Rightarrow> CircuitBreaker" where
  "release_if is_half_open_probe cb =
     (if is_half_open_probe then release_half_open_slot cb else cb)"

definition record_success :: "bool \<Rightarrow> CircuitBreaker \<Rightarrow> CircuitBreaker" where
  "record_success is_half_open_probe cb =
     (if packed_state (packed cb) = STATE_HALF_OPEN then
        (let cb = release_if is_half_open_probe cb in
         if packed_state (packed cb) \<noteq> STATE_HALF_OPEN then cb
         else
           (let successes = success_count cb + 1;
                cb = cb\<lparr>success_count := successes\<rparr> in
            if success_threshold (config cb) \<le> successes then
              (let p = packed cb in
               if packed_state p \<noteq> STATE_HALF_OPEN then cb
               else cb\<lparr>packed := pack_full (packed_generation p) STATE_CLOSED 0,
                       failure_count := 0, success_count := 0\<rparr>)
            else cb))
      else if packed_state (packed cb) = STATE_OPEN \<and> is_half_open_probe then
        release_half_open_slot cb
      else if packed_state (packed cb) = STATE_CLOSED then
        (let cb = release_if is_half_open_probe cb in
         if 0 < failure_count cb then cb\<lparr>failure_count := 0\<rparr> else cb)
      else cb)"

definition record_neutral :: "bool \<Rightarrow> CircuitBreaker \<Rightarrow> CircuitBreaker" where
  "record_neutral is_half_open_probe cb =
     (if \<not> is_half_open_probe then cb else release_half_open_slot cb)"

definition reopen_after_probe_failure :: "CircuitBreaker \<Rightarrow> CircuitBreaker" where
  "reopen_after_probe_failure cb =
     (let cb = cb\<lparr>success_count := 0\<rparr>; p = packed cb in
      if packed_state p = STATE_OPEN then cb
      else cb\<lparr>packed := pack_full (packed_generation p + 1) STATE_OPEN 0\<rparr>)"

text \<open>Which failures the configuration lets count: the early returns of \<open>record_failure_inner\<close>.\<close>

definition failure_counts :: "CircuitBreakerConfig \<Rightarrow> u16 \<Rightarrow> bool \<Rightarrow> bool" where
  "failure_counts cfg status_code connection_error \<longleftrightarrow>
     (if connection_error then trip_on_connection_errors cfg
      else status_code \<in> set (failure_status_codes cfg))"

text \<open>The CLOSED-state arm after the timestamps are stored.\<close>

definition count_closed_failure :: "CircuitBreaker \<Rightarrow> CircuitBreaker" where
  "count_closed_failure cb =
     (let failures = failure_count cb + 1;
          cb = cb\<lparr>failure_count := failures\<rparr>;
          threshold = failure_threshold (config cb) in
      if threshold \<le> failures then
        (if failure_count cb < threshold then cb
         else
           (let generation = packed_generation (packed cb);
                (p', won) = compare_exchange (packed cb) (pack_full generation STATE_CLOSED 0)
                              (pack_full (generation + 1) STATE_OPEN 0)
            in if won then
                 (let cb = cb\<lparr>packed := p'\<rparr> in
                  if failure_count cb < threshold then
                    cb\<lparr>packed := fst (compare_exchange (packed cb)
                                   (pack_full (generation + 1) STATE_OPEN 0)
                                   (pack_full (generation + 1) STATE_CLOSED 0))\<rparr>
                  else cb)
               else cb))
      else cb)"

definition record_failure ::
  "u64 \<times> u64 \<Rightarrow> u16 \<Rightarrow> bool \<Rightarrow> bool \<Rightarrow> CircuitBreaker \<Rightarrow> CircuitBreaker" where
  "record_failure clock status_code connection_error is_half_open_probe cb =
     (if \<not> failure_counts (config cb) status_code connection_error then
        release_if is_half_open_probe cb
      else
        (let (failure_tick_ms, failure_epoch_ms) = clock;
             stamped = cb\<lparr>last_failure_tick_ms := failure_tick_ms,
                          last_failure_epoch_ms := failure_epoch_ms\<rparr>
         in if packed_state (packed cb) = STATE_CLOSED then
              count_closed_failure (release_if is_half_open_probe stamped)
            else if packed_state (packed cb) = STATE_HALF_OPEN then
              reopen_after_probe_failure stamped
            else if packed_state (packed cb) = STATE_OPEN \<and> is_half_open_probe then
              release_half_open_slot cb
            else cb))"

definition open_epoch :: "CircuitBreaker \<Rightarrow> u64" where
  "open_epoch cb = ucast (packed_generation (packed cb))"

definition half_open_in_flight :: "CircuitBreaker \<Rightarrow> u32" where
  "half_open_in_flight cb = packed_count (packed cb)"

definition state_name :: "CircuitBreaker \<Rightarrow> string" where
  "state_name cb =
     (let s = packed_state (packed cb) in
      if s = STATE_CLOSED then ''closed''
      else if s = STATE_OPEN then ''open''
      else if s = STATE_HALF_OPEN then ''half_open''
      else ''unknown'')"

section \<open>The abstract machine behind the packed word\<close>

datatype phase = Closed | Open | HalfOpen nat

definition phase_of :: "u64 \<Rightarrow> phase" where
  "phase_of p =
     (if packed_state p = STATE_CLOSED then Closed
      else if packed_state p = STATE_OPEN then Open
      else HalfOpen (unat (packed_count p)))"

definition view :: "u64 \<Rightarrow> u32 \<times> phase" where
  "view p = (packed_generation p, phase_of p)"

fun encode :: "u32 \<times> phase \<Rightarrow> u64" where
  "encode (g, Closed) = pack_full g STATE_CLOSED 0"
| "encode (g, Open) = pack_full g STATE_OPEN 0"
| "encode (g, HalfOpen n) = pack_full g STATE_HALF_OPEN (of_nat n)"

fun phase_ok :: "nat \<Rightarrow> phase \<Rightarrow> bool" where
  "phase_ok limit (HalfOpen n) \<longleftrightarrow> n \<le> limit"
| "phase_ok limit _ \<longleftrightarrow> True"

abbreviation max_count :: nat where
  "max_count \<equiv> 2 ^ 30 - 1"

text \<open>
  A word is well formed when it encodes a phase within the limit. In particular OPEN and
  CLOSED carry a zero count, which the exact expected values of the transitions rely on.
\<close>

definition wf_packed :: "nat \<Rightarrow> u64 \<Rightarrow> bool" where
  "wf_packed limit p \<longleftrightarrow> (\<exists>g ph. p = encode (g, ph) \<and> phase_ok limit ph)"

lemma view_encode [codec]:
  assumes "phase_ok limit ph" and "limit \<le> max_count"
  shows "view (encode (g, ph)) = (g, ph)"
proof (cases ph)
  case (HalfOpen n)
  with assms have n: "n \<le> max_count" by simp
  then have u: "unat (of_nat n :: u32) = n"
    by (simp add: unsigned_of_nat take_bit_nat_eq_self)
  then have "(of_nat n :: u32) \<le> COUNT_MASK"
    using n by (simp add: word_le_nat_alt unat_COUNT_MASK)
  with HalfOpen u show ?thesis
    by (simp add: view_def phase_of_def codec)
qed (simp_all add: view_def phase_of_def codec)

locale word_codec =
  fixes enc :: "'s \<Rightarrow> 'w" and dec :: "'w \<Rightarrow> 's" and valid :: "'s \<Rightarrow> bool"
  assumes dec_enc: "valid s \<Longrightarrow> dec (enc s) = s"
begin

lemma enc_eq_iff: "valid s \<Longrightarrow> valid t \<Longrightarrow> enc s = enc t \<longleftrightarrow> s = t"
  using dec_enc by metis

text \<open>
  One compare-exchange on the packed word is one compare-exchange on the decoded state:
  the fields can only ever change together.
\<close>

lemma compare_exchange_enc:
  "valid cur \<Longrightarrow> valid a \<Longrightarrow>
   compare_exchange (enc cur) (enc a) (enc b) =
     (enc (fst (compare_exchange cur a b)), snd (compare_exchange cur a b))"
  by (simp add: compare_exchange_def enc_eq_iff)

end

interpretation breaker_word: word_codec encode view "\<lambda>(g, ph). phase_ok max_count ph"
  by unfold_locales (auto intro: view_encode)

lemma wf_packedE [consumes 2, case_names Closed Open HalfOpen]:
  assumes "wf_packed limit p" and "limit \<le> max_count"
  obtains (Closed) g where "p = pack_full g STATE_CLOSED 0" "view p = (g, phase.Closed)"
      "packed_state p = STATE_CLOSED" "packed_generation p = g" "packed_count p = 0"
    | (Open) g where "p = pack_full g STATE_OPEN 0" "view p = (g, phase.Open)"
      "packed_state p = STATE_OPEN" "packed_generation p = g" "packed_count p = 0"
    | (HalfOpen) g c where "p = pack_full g STATE_HALF_OPEN c" "view p = (g, phase.HalfOpen (unat c))"
      "packed_state p = STATE_HALF_OPEN" "packed_generation p = g" "packed_count p = c"
      "unat c \<le> limit"
proof -
  from assms(1) obtain g ph where p: "p = encode (g, ph)" and ok: "phase_ok limit ph"
    by (auto simp: wf_packed_def)
  have v: "view p = (g, ph)"
    using view_encode [OF ok assms(2)] p by simp
  show thesis
  proof (cases ph)
    case Closed
    with p v show thesis using that(1) [of g] by (simp add: codec)
  next
    case Open
    with p v show thesis using that(2) [of g] by (simp add: codec)
  next
    case (HalfOpen n)
    have u: "unat (of_nat n :: u32) = n"
      using HalfOpen ok assms(2) by (simp add: unsigned_of_nat take_bit_nat_eq_self)
    then have "(of_nat n :: u32) \<le> COUNT_MASK"
      using HalfOpen ok assms(2) by (simp add: word_le_nat_alt unat_COUNT_MASK)
    with HalfOpen p v u ok show thesis using that(3) [of g "of_nat n"] by (simp add: codec)
  qed
qed

lemma wf_packed_intros [intro, simp]:
  "wf_packed limit (pack_full g STATE_CLOSED 0)"
  "wf_packed limit (pack_full g STATE_OPEN 0)"
  "unat c \<le> limit \<Longrightarrow> wf_packed limit (pack_full g STATE_HALF_OPEN c)"
proof -
  show "wf_packed limit (pack_full g STATE_CLOSED 0)"
    unfolding wf_packed_def by (rule exI [of _ g], rule exI [of _ Closed]) simp
  show "wf_packed limit (pack_full g STATE_OPEN 0)"
    unfolding wf_packed_def by (rule exI [of _ g], rule exI [of _ Open]) simp
  show "unat c \<le> limit \<Longrightarrow> wf_packed limit (pack_full g STATE_HALF_OPEN c)"
    unfolding wf_packed_def
    by (rule exI [of _ g], rule exI [of _ "HalfOpen (unat c)"]) simp
qed

lemma half_open_limit_bounds:
  "1 \<le> unat (half_open_limit cfg)" "unat (half_open_limit cfg) \<le> max_count"
proof -
  have "1 \<le> half_open_limit cfg \<and> half_open_limit cfg \<le> COUNT_MASK"
    unfolding half_open_limit_def by (rule clamp_bounds [OF one_le_COUNT_MASK])
  then show "1 \<le> unat (half_open_limit cfg)" "unat (half_open_limit cfg) \<le> max_count"
    by (simp_all add: word_le_nat_alt unat_COUNT_MASK)
qed

section \<open>Specification and refinement\<close>

text \<open>
  What a breaker promises, over the decoded state: a machine on \<open>Closed\<close>, \<open>Open\<close> and
  \<open>HalfOpen n\<close> with a failure streak, a success count and the open generation.
\<close>

record breaker_spec =
  generation :: u32
  phase :: phase
  failures :: u32
  successes :: u32
  failure_tick :: u64

definition abs_breaker :: "CircuitBreaker \<Rightarrow> breaker_spec" where
  "abs_breaker cb =
     \<lparr>generation = packed_generation (packed cb), phase = phase_of (packed cb),
      failures = failure_count cb, successes = success_count cb,
      failure_tick = last_failure_tick_ms cb\<rparr>"

definition spec_can_execute ::
  "CircuitBreakerConfig \<Rightarrow> u64 \<Rightarrow> breaker_spec \<Rightarrow> (CircuitOpenError + bool) \<times> breaker_spec" where
  "spec_can_execute cfg now s =
     (case phase s of
        Closed \<Rightarrow> (Inr False, s)
      | Open \<Rightarrow>
          if timeout_elapsed cfg now (failure_tick s)
          then (Inr True, s\<lparr>phase := HalfOpen 1, successes := 0\<rparr>)
          else (Inl CircuitOpenError, s)
      | HalfOpen n \<Rightarrow>
          if n < unat (half_open_limit cfg) then (Inr True, s\<lparr>phase := HalfOpen (n + 1)\<rparr>)
          else (Inl CircuitOpenError, s))"

definition spec_release :: "bool \<Rightarrow> breaker_spec \<Rightarrow> breaker_spec" where
  "spec_release probe s =
     (case phase s of
        HalfOpen n \<Rightarrow> if probe then s\<lparr>phase := HalfOpen (n - 1)\<rparr> else s
      | _ \<Rightarrow> s)"

definition spec_success :: "CircuitBreakerConfig \<Rightarrow> bool \<Rightarrow> breaker_spec \<Rightarrow> breaker_spec" where
  "spec_success cfg probe s =
     (case phase s of
        Closed \<Rightarrow> s\<lparr>failures := 0\<rparr>
      | Open \<Rightarrow> s
      | HalfOpen n \<Rightarrow>
          if success_threshold cfg \<le> successes s + 1
          then s\<lparr>phase := Closed, failures := 0, successes := 0\<rparr>
          else (spec_release probe s)\<lparr>successes := successes s + 1\<rparr>)"

definition spec_failure ::
  "CircuitBreakerConfig \<Rightarrow> u64 \<Rightarrow> u16 \<Rightarrow> bool \<Rightarrow> bool \<Rightarrow> breaker_spec \<Rightarrow> breaker_spec" where
  "spec_failure cfg tick status conn probe s =
     (if \<not> failure_counts cfg status conn then spec_release probe s
      else case phase s of
        Closed \<Rightarrow>
          (let s' = s\<lparr>failures := failures s + 1, failure_tick := tick\<rparr> in
           if failure_threshold cfg \<le> failures s + 1
           then s'\<lparr>phase := Open, generation := generation s + 1\<rparr> else s')
      | HalfOpen n \<Rightarrow>
          s\<lparr>phase := Open, generation := generation s + 1, successes := 0, failure_tick := tick\<rparr>
      | Open \<Rightarrow> s)"

definition wf_breaker :: "CircuitBreaker \<Rightarrow> bool" where
  "wf_breaker cb \<longleftrightarrow> wf_packed (unat (half_open_limit (config cb))) (packed cb)"

lemma wf_new: "wf_breaker (new_CircuitBreaker cfg)"
  by (simp add: wf_breaker_def new_CircuitBreaker_def)

lemma abs_new:
  "abs_breaker (new_CircuitBreaker cfg) =
     \<lparr>generation = 0, phase = Closed, failures = 0, successes = 0, failure_tick = 0\<rparr>"
  by (simp add: abs_breaker_def new_CircuitBreaker_def phase_of_def codec)

text \<open>Case analysis of a well-formed breaker by its phase.\<close>

lemma wf_breakerE [consumes 1, case_names Closed Open HalfOpen]:
  assumes "wf_breaker cb"
  obtains (Closed) g where "packed cb = pack_full g STATE_CLOSED 0"
    | (Open) g where "packed cb = pack_full g STATE_OPEN 0"
    | (HalfOpen) g c where "packed cb = pack_full g STATE_HALF_OPEN c"
        "c \<le> half_open_limit (config cb)" "c \<le> COUNT_MASK"
proof -
  note lim = half_open_limit_bounds(2) [of "config cb"]
  from assms have "wf_packed (unat (half_open_limit (config cb))) (packed cb)"
    by (simp add: wf_breaker_def)
  from this lim show thesis
  proof (cases rule: wf_packedE)
    case (HalfOpen g c)
    have "c \<le> half_open_limit (config cb)"
      using HalfOpen(6) by (simp add: word_le_nat_alt)
    moreover have "c \<le> COUNT_MASK"
      using HalfOpen(6) lim by (simp add: word_le_nat_alt unat_COUNT_MASK)
    ultimately show thesis using that(3) HalfOpen(1) by blast
  qed (use that in blast)+
qed

lemma phase_of_simps [codec]:
  "phase_of (pack_full g STATE_CLOSED c) = Closed"
  "phase_of (pack_full g STATE_OPEN c) = Open"
  "c \<le> COUNT_MASK \<Longrightarrow> phase_of (pack_full g STATE_HALF_OPEN c) = HalfOpen (unat c)"
  by (simp_all add: phase_of_def codec)

lemma count_Suc_le:
  "c < half_open_limit cfg \<Longrightarrow> c + 1 \<le> COUNT_MASK \<and> unat (c + 1) = Suc (unat c)
     \<and> unat (c + 1) \<le> unat (half_open_limit cfg)"
  using half_open_limit_bounds(2) [of cfg] unat_Suc_less [of c "half_open_limit cfg"]
  by (simp add: word_le_nat_alt word_less_nat_alt unat_COUNT_MASK)

lemma count_pred_le:
  assumes "c \<noteq> 0" and "c \<le> COUNT_MASK"
  shows "c - 1 \<le> COUNT_MASK" and "unat (c - 1) = unat c - 1"
  using assms unat_dec [of c] by (simp_all add: word_le_nat_alt)

lemma can_execute_cases:
  "packed cb = pack_full g STATE_CLOSED 0 \<Longrightarrow> can_execute now cb = (Inr False, cb)"
  "packed cb = pack_full g STATE_OPEN 0 \<Longrightarrow> can_execute now cb =
     (if timeout_elapsed (config cb) now (last_failure_tick_ms cb)
      then (Inr True, cb\<lparr>packed := pack_full g STATE_HALF_OPEN 1, success_count := 0\<rparr>)
      else (Inl CircuitOpenError, cb))"
  "packed cb = pack_full g STATE_HALF_OPEN c \<Longrightarrow> c \<le> COUNT_MASK \<Longrightarrow> can_execute now cb =
     (if c < half_open_limit (config cb)
      then (Inr True, cb\<lparr>packed := pack_full g STATE_HALF_OPEN (c + 1)\<rparr>)
      else (Inl CircuitOpenError, cb))"
  by (auto simp: can_execute_def try_acquire_half_open_slot_def codec compare_exchange_def)

lemma release_cases:
  "packed cb = pack_full g STATE_CLOSED 0 \<Longrightarrow> release_half_open_slot cb = cb"
  "packed cb = pack_full g STATE_OPEN 0 \<Longrightarrow> release_half_open_slot cb = cb"
  "packed cb = pack_full g STATE_HALF_OPEN c \<Longrightarrow> c \<le> COUNT_MASK \<Longrightarrow>
     release_half_open_slot cb =
       (if c = 0 then cb else cb\<lparr>packed := pack_full g STATE_HALF_OPEN (c - 1)\<rparr>)"
  by (auto simp: release_half_open_slot_def codec)

lemma can_execute_refines:
  assumes "wf_breaker cb"
  shows "map_prod id abs_breaker (can_execute now cb) =
           spec_can_execute (config cb) now (abs_breaker cb)"
  using assms
proof (cases rule: wf_breakerE)
  case (HalfOpen g c)
  then show ?thesis
    using count_Suc_le [of c "config cb"]
    by (auto simp: can_execute_cases(3) spec_can_execute_def abs_breaker_def codec
        word_less_nat_alt)
qed (auto simp: can_execute_cases spec_can_execute_def abs_breaker_def codec one_le_COUNT_MASK)

lemma can_execute_wf:
  assumes "wf_breaker cb"
  shows "wf_breaker (snd (can_execute now cb))"
  using assms
proof (cases rule: wf_breakerE)
  case (HalfOpen g c)
  then show ?thesis
    using assms count_Suc_le [of c "config cb"]
    by (auto simp: can_execute_cases(3) wf_breaker_def)
qed (use assms half_open_limit_bounds(1) [of "config cb"] in
  \<open>auto simp: can_execute_cases wf_breaker_def\<close>)

lemma release_refines:
  assumes "wf_breaker cb"
  shows "abs_breaker (release_if probe cb) = spec_release probe (abs_breaker cb)"
    and "wf_breaker (release_if probe cb)"
    and "config (release_if probe cb) = config cb"
proof -
  from assms
  have "abs_breaker (release_if probe cb) = spec_release probe (abs_breaker cb)
     \<and> wf_breaker (release_if probe cb) \<and> config (release_if probe cb) = config cb"
  proof (cases rule: wf_breakerE)
    case (HalfOpen g c)
    then show ?thesis
      using assms count_pred_le [of c]
      by (auto simp: release_if_def release_cases(3) spec_release_def abs_breaker_def codec
          wf_breaker_def word_le_nat_alt)
  qed (use assms in \<open>auto simp: release_if_def release_cases spec_release_def abs_breaker_def codec\<close>)
  then show "abs_breaker (release_if probe cb) = spec_release probe (abs_breaker cb)"
    "wf_breaker (release_if probe cb)" "config (release_if probe cb) = config cb"
    by auto
qed

lemma release_packed_HalfOpen:
  assumes "packed cb = pack_full g STATE_HALF_OPEN c" and "c \<le> COUNT_MASK"
  obtains c' where "packed (release_if probe cb) = pack_full g STATE_HALF_OPEN c'"
    and "c' \<le> c"
  using assms
  by (cases "probe \<and> c \<noteq> 0")
    (auto simp: release_if_def release_cases(3) word_le_nat_alt unat_dec intro: that)

lemma release_frame [simp]:
  "failure_count (release_if probe cb) = failure_count cb"
  "success_count (release_if probe cb) = success_count cb"
  "last_failure_tick_ms (release_if probe cb) = last_failure_tick_ms cb"
  "last_failure_epoch_ms (release_if probe cb) = last_failure_epoch_ms cb"
  "config (release_if probe cb) = config cb"
  by (simp_all add: release_if_def release_half_open_slot_def Let_def)

lemma release_probe [simp]: "release_if True cb = release_half_open_slot cb"
  by (simp add: release_if_def)

lemma record_success_cases:
  "packed cb = pack_full g STATE_CLOSED 0 \<Longrightarrow>
     record_success probe cb = cb\<lparr>failure_count := 0\<rparr>"
  "packed cb = pack_full g STATE_OPEN 0 \<Longrightarrow> record_success probe cb = cb"
  "packed cb = pack_full g STATE_HALF_OPEN c \<Longrightarrow> c \<le> COUNT_MASK \<Longrightarrow>
     record_success probe cb =
       (if success_threshold (config cb) \<le> success_count cb + 1
        then cb\<lparr>packed := pack_full g STATE_CLOSED 0, failure_count := 0, success_count := 0\<rparr>
        else (release_if probe cb)\<lparr>success_count := success_count cb + 1\<rparr>)"
proof -
  show "packed cb = pack_full g STATE_CLOSED 0 \<Longrightarrow>
     record_success probe cb = cb\<lparr>failure_count := 0\<rparr>"
    by (cases probe) (auto simp: record_success_def release_if_def release_cases(1) Let_def
        word_gt_0)
  show "packed cb = pack_full g STATE_OPEN 0 \<Longrightarrow> record_success probe cb = cb"
    by (auto simp: record_success_def release_cases(2))
  assume half: "packed cb = pack_full g STATE_HALF_OPEN c" "c \<le> COUNT_MASK"
  then obtain c' where c': "packed (release_if probe cb) = pack_full g STATE_HALF_OPEN c'"
    by (rule release_packed_HalfOpen)
  have "(release_if probe cb)\<lparr>success_count := n, packed := p, failure_count := f,
          success_count := n'\<rparr> = cb\<lparr>packed := p, failure_count := f, success_count := n'\<rparr>" for n n' p f
    by (simp add: release_if_def release_half_open_slot_def Let_def)
  with half c' show "record_success probe cb =
       (if success_threshold (config cb) \<le> success_count cb + 1
        then cb\<lparr>packed := pack_full g STATE_CLOSED 0, failure_count := 0, success_count := 0\<rparr>
        else (release_if probe cb)\<lparr>success_count := success_count cb + 1\<rparr>)"
    by (simp add: record_success_def Let_def codec)
qed

lemma record_failure_cases:
  "\<not> failure_counts (config cb) st conn \<Longrightarrow>
     record_failure (t, w) st conn probe cb = release_if probe cb"
  "failure_counts (config cb) st conn \<Longrightarrow> packed cb = pack_full g STATE_CLOSED 0 \<Longrightarrow>
     record_failure (t, w) st conn probe cb =
       (if failure_threshold (config cb) \<le> failure_count cb + 1
        then cb\<lparr>packed := pack_full (g + 1) STATE_OPEN 0, failure_count := failure_count cb + 1,
               last_failure_tick_ms := t, last_failure_epoch_ms := w\<rparr>
        else cb\<lparr>failure_count := failure_count cb + 1,
               last_failure_tick_ms := t, last_failure_epoch_ms := w\<rparr>)"
  "failure_counts (config cb) st conn \<Longrightarrow> packed cb = pack_full g STATE_OPEN 0 \<Longrightarrow>
     record_failure (t, w) st conn probe cb = cb"
  "failure_counts (config cb) st conn \<Longrightarrow> packed cb = pack_full g STATE_HALF_OPEN c \<Longrightarrow>
     record_failure (t, w) st conn probe cb =
       cb\<lparr>packed := pack_full (g + 1) STATE_OPEN 0, success_count := 0,
          last_failure_tick_ms := t, last_failure_epoch_ms := w\<rparr>"
  by (auto simp: record_failure_def release_if_def release_cases(1,2) count_closed_failure_def
      reopen_after_probe_failure_def compare_exchange_def Let_def codec)

lemma abs_success_update:
  "abs_breaker (cb\<lparr>success_count := n\<rparr>) = (abs_breaker cb)\<lparr>successes := n\<rparr>"
  by (simp add: abs_breaker_def)

lemma record_success_refines:
  assumes "wf_breaker cb"
  shows "abs_breaker (record_success probe cb) = spec_success (config cb) probe (abs_breaker cb)"
  using assms
proof (cases rule: wf_breakerE)
  case (HalfOpen g c)
  then have half: "phase (abs_breaker cb) = HalfOpen (unat c)"
    "successes (abs_breaker cb) = success_count cb"
    by (simp_all add: abs_breaker_def codec)
  show ?thesis
  proof (cases "success_threshold (config cb) \<le> success_count cb + 1")
    case True
    with HalfOpen half show ?thesis
      by (simp add: record_success_cases(3) spec_success_def) (simp add: abs_breaker_def codec)
  next
    case False
    with HalfOpen half show ?thesis
      by (simp add: record_success_cases(3) spec_success_def abs_success_update
          release_refines(1) [OF assms])
  qed
qed (auto simp: record_success_cases spec_success_def abs_breaker_def codec)

lemma record_success_wf:
  assumes "wf_breaker cb"
  shows "wf_breaker (record_success probe cb)"
  using assms
proof (cases rule: wf_breakerE)
  case (HalfOpen g c)
  then show ?thesis
    using release_refines(2) [OF assms, of probe]
    by (simp add: record_success_cases(3) wf_breaker_def)
qed (use assms in \<open>auto simp: record_success_cases wf_breaker_def\<close>)

lemma record_failure_refines:
  assumes "wf_breaker cb"
  shows "abs_breaker (record_failure (t, w) st conn probe cb) =
           spec_failure (config cb) t st conn probe (abs_breaker cb)"
proof (cases "failure_counts (config cb) st conn")
  case False
  then show ?thesis
    using release_refines(1) [OF assms]
    by (simp add: record_failure_cases(1) spec_failure_def)
next
  case True
  from assms show ?thesis
    by (cases rule: wf_breakerE)
      (auto simp: True record_failure_cases(2-4) spec_failure_def abs_breaker_def codec)
qed

lemma record_failure_wf:
  assumes "wf_breaker cb"
  shows "wf_breaker (record_failure (t, w) st conn probe cb)"
proof (cases "failure_counts (config cb) st conn")
  case False
  then show ?thesis
    using release_refines(2) [OF assms] by (simp add: record_failure_cases(1))
next
  case True
  from assms show ?thesis
    by (cases rule: wf_breakerE)
      (use assms in \<open>auto simp: True record_failure_cases(2-4) wf_breaker_def\<close>)
qed

lemma op_config [simp]:
  "config (snd (can_execute now cb)) = config cb"
  "config (record_success probe cb) = config cb"
  "config (record_neutral probe cb) = config cb"
  "config (record_failure (t, w) st conn probe cb) = config cb"
  by (auto simp: can_execute_def try_acquire_half_open_slot_def Let_def compare_exchange_def
      record_success_def release_half_open_slot_def release_if_def record_neutral_def
      record_failure_def count_closed_failure_def reopen_after_probe_failure_def)

lemma record_neutral_release: "record_neutral probe cb = release_if probe cb"
  by (simp add: record_neutral_def release_if_def)

lemmas breaker_wf = wf_new can_execute_wf record_success_wf record_failure_wf release_refines(2)

section \<open>Runs of operations\<close>

datatype breaker_op =
    CanExecute u64
  | RecordSuccess bool
  | RecordNeutral bool
  | RecordFailure u64 u64 u16 bool bool

type_synonym admission = "(CircuitOpenError + bool) option"

fun run_op :: "breaker_op \<Rightarrow> CircuitBreaker \<Rightarrow> admission \<times> CircuitBreaker" where
  "run_op (CanExecute now) cb = map_prod Some id (can_execute now cb)"
| "run_op (RecordSuccess probe) cb = (None, record_success probe cb)"
| "run_op (RecordNeutral probe) cb = (None, record_neutral probe cb)"
| "run_op (RecordFailure t w st conn probe) cb = (None, record_failure (t, w) st conn probe cb)"

fun spec_op ::
  "CircuitBreakerConfig \<Rightarrow> breaker_op \<Rightarrow> breaker_spec \<Rightarrow> admission \<times> breaker_spec" where
  "spec_op cfg (CanExecute now) s = map_prod Some id (spec_can_execute cfg now s)"
| "spec_op cfg (RecordSuccess probe) s = (None, spec_success cfg probe s)"
| "spec_op cfg (RecordNeutral probe) s = (None, spec_release probe s)"
| "spec_op cfg (RecordFailure t w st conn probe) s = (None, spec_failure cfg t st conn probe s)"

fun run_all :: "('o \<Rightarrow> 's \<Rightarrow> 'r \<times> 's) \<Rightarrow> 'o list \<Rightarrow> 's \<Rightarrow> 'r list \<times> 's" where
  "run_all f [] s = ([], s)"
| "run_all f (x # xs) s =
     (let (r, s') = f x s; (rs, s'') = run_all f xs s' in (r # rs, s''))"

text \<open>
  A functional refinement lifts from single operations to runs: same results, related
  final states, invariant kept.
\<close>

locale op_refinement =
  fixes conc :: "'o \<Rightarrow> 's \<Rightarrow> 'r \<times> 's" and spec :: "'o \<Rightarrow> 'a \<Rightarrow> 'r \<times> 'a"
    and abstract :: "'s \<Rightarrow> 'a" and inv :: "'s \<Rightarrow> bool"
  assumes step_refines: "inv s \<Longrightarrow> map_prod id abstract (conc x s) = spec x (abstract s)"
    and step_inv: "inv s \<Longrightarrow> inv (snd (conc x s))"
begin

lemma run_inv: "inv s \<Longrightarrow> inv (snd (run_all conc xs s))"
  by (induction xs arbitrary: s) (auto simp: split_beta step_inv)

lemma run_refines:
  "inv s \<Longrightarrow> map_prod id abstract (run_all conc xs s) = run_all spec xs (abstract s)"
proof (induction xs arbitrary: s)
  case (Cons x xs)
  obtain r s' where step: "conc x s = (r, s')" by force
  have "spec x (abstract s) = (r, abstract s')"
    using step_refines [OF Cons.prems, of x] step by simp
  moreover have "inv s'"
    using step_inv [OF Cons.prems, of x] step by simp
  then have "map_prod id abstract (run_all conc xs s') = run_all spec xs (abstract s')"
    by (rule Cons.IH)
  then have "run_all spec xs (abstract s') =
      (fst (run_all conc xs s'), abstract (snd (run_all conc xs s')))"
    by (simp add: map_prod_def split_beta)
  ultimately show ?case using step by (simp add: split_beta)
qed simp

end

lemma run_op_config: "config (snd (run_op x cb)) = config cb"
  by (cases x) auto

lemma run_op_wf: "wf_breaker cb \<Longrightarrow> wf_breaker (snd (run_op x cb))"
  by (cases x) (auto simp: record_neutral_release intro: breaker_wf)

lemma run_op_refines:
  assumes "wf_breaker cb"
  shows "map_prod id abs_breaker (run_op x cb) = spec_op (config cb) x (abs_breaker cb)"
proof (cases x)
  case (CanExecute now)
  have "map_prod id abs_breaker (map_prod Some id (can_execute now cb)) =
      map_prod Some id (map_prod id abs_breaker (can_execute now cb))"
    by (simp add: map_prod_def split_beta)
  also have "\<dots> = map_prod Some id (spec_can_execute (config cb) now (abs_breaker cb))"
    by (simp add: can_execute_refines [OF assms])
  finally show ?thesis by (simp add: CanExecute)
qed (simp_all add: record_success_refines record_failure_refines record_neutral_release
      release_refines(1) assms)

text \<open>The configuration is constant, so it can be a parameter of the specification.\<close>

definition breaker_inv :: "CircuitBreakerConfig \<Rightarrow> CircuitBreaker \<Rightarrow> bool" where
  "breaker_inv cfg cb \<longleftrightarrow> wf_breaker cb \<and> config cb = cfg"

interpretation breaker: op_refinement run_op "spec_op cfg" abs_breaker "breaker_inv cfg" for cfg
  by unfold_locales
    (auto simp: breaker_inv_def run_op_config run_op_wf run_op_refines [symmetric])

lemma breaker_inv_new: "breaker_inv cfg (new_CircuitBreaker cfg)"
  by (simp add: breaker_inv_def wf_new) (simp add: new_CircuitBreaker_def)

text \<open>
  C1. Any sequence of admissions and outcomes on a fresh breaker behaves as the abstract
  three-state machine: the same admission results in the same order, and a final state
  whose decoded fields are the machine's.
\<close>

theorem breaker_implements_spec:
  "map_prod id abs_breaker (run_all run_op ops (new_CircuitBreaker cfg)) =
     run_all (spec_op cfg) ops
       \<lparr>generation = 0, phase = Closed, failures = 0, successes = 0, failure_tick = 0\<rparr>"
  using breaker.run_refines [OF breaker_inv_new [of cfg], of ops] by (simp add: abs_new)

text \<open>
  C4. In every state a run can reach, the packed word is well formed: OPEN and CLOSED carry
  a zero probe count, and the probe count never exceeds the configured half-open limit.
\<close>

theorem breaker_run_wf:
  "let cb = snd (run_all run_op ops (new_CircuitBreaker cfg)) in
     packed_state (packed cb) \<in> {STATE_CLOSED, STATE_OPEN, STATE_HALF_OPEN} \<and>
     (packed_state (packed cb) = STATE_HALF_OPEN \<or> half_open_in_flight cb = 0) \<and>
     half_open_in_flight cb \<le> half_open_limit cfg"
proof -
  let ?cb = "snd (run_all run_op ops (new_CircuitBreaker cfg))"
  have "breaker_inv cfg ?cb"
    by (rule breaker.run_inv [OF breaker_inv_new])
  then have wf: "wf_breaker ?cb" and cfg: "config ?cb = cfg"
    by (auto simp: breaker_inv_def)
  from wf show ?thesis
    by (cases rule: wf_breakerE) (auto simp: half_open_in_flight_def codec cfg Let_def)
qed

section \<open>Opening and recovering\<close>

abbreviation fail_all :: "u16 \<Rightarrow> bool \<Rightarrow> (u64 \<times> u64) list \<Rightarrow> breaker_op list" where
  "fail_all st conn clocks \<equiv> map (\<lambda>c. RecordFailure (fst c) (snd c) st conn False) clocks"

lemma spec_failures_open:
  assumes "phase s = Open"
  shows "snd (run_all (spec_op cfg) (fail_all st conn clocks) s) = s"
  using assms
  by (induction clocks) (auto simp: split_beta spec_failure_def spec_release_def)

lemma spec_failures_closed:
  assumes "failure_counts cfg st conn"
    and "phase s = Closed" and "unat (failures s) + length clocks < 2 ^ 32"
    and "unat (failures s) < unat (failure_threshold cfg)"
  shows "let s' = snd (run_all (spec_op cfg) (fail_all st conn clocks) s) in
     if unat (failures s) + length clocks < unat (failure_threshold cfg)
     then phase s' = Closed \<and> generation s' = generation s
     else phase s' = Open \<and> generation s' = generation s + 1"
  using assms(2-4)
proof (induction clocks arbitrary: s)
  case (Cons c clocks)
  obtain t w where c: "c = (t, w)" by force
  let ?s = "spec_failure cfg t st conn False s"
  have inc: "unat (failures s + 1) = Suc (unat (failures s))"
    using Cons.prems(3) by (intro unat_Suc_less) (simp add: word_less_nat_alt)
  show ?case
  proof (cases "failure_threshold cfg \<le> failures s + 1")
    case True
    then have ph: "phase ?s = Open" and g: "generation ?s = generation s + 1"
      using assms(1) Cons.prems(1) by (simp_all add: spec_failure_def Let_def)
    have "\<not> unat (failures s) + length (c # clocks) < unat (failure_threshold cfg)"
      using True inc by (simp add: word_le_nat_alt)
    with spec_failures_open [OF ph, of cfg st conn clocks] ph g c show ?thesis
      by (simp add: split_beta Let_def)
  next
    case False
    then have ph: "phase ?s = Closed" and g: "generation ?s = generation s"
      and f: "failures ?s = failures s + 1"
      using assms(1) Cons.prems(1) by (simp_all add: spec_failure_def Let_def)
    have "unat (failures ?s) + length clocks < 2 ^ 32"
      "unat (failures ?s) < unat (failure_threshold cfg)"
      using Cons.prems False inc f by (simp_all add: word_le_nat_alt)
    from Cons.IH [OF ph this] c g f inc show ?thesis
      by (simp add: split_beta Let_def)
  qed
qed (simp add: Let_def)



definition admitted_probes :: "admission list \<Rightarrow> nat" where
  "admitted_probes rs = length (filter (\<lambda>r. r = Some (Inr True)) rs)"

lemma admitted_probes_simps [simp]:
  "admitted_probes [] = 0"
  "admitted_probes (Some (Inr True) # rs) = Suc (admitted_probes rs)"
  "admitted_probes (Some (Inl e) # rs) = admitted_probes rs"
  by (simp_all add: admitted_probes_def)

lemma spec_half_open_admissions:
  "phase s = HalfOpen n \<Longrightarrow> n \<le> unat (half_open_limit cfg) \<Longrightarrow>
   admitted_probes (fst (run_all (spec_op cfg) (map CanExecute ts) s)) =
     min (length ts) (unat (half_open_limit cfg) - n)"
proof (induction ts arbitrary: s n)
  case (Cons t ts)
  show ?case
  proof (cases "n < unat (half_open_limit cfg)")
    case True
    then have "phase (s\<lparr>phase := HalfOpen (n + 1)\<rparr>) = HalfOpen (n + 1)"
      "n + 1 \<le> unat (half_open_limit cfg)" by simp_all
    from Cons.IH [OF this] True Cons.prems(1) show ?thesis
      by (simp add: spec_can_execute_def split_beta)
  next
    case False
    with Cons.IH [OF Cons.prems] Cons.prems show ?thesis
      by (simp add: spec_can_execute_def split_beta)
  qed
qed simp

text \<open>
  C25. An open breaker, reached by any history, rejects every request until its recovery
  timeout has elapsed on the monotonic clock; the first request after that is admitted as a
  probe, and of the requests that follow while no outcome is recorded exactly as many are
  admitted as the half-open limit allows.
\<close>

theorem open_breaker_admissions:
  assumes "cb = snd (run_all run_op ops (new_CircuitBreaker cfg))"
    and "state_name cb = ''open''"
  shows "(\<not> timeout_elapsed cfg now (last_failure_tick_ms cb) \<longrightarrow>
            can_execute now cb = (Inl CircuitOpenError, cb)) \<and>
         (timeout_elapsed cfg now (last_failure_tick_ms cb) \<longrightarrow>
            admitted_probes (fst (run_all run_op (map CanExecute (now # later)) cb)) =
              min (Suc (length later)) (unat (half_open_limit cfg)))"
proof -
  have inv: "breaker_inv cfg cb"
    unfolding assms(1) by (rule breaker.run_inv [OF breaker_inv_new])
  then have wf: "wf_breaker cb" and cfg: "config cb = cfg"
    by (simp_all add: breaker_inv_def)
  from wf obtain g where g: "packed cb = pack_full g STATE_OPEN 0"
    using assms(2) by (cases rule: wf_breakerE) (auto simp: state_name_def)
  have phase: "phase (abs_breaker cb) = Open"
    by (simp add: abs_breaker_def g codec)
  have tick: "failure_tick (abs_breaker cb) = last_failure_tick_ms cb"
    by (simp add: abs_breaker_def)
  let ?ops = "map CanExecute (now # later)"
  let ?half = "(abs_breaker cb)\<lparr>phase := HalfOpen 1, successes := 0\<rparr>"
  have half: "admitted_probes (fst (run_all (spec_op cfg) (map CanExecute later) ?half)) =
      min (length later) (unat (half_open_limit cfg) - 1)"
    using half_open_limit_bounds(1) [of cfg] by (intro spec_half_open_admissions) simp_all
  have "fst (run_all run_op ?ops cb) = fst (run_all (spec_op cfg) ?ops (abs_breaker cb))"
    using breaker.run_refines [OF inv, of ?ops] by (metis fst_map_prod id_apply)
  then have "admitted_probes (fst (run_all run_op ?ops cb)) =
      min (Suc (length later)) (unat (half_open_limit cfg))"
    if "timeout_elapsed cfg now (last_failure_tick_ms cb)"
    using that phase tick half half_open_limit_bounds(1) [of cfg]
    by (simp add: spec_can_execute_def split_beta)
  then show ?thesis
    using g cfg by (simp add: can_execute_cases(2))
qed

definition one_failure_config :: CircuitBreakerConfig where
  "one_failure_config = default_CircuitBreakerConfig\<lparr>failure_threshold := 1\<rparr>"

lemma one_failure_opens:
  "snd (run_all run_op [RecordFailure 7 7 503 False False] (new_CircuitBreaker one_failure_config)) =
     \<lparr>packed = pack_full 1 STATE_OPEN 0, failure_count = 1, success_count = 0,
      last_failure_tick_ms = 7, last_failure_epoch_ms = 7, config = one_failure_config\<rparr>"
  by (simp add: record_failure_cases(2) failure_counts_def new_CircuitBreaker_def
      one_failure_config_def default_CircuitBreakerConfig_def)

theorem open_breaker_admissions_witness:
  "let cb = snd (run_all run_op [RecordFailure 7 7 503 False False]
                   (new_CircuitBreaker one_failure_config)) in
   state_name cb = ''open'' \<and> can_execute 8 cb = (Inl CircuitOpenError, cb) \<and>
   admitted_probes (fst (run_all run_op (map CanExecute [30007, 30008]) cb)) = 1"
proof -
  let ?cb = "snd (run_all run_op [RecordFailure 7 7 503 False False]
                   (new_CircuitBreaker one_failure_config))"
  have name: "state_name ?cb = ''open''"
    unfolding one_failure_opens by (simp add: state_name_def)
  have tick: "last_failure_tick_ms ?cb = 7"
    unfolding one_failure_opens by simp
  have clock: "\<not> timeout_elapsed one_failure_config 8 7" "timeout_elapsed one_failure_config 30007 7"
    and limit: "unat (half_open_limit one_failure_config) = 1"
    by (simp_all add: timeout_elapsed_def saturating_mul_def saturating_sub_def half_open_limit_def
        clamp_def COUNT_MASK_def STATE_SHIFT_def one_failure_config_def
        default_CircuitBreakerConfig_def word_le_nat_alt)
  note adm = open_breaker_admissions [OF refl name]
  show ?thesis
    using adm [of 8 "[]"] adm [of 30007 "[30008]"] name clock limit
    unfolding tick Let_def by (simp del: run_all.simps)
qed

section \<open>Recovery\<close>

text \<open>Requests one after the other, each admitted and then reported as a success.\<close>

definition healthy_probes :: "u64 list \<Rightarrow> breaker_op list" where
  "healthy_probes ts = concat (map (\<lambda>t. [CanExecute t, RecordSuccess True]) ts)"

lemma healthy_probes_simps [simp]:
  "healthy_probes [] = []" "healthy_probes (t # ts) = CanExecute t # RecordSuccess True # healthy_probes ts"
  by (simp_all add: healthy_probes_def)

lemma admitted_probes_None [simp]: "admitted_probes (None # rs) = admitted_probes rs"
  by (simp add: admitted_probes_def)

lemma spec_probe_success:
  assumes "phase s = HalfOpen 1" "successes s < success_threshold cfg"
  shows "spec_success cfg True s =
    (if Suc (unat (successes s)) = unat (success_threshold cfg) then s\<lparr>phase := Closed, failures := 0, successes := 0\<rparr>
     else s\<lparr>phase := HalfOpen 0, successes := successes s + 1\<rparr>)"
proof -
  have "unat (successes s + 1) = Suc (unat (successes s))" using assms(2) by (rule unat_Suc_less)
  then have "success_threshold cfg \<le> successes s + 1 \<longleftrightarrow> Suc (unat (successes s)) = unat (success_threshold cfg)"
    using assms(2) by (auto simp: word_le_nat_alt word_less_nat_alt)
  with assms(1) show ?thesis by (simp add: spec_success_def spec_release_def)
qed

lemma spec_half_open_recovers:
  "phase s = HalfOpen 0 \<Longrightarrow> successes s < success_threshold cfg \<Longrightarrow>
   unat (successes s) + length ts = unat (success_threshold cfg) \<Longrightarrow>
   phase (snd (run_all (spec_op cfg) (healthy_probes ts) s)) = Closed \<and>
   admitted_probes (fst (run_all (spec_op cfg) (healthy_probes ts) s)) = length ts"
proof (induction ts arbitrary: s)
  case Nil
  then show ?case by (simp add: word_less_nat_alt)
next
  case (Cons t ts)
  let ?s = "s\<lparr>phase := HalfOpen 1\<rparr>"
  have "0 < unat (half_open_limit cfg)" using half_open_limit_bounds(1) [of cfg] by simp
  then have admit: "spec_can_execute cfg t s = (Inr True, ?s)"
    using Cons.prems(1) by (simp add: spec_can_execute_def)
  note success = spec_probe_success [of ?s cfg, simplified, OF Cons.prems(2)]
  show ?case
  proof (cases "Suc (unat (successes s)) = unat (success_threshold cfg)")
    case True
    with Cons.prems(3) have "ts = []" by (cases ts) simp_all
    with True admit success show ?thesis by simp
  next
    case False
    have "unat (successes s + 1) = Suc (unat (successes s))" using Cons.prems(2) by (rule unat_Suc_less)
    with False Cons.prems(2,3) have next_s: "successes s + 1 < success_threshold cfg"
      "unat (successes s + 1) + length ts = unat (success_threshold cfg)" by (auto simp: word_less_nat_alt)
    from Cons.IH [of "s\<lparr>phase := HalfOpen 0, successes := successes s + 1\<rparr>"] next_s False admit success
    show ?thesis by (simp add: split_beta)
  qed
qed

lemma spec_open_recovers:
  assumes "phase s = Open" "timeout_elapsed cfg now (failure_tick s)"
    and len: "length (now # later) = max 1 (unat (success_threshold cfg))"
  shows "phase (snd (run_all (spec_op cfg) (healthy_probes (now # later)) s)) = Closed \<and>
         admitted_probes (fst (run_all (spec_op cfg) (healthy_probes (now # later)) s)) = length (now # later)"
proof -
  let ?s = "s\<lparr>phase := HalfOpen 1, successes := 0\<rparr>"
  have admit: "spec_can_execute cfg now s = (Inr True, ?s)"
    using assms(1,2) by (simp add: spec_can_execute_def)
  show ?thesis
  proof (cases "unat (success_threshold cfg) \<le> 1")
    case True
    then have "success_threshold cfg \<le> 1" by (simp add: word_le_nat_alt)
    with True len admit show ?thesis by (simp add: spec_success_def)
  next
    case False
    then have "(0 :: u32) < success_threshold cfg" "(1 :: u32) < success_threshold cfg" by (simp_all add: word_less_nat_alt)
    with False len admit spec_probe_success [of ?s cfg]
      spec_half_open_recovers [of "s\<lparr>phase := HalfOpen 0, successes := 1\<rparr>" cfg later]
    show ?thesis by (simp add: split_beta)
  qed
qed

text \<open>
  C21. An open breaker recovers. From any history that left the breaker open, once the recovery
  timeout has elapsed, requests that succeed one after the other are all admitted as probes, and
  after the success threshold of them the breaker is closed.
\<close>

theorem breaker_recovers:
  assumes "cb = snd (run_all run_op ops (new_CircuitBreaker cfg))" and "state_name cb = ''open''"
    and "timeout_elapsed cfg now (last_failure_tick_ms cb)"
    and "length (now # later) = max 1 (unat (success_threshold cfg))"
  shows "state_name (snd (run_all run_op (healthy_probes (now # later)) cb)) = ''closed'' \<and>
         admitted_probes (fst (run_all run_op (healthy_probes (now # later)) cb)) = length (now # later)"
proof -
  have inv: "breaker_inv cfg cb"
    unfolding assms(1) by (rule breaker.run_inv [OF breaker_inv_new])
  let ?run = "run_all run_op (healthy_probes (now # later)) cb"
  have "phase (abs_breaker cb) = Open"
    using inv assms(2) by (auto simp: breaker_inv_def state_name_def abs_breaker_def codec elim!: wf_breakerE)
  moreover have "failure_tick (abs_breaker cb) = last_failure_tick_ms cb" by (simp add: abs_breaker_def)
  ultimately have spec: "phase (snd (map_prod id abs_breaker ?run)) = Closed"
    "admitted_probes (fst (map_prod id abs_breaker ?run)) = length (now # later)"
    unfolding breaker.run_refines [OF inv] using spec_open_recovers assms(3,4) by auto
  have "breaker_inv cfg (snd ?run)" by (rule breaker.run_inv [OF inv])
  then have "state_name (snd ?run) = ''closed''"
    using spec(1) by (auto simp: breaker_inv_def state_name_def abs_breaker_def codec elim!: wf_breakerE)
  with spec(2) show ?thesis by simp
qed

theorem breaker_recovers_witness:
  "let cb = snd (run_all run_op [RecordFailure 7 7 503 False False] (new_CircuitBreaker one_failure_config)) in
   state_name cb = ''open'' \<and> unat (success_threshold one_failure_config) = 3 \<and>
   state_name (snd (run_all run_op (healthy_probes [30007, 30008, 30009]) cb)) = ''closed''"
proof -
  let ?cb = "snd (run_all run_op [RecordFailure 7 7 503 False False] (new_CircuitBreaker one_failure_config))"
  have name: "state_name ?cb = ''open''" and tick: "last_failure_tick_ms ?cb = 7"
    unfolding one_failure_opens by (simp_all add: state_name_def)
  have clock: "timeout_elapsed one_failure_config 30007 7" and th: "unat (success_threshold one_failure_config) = 3"
    by (simp_all add: timeout_elapsed_def saturating_mul_def saturating_sub_def one_failure_config_def
        default_CircuitBreakerConfig_def word_le_nat_alt)
  show ?thesis
    using breaker_recovers [OF refl name, of 30007 "[30008, 30009]"] name clock th
    unfolding tick Let_def by (simp del: run_all.simps healthy_probes_simps)
qed

end
