(* ===== verification/Interleaving.thy ===== *)
theory Interleaving
  imports Ferrum_Prelude
begin

text \<open>
  Threads over one shared state. A schedule names, step by step, which thread moves and
  what its environment delivers; the contract \<^verbatim>\<open>interleaving\<close> lifts an invariant of single
  steps to every schedule, and \<^verbatim>\<open>token_accounting\<close> the statement that a counter in the shared
  state never exceeds the number of threads that hold a token.
\<close>

definition sys_step ::
  "('e \<Rightarrow> 't \<Rightarrow> 's \<Rightarrow> 't \<times> 's) \<Rightarrow> nat \<times> 'e \<Rightarrow> 's \<times> 't list \<Rightarrow> 's \<times> 't list" where
  "sys_step step ie st =
     (case (ie, st) of ((i, e), (s, ts)) \<Rightarrow>
        if i < length ts then (let (t', s') = step e (ts ! i) s in (s', ts[i := t']))
        else (s, ts))"

primrec run_schedule ::
  "('e \<Rightarrow> 't \<Rightarrow> 's \<Rightarrow> 't \<times> 's) \<Rightarrow> (nat \<times> 'e) list \<Rightarrow> 's \<times> 't list \<Rightarrow> 's \<times> 't list" where
  "run_schedule step [] st = st"
| "run_schedule step (ie # sched) st = run_schedule step sched (sys_step step ie st)"

definition holders :: "('t \<Rightarrow> bool) \<Rightarrow> 't list \<Rightarrow> nat" where
  "holders holds ts = length (filter holds ts)"

lemma run_schedule_append [simp]:
  "run_schedule step (xs @ ys) st = run_schedule step ys (run_schedule step xs st)"
  by (induction xs arbitrary: st) simp_all

lemma sys_step_cases [consumes 1, case_names stay move]:
  assumes "sys_step step (i, e) (s, ts) = (s', ts')"
  obtains (stay) "s' = s" "ts' = ts"
    | (move) t' where "i < length ts" "step e (ts ! i) s = (t', s')" "ts' = ts[i := t']"
proof (cases "i < length ts")
  case True
  moreover obtain t' s'' where "step e (ts ! i) s = (t', s'')" by (metis surj_pair)
  ultimately show thesis using assms move by (simp add: sys_step_def)
qed (use assms stay in \<open>simp add: sys_step_def\<close>)

lemma holders_update:
  assumes "i < length ts"
  shows "holders holds (ts[i := t]) + of_bool (holds (ts ! i)) =
         holders holds ts + of_bool (holds t)"
  using assms
proof (induction ts arbitrary: i)
  case (Cons u us)
  then show ?case by (cases i) (auto simp: holders_def)
qed simp

locale interleaving =
  fixes step :: "'e \<Rightarrow> 't \<Rightarrow> 's \<Rightarrow> 't \<times> 's"
    and sinv :: "'s \<Rightarrow> bool"
    and tinv :: "'s \<Rightarrow> 't \<Rightarrow> bool"
  assumes step_sinv: "sinv s \<Longrightarrow> tinv s t \<Longrightarrow> step e t s = (t', s') \<Longrightarrow> sinv s'"
    and step_tinv: "sinv s \<Longrightarrow> tinv s t \<Longrightarrow> step e t s = (t', s') \<Longrightarrow> tinv s' t'"
    and step_frame: "sinv s \<Longrightarrow> tinv s t \<Longrightarrow> tinv s u \<Longrightarrow> step e t s = (t', s') \<Longrightarrow> tinv s' u"
begin

definition inv :: "'s \<times> 't list \<Rightarrow> bool" where
  "inv st \<longleftrightarrow> sinv (fst st) \<and> (\<forall>t \<in> set (snd st). tinv (fst st) t)"

lemma sys_step_inv: "inv st \<Longrightarrow> inv (sys_step step ie st)"
proof -
  assume inv: "inv st"
  obtain i e s ts where st: "st = (s, ts)" and ie: "ie = (i, e)" by (metis surj_pair)
  obtain s' ts' where eq: "sys_step step (i, e) (s, ts) = (s', ts')" by (metis surj_pair)
  then show "inv (sys_step step ie st)"
  proof (cases rule: sys_step_cases)
    case (move t')
    have s: "sinv s" and t: "\<And>t. t \<in> set ts \<Longrightarrow> tinv s t" using inv by (auto simp: inv_def st)
    note me = t [OF nth_mem [OF move(1)]]
    have "tinv s' u" if "u \<in> set ts'" for u
      using that move(3) set_update_subset_insert [of ts i t'] step_tinv [OF s me move(2)]
        step_frame [OF s me t move(2)] by auto
    with eq st ie step_sinv [OF s me move(2)] show ?thesis by (simp add: inv_def)
  qed (use inv st ie eq in simp)
qed

lemma run_inv: "inv st \<Longrightarrow> inv (run_schedule step sched st)"
  by (induction sched arbitrary: st) (simp_all add: sys_step_inv)

end

locale token_accounting = interleaving step sinv tinv
  for step :: "'e \<Rightarrow> 't \<Rightarrow> 's \<Rightarrow> 't \<times> 's" and sinv :: "'s \<Rightarrow> bool" and tinv :: "'s \<Rightarrow> 't \<Rightarrow> bool" +
  fixes tokens :: "'s \<Rightarrow> nat" and holds :: "'t \<Rightarrow> bool"
  assumes account: "sinv s \<Longrightarrow> tinv s t \<Longrightarrow> step e t s = (t', s') \<Longrightarrow>
    tokens s' = 0 \<or> tokens s' + of_bool (holds t) \<le> tokens s + of_bool (holds t')"
begin

lemma sys_step_account:
  assumes "inv st" and le: "tokens (fst st) \<le> holders holds (snd st)"
  shows "tokens (fst (sys_step step ie st)) \<le> holders holds (snd (sys_step step ie st))"
proof -
  obtain i e s ts where st: "st = (s, ts)" and ie: "ie = (i, e)" by (metis surj_pair)
  obtain s' ts' where eq: "sys_step step (i, e) (s, ts) = (s', ts')" by (metis surj_pair)
  then show ?thesis
  proof (cases rule: sys_step_cases)
    case (move t')
    have "sinv s" "tinv s (ts ! i)" using assms(1) move(1) by (auto simp: inv_def st)
    from account [OF this move(2)] holders_update [OF move(1), of holds t'] le st
    show ?thesis by (auto simp: ie eq move(3))
  qed (use le st ie eq in simp)
qed

lemma run_account:
  "inv st \<Longrightarrow> tokens (fst st) \<le> holders holds (snd st) \<Longrightarrow>
   tokens (fst (run_schedule step sched st)) \<le> holders holds (snd (run_schedule step sched st))"
  by (induction sched arbitrary: st) (simp_all add: sys_step_inv sys_step_account)

end

text \<open>A counter that every step moves exactly as its thread takes or returns a token counts the
  holders, modulo the width of the counter.\<close>

locale exact_accounting =
  fixes step :: "'e \<Rightarrow> 't \<Rightarrow> 's \<Rightarrow> 't \<times> 's" and sinv :: "'s \<Rightarrow> bool" and tinv :: "'t \<Rightarrow> bool"
    and tokens :: "'s \<Rightarrow> 'a::comm_ring_1" and holds :: "'t \<Rightarrow> bool"
  assumes account: "sinv s \<Longrightarrow> tinv t \<Longrightarrow> step e t s = (t', s') \<Longrightarrow>
      tokens s' + of_bool (holds t) = tokens s + of_bool (holds t')"
    and keep_sinv: "sinv s \<Longrightarrow> tinv t \<Longrightarrow> step e t s = (t', s') \<Longrightarrow> sinv s'"
    and keep_tinv: "sinv s \<Longrightarrow> tinv t \<Longrightarrow> step e t s = (t', s') \<Longrightarrow> tinv t'"
begin

definition balanced :: "'a \<Rightarrow> 's \<times> 't list \<Rightarrow> bool" where
  "balanced base st \<longleftrightarrow>
     sinv (fst st) \<and> (\<forall>t \<in> set (snd st). tinv t) \<and> tokens (fst st) = base + of_nat (holders holds (snd st))"

lemma sys_step_exact:
  assumes "balanced base st"
  shows "balanced base (sys_step step ie st)"
proof -
  obtain i e s ts where st: "st = (s, ts)" and ie: "ie = (i, e)" by (metis surj_pair)
  obtain s' ts' where eq: "sys_step step (i, e) (s, ts) = (s', ts')" by (metis surj_pair)
  then show ?thesis
  proof (cases rule: sys_step_cases)
    case (move t')
    have sinv: "sinv s" and tinv: "\<And>t. t \<in> set ts \<Longrightarrow> tinv t" and tok: "tokens s = base + of_nat (holders holds ts)"
      using assms by (auto simp: balanced_def st)
    note me = tinv [OF nth_mem [OF move(1)]]
    have "of_nat (holders holds ts') + of_bool (holds (ts ! i)) = (of_nat (holders holds ts) + of_bool (holds t') :: 'a)"
      unfolding move(3) using arg_cong [OF holders_update [OF move(1), of holds t'], where f = "of_nat :: nat \<Rightarrow> 'a"]
      by (simp add: of_bool_def split: if_splits)
    with account [OF sinv me move(2)] tok have "tokens s' = base + of_nat (holders holds ts')"
      by (metis (no_types) add.assoc add_right_cancel)
    moreover have "tinv t" if "t \<in> set ts'" for t
      using that move(3) set_update_subset_insert [of ts i t'] keep_tinv [OF sinv me move(2)] tinv by auto
    ultimately show ?thesis
      using keep_sinv [OF sinv me move(2)] by (simp add: balanced_def ie st eq)
  qed (use assms st ie eq in simp)
qed

lemma run_exact: "balanced base st \<Longrightarrow> balanced base (run_schedule step sched st)"
  by (induction sched arbitrary: st) (simp_all add: sys_step_exact)

end

end
