(* ===== verification/Circuit_Breaker_Threads.thy ===== *)
theory Circuit_Breaker_Threads
  imports Circuit_Breaker Interleaving
begin

text \<open>
  \<^verbatim>\<open>src/src/circuit_breaker.rs\<close> under interleaving. A request is a thread that reads the open
  epoch, runs \<^verbatim>\<open>can_execute\<close>, and, once admitted, reports one outcome, deferred or not
  (\<^verbatim>\<open>apply_deferred_circuit_breaker_outcome\<close> of \<^verbatim>\<open>src/src/proxy/backend_dispatch.rs\<close>). Each step
  is one access to a shared atomic, and any number of threads interleave in any order; a weak
  compare-exchange may also fail spuriously. The memory model is sequential consistency for
  the individual atomics.

  The lemmas show that the packed word stays well formed under every schedule, that each
  step is a stutter or one transition of the three-state machine, that no probe slot leaks,
  and that a thread running alone computes exactly the operations of \<^verbatim>\<open>Circuit_Breaker\<close>.
\<close>

section \<open>Threads and steps\<close>

datatype report = Report_Success | Report_Failure u16 bool | Report_Neutral

record event =
  clock :: u64
  wall :: u64
  spurious :: bool
  deferred :: bool
  outcome :: report

text \<open>What follows a slot release: the rest of the arm that called it.\<close>

datatype cont = Then_Done | Then_Half_Open_Success | Then_Closed_Success | Then_Closed_Failure

datatype pc =
    Arrive
  | CE_Load | CE_Tick u64 | CE_Cas u64 | CE_Store
  | TA_Load | TA_Cas u64
  | Admitted | Stale_Check report
  | RL_Load cont | RL_Cas u64 cont
  | RS_Load | RS_Recheck | RS_Add | RS_Close_Load | RS_Close_Cas u64
  | RS_Clear_Failures | RS_Clear_Successes | RS_Closed_Load | RS_Closed_Store
  | RF_Load | RF_Store_Tick bool u64 u64 | RF_Store_Epoch bool u64
  | RF_Add | RF_Recheck | RF_Load_Generation | RF_Open_Cas u32 | RF_Recount u32 | RF_Rollback u32
  | RF_Clear_Successes | RF_Reopen_Load | RF_Reopen_Cas u64
  | Finished | Rejected

record thread =
  pc :: pc
  admission_epoch :: u64
  is_probe :: bool

abbreviation goto :: "pc \<Rightarrow> thread \<Rightarrow> thread" where
  "goto l t \<equiv> t\<lparr>pc := l\<rparr>"

abbreviation admit :: "bool \<Rightarrow> thread \<Rightarrow> thread" where
  "admit probe t \<equiv> t\<lparr>pc := Admitted, is_probe := probe\<rparr>"

definition new_thread :: thread where
  "new_thread = \<lparr>pc = Arrive, admission_epoch = 0, is_probe = False\<rparr>"

fun continue_at :: "cont \<Rightarrow> pc" where
  "continue_at Then_Done = Finished"
| "continue_at Then_Half_Open_Success = RS_Recheck"
| "continue_at Then_Closed_Success = RS_Closed_Load"
| "continue_at Then_Closed_Failure = RF_Add"

text \<open>\<open>fetch_update\<close> re-evaluates its closure on every value it observes.\<close>

definition release_retry :: "u64 \<Rightarrow> cont \<Rightarrow> pc" where
  "release_retry p k = (if packed_count p = 0 then continue_at k else RL_Cas p k)"

definition release_then :: "bool \<Rightarrow> cont \<Rightarrow> pc" where
  "release_then probe k = (if probe then RL_Load k else continue_at k)"

fun enter_report :: "CircuitBreakerConfig \<Rightarrow> bool \<Rightarrow> report \<Rightarrow> pc" where
  "enter_report cfg probe Report_Success = RS_Load"
| "enter_report cfg probe Report_Neutral = release_then probe Then_Done"
| "enter_report cfg probe (Report_Failure status connection_error) =
     (if failure_counts cfg status connection_error then RF_Load else release_then probe Then_Done)"

definition can_execute_step :: "event \<Rightarrow> thread \<Rightarrow> CircuitBreaker \<Rightarrow> thread \<times> CircuitBreaker" where
  "can_execute_step e t cb =
     (let p = packed cb; s = packed_state p in
      case pc t of
        Arrive \<Rightarrow> (t\<lparr>pc := CE_Load, admission_epoch := open_epoch cb\<rparr>, cb)
      | CE_Load \<Rightarrow>
          (if s = STATE_CLOSED then admit False t
           else if s = STATE_OPEN then goto (CE_Tick p) t
           else if s = STATE_HALF_OPEN then goto TA_Load t
           else admit False t, cb)
      | CE_Tick q \<Rightarrow>
          (if timeout_elapsed (config cb) (clock e) (last_failure_tick_ms cb)
           then goto (CE_Cas q) t else goto Rejected t, cb)
      | CE_Cas q \<Rightarrow>
          (let g = packed_generation q;
               (p', won) = compare_exchange p (pack_full g STATE_OPEN 0) (pack_full g STATE_HALF_OPEN 1)
           in if won then (t\<lparr>pc := CE_Store, is_probe := True\<rparr>, cb\<lparr>packed := p'\<rparr>)
              else if packed_state p' = STATE_HALF_OPEN then (goto TA_Load t, cb)
              else if packed_state p' = STATE_CLOSED then (admit False t, cb)
              else (goto Rejected t, cb))
      | CE_Store \<Rightarrow> (goto Admitted t, cb\<lparr>success_count := 0\<rparr>)
      | TA_Load \<Rightarrow>
          (if s = STATE_HALF_OPEN then
             (if half_open_limit (config cb) \<le> packed_count p then goto Rejected t
              else goto (TA_Cas p) t)
           else if s = STATE_OPEN then goto Rejected t
           else admit False t, cb)
      | TA_Cas q \<Rightarrow>
          (let (p', won) = compare_exchange_weak (spurious e) p q
                 (pack_full (packed_generation q) STATE_HALF_OPEN (packed_count q + 1))
           in if won then (admit True t, cb\<lparr>packed := p'\<rparr>) else (goto TA_Load t, cb))
      | _ \<Rightarrow> (t, cb))"

definition release_step :: "event \<Rightarrow> thread \<Rightarrow> CircuitBreaker \<Rightarrow> thread \<times> CircuitBreaker" where
  "release_step e t cb =
     (case pc t of
        RL_Load k \<Rightarrow> (goto (release_retry (packed cb) k) t, cb)
      | RL_Cas q k \<Rightarrow>
          (let (p', won) = compare_exchange_weak (spurious e) (packed cb) q
                 (pack_full (packed_generation q) (packed_state q) (packed_count q - 1))
           in if won then (goto (continue_at k) t, cb\<lparr>packed := p'\<rparr>)
              else (goto (release_retry p' k) t, cb))
      | _ \<Rightarrow> (t, cb))"

definition success_step :: "event \<Rightarrow> thread \<Rightarrow> CircuitBreaker \<Rightarrow> thread \<times> CircuitBreaker" where
  "success_step e t cb =
     (let p = packed cb; s = packed_state p in
      case pc t of
        RS_Load \<Rightarrow>
          (if s = STATE_HALF_OPEN then goto (release_then (is_probe t) Then_Half_Open_Success) t
           else if s = STATE_OPEN \<and> is_probe t then goto (RL_Load Then_Done) t
           else if s = STATE_CLOSED then goto (release_then (is_probe t) Then_Closed_Success) t
           else goto Finished t, cb)
      | RS_Recheck \<Rightarrow> (if s \<noteq> STATE_HALF_OPEN then goto Finished t else goto RS_Add t, cb)
      | RS_Add \<Rightarrow>
          (let successes = success_count cb + 1 in
           (if success_threshold (config cb) \<le> successes then goto RS_Close_Load t
            else goto Finished t, cb\<lparr>success_count := successes\<rparr>))
      | RS_Close_Load \<Rightarrow>
          (if s \<noteq> STATE_HALF_OPEN then goto Finished t else goto (RS_Close_Cas p) t, cb)
      | RS_Close_Cas q \<Rightarrow>
          (let (p', won) = compare_exchange_weak (spurious e) p q
                 (pack_full (packed_generation q) STATE_CLOSED 0)
           in if won then (goto RS_Clear_Failures t, cb\<lparr>packed := p'\<rparr>)
              else (goto RS_Close_Load t, cb))
      | RS_Clear_Failures \<Rightarrow> (goto RS_Clear_Successes t, cb\<lparr>failure_count := 0\<rparr>)
      | RS_Clear_Successes \<Rightarrow> (goto Finished t, cb\<lparr>success_count := 0\<rparr>)
      | RS_Closed_Load \<Rightarrow>
          (if 0 < failure_count cb then goto RS_Closed_Store t else goto Finished t, cb)
      | RS_Closed_Store \<Rightarrow> (goto Finished t, cb\<lparr>failure_count := 0\<rparr>)
      | _ \<Rightarrow> (t, cb))"

definition failure_step :: "event \<Rightarrow> thread \<Rightarrow> CircuitBreaker \<Rightarrow> thread \<times> CircuitBreaker" where
  "failure_step e t cb =
     (let p = packed cb; s = packed_state p; threshold = failure_threshold (config cb) in
      case pc t of
        RF_Load \<Rightarrow>
          (if s = STATE_CLOSED then goto (RF_Store_Tick True (clock e) (wall e)) t
           else if s = STATE_HALF_OPEN then goto (RF_Store_Tick False (clock e) (wall e)) t
           else if s = STATE_OPEN \<and> is_probe t then goto (RL_Load Then_Done) t
           else goto Finished t, cb)
      | RF_Store_Tick closed tick epoch \<Rightarrow>
          (goto (RF_Store_Epoch closed epoch) t, cb\<lparr>last_failure_tick_ms := tick\<rparr>)
      | RF_Store_Epoch closed epoch \<Rightarrow>
          (goto (if closed then release_then (is_probe t) Then_Closed_Failure
                 else RF_Clear_Successes) t,
           cb\<lparr>last_failure_epoch_ms := epoch\<rparr>)
      | RF_Add \<Rightarrow>
          (let failures = failure_count cb + 1 in
           (if threshold \<le> failures then goto RF_Recheck t else goto Finished t,
            cb\<lparr>failure_count := failures\<rparr>))
      | RF_Recheck \<Rightarrow>
          (if failure_count cb < threshold then goto Finished t else goto RF_Load_Generation t, cb)
      | RF_Load_Generation \<Rightarrow> (goto (RF_Open_Cas (packed_generation p)) t, cb)
      | RF_Open_Cas g \<Rightarrow>
          (let (p', won) = compare_exchange p (pack_full g STATE_CLOSED 0)
                 (pack_full (g + 1) STATE_OPEN 0)
           in if won then (goto (RF_Recount g) t, cb\<lparr>packed := p'\<rparr>) else (goto Finished t, cb))
      | RF_Recount g \<Rightarrow>
          (if failure_count cb < threshold then goto (RF_Rollback g) t else goto Finished t, cb)
      | RF_Rollback g \<Rightarrow>
          (goto Finished t,
           cb\<lparr>packed := fst (compare_exchange p (pack_full (g + 1) STATE_OPEN 0)
                               (pack_full (g + 1) STATE_CLOSED 0))\<rparr>)
      | RF_Clear_Successes \<Rightarrow> (goto RF_Reopen_Load t, cb\<lparr>success_count := 0\<rparr>)
      | RF_Reopen_Load \<Rightarrow>
          (if s = STATE_OPEN then goto Finished t else goto (RF_Reopen_Cas p) t, cb)
      | RF_Reopen_Cas q \<Rightarrow>
          (let (p', won) = compare_exchange_weak (spurious e) p q
                 (pack_full (packed_generation q + 1) STATE_OPEN 0)
           in if won then (goto Finished t, cb\<lparr>packed := p'\<rparr>) else (goto RF_Reopen_Load t, cb))
      | _ \<Rightarrow> (t, cb))"

text \<open>The outcome is known when the request completes: the event of that step carries it.\<close>

definition thread_step :: "event \<Rightarrow> thread \<Rightarrow> CircuitBreaker \<Rightarrow> thread \<times> CircuitBreaker" where
  "thread_step e t cb =
     (case pc t of
        Admitted \<Rightarrow>
          (if deferred e then goto (Stale_Check (outcome e)) t
           else goto (enter_report (config cb) (is_probe t) (outcome e)) t, cb)
      | Stale_Check r \<Rightarrow>
          (if open_epoch cb \<noteq> admission_epoch t then goto (release_then (is_probe t) Then_Done) t
           else goto (enter_report (config cb) (is_probe t) r) t, cb)
      | RL_Load _ \<Rightarrow> release_step e t cb
      | RL_Cas _ _ \<Rightarrow> release_step e t cb
      | RS_Load \<Rightarrow> success_step e t cb
      | RS_Recheck \<Rightarrow> success_step e t cb
      | RS_Add \<Rightarrow> success_step e t cb
      | RS_Close_Load \<Rightarrow> success_step e t cb
      | RS_Close_Cas _ \<Rightarrow> success_step e t cb
      | RS_Clear_Failures \<Rightarrow> success_step e t cb
      | RS_Clear_Successes \<Rightarrow> success_step e t cb
      | RS_Closed_Load \<Rightarrow> success_step e t cb
      | RS_Closed_Store \<Rightarrow> success_step e t cb
      | RF_Load \<Rightarrow> failure_step e t cb
      | RF_Store_Tick _ _ _ \<Rightarrow> failure_step e t cb
      | RF_Store_Epoch _ _ \<Rightarrow> failure_step e t cb
      | RF_Add \<Rightarrow> failure_step e t cb
      | RF_Recheck \<Rightarrow> failure_step e t cb
      | RF_Load_Generation \<Rightarrow> failure_step e t cb
      | RF_Open_Cas _ \<Rightarrow> failure_step e t cb
      | RF_Recount _ \<Rightarrow> failure_step e t cb
      | RF_Rollback _ \<Rightarrow> failure_step e t cb
      | RF_Clear_Successes \<Rightarrow> failure_step e t cb
      | RF_Reopen_Load \<Rightarrow> failure_step e t cb
      | RF_Reopen_Cas _ \<Rightarrow> failure_step e t cb
      | _ \<Rightarrow> can_execute_step e t cb)"

lemmas cas = compare_exchange_weak_def compare_exchange_def Let_def

lemmas step_defs = thread_step_def can_execute_step_def release_step_def success_step_def
  failure_step_def

section \<open>The transitions of the packed word\<close>

datatype transition_label = Trip | Roll_Back | Half_Open | Admit_Probe | Release | Close | Reopen

text \<open>
  The transitions of the three-state machine with the open generation. The generation
  advances exactly on entering \<open>Open\<close>.
\<close>

inductive transition ::
  "nat \<Rightarrow> transition_label \<Rightarrow> u32 \<times> phase \<Rightarrow> u32 \<times> phase \<Rightarrow> bool" for limit :: nat where
  Trip: "transition limit Trip (g, Closed) (g + 1, Open)"
| Roll_Back: "transition limit Roll_Back (g, Open) (g, Closed)"
| Half_Open: "transition limit Half_Open (g, Open) (g, HalfOpen 1)"
| Admit_Probe: "n < limit \<Longrightarrow> transition limit Admit_Probe (g, HalfOpen n) (g, HalfOpen (n + 1))"
| Release: "transition limit Release (g, HalfOpen (n + 1)) (g, HalfOpen n)"
| Close: "transition limit Close (g, HalfOpen n) (g, Closed)"
| Reopen: "ph \<noteq> Open \<Longrightarrow> transition limit Reopen (g, ph) (g + 1, Open)"

inductive_simps transition_simps [simp]:
  "transition limit Trip x y" "transition limit Roll_Back x y" "transition limit Half_Open x y"
  "transition limit Admit_Probe x y" "transition limit Release x y" "transition limit Close x y"
  "transition limit Reopen x y"

text \<open>A thread owns a probe slot from the admitting exchange until its release is settled.\<close>

fun owning :: "pc \<Rightarrow> bool" where
  "owning CE_Store \<longleftrightarrow> True"
| "owning Admitted \<longleftrightarrow> True"
| "owning (Stale_Check _) \<longleftrightarrow> True"
| "owning (RL_Load _) \<longleftrightarrow> True"
| "owning (RL_Cas _ _) \<longleftrightarrow> True"
| "owning RS_Load \<longleftrightarrow> True"
| "owning RF_Load \<longleftrightarrow> True"
| "owning (RF_Store_Tick _ _ _) \<longleftrightarrow> True"
| "owning (RF_Store_Epoch _ _) \<longleftrightarrow> True"
| "owning RF_Clear_Successes \<longleftrightarrow> True"
| "owning RF_Reopen_Load \<longleftrightarrow> True"
| "owning (RF_Reopen_Cas _) \<longleftrightarrow> True"
| "owning _ \<longleftrightarrow> False"

definition holds_slot :: "thread \<Rightarrow> bool" where
  "holds_slot t \<longleftrightarrow> is_probe t \<and> owning (pc t)"

text \<open>What a thread knows about the words it has loaded.\<close>

fun pc_inv :: "CircuitBreakerConfig \<Rightarrow> bool \<Rightarrow> pc \<Rightarrow> bool" where
  "pc_inv cfg probe (CE_Tick p) \<longleftrightarrow> packed_state p = STATE_OPEN"
| "pc_inv cfg probe (CE_Cas p) \<longleftrightarrow> packed_state p = STATE_OPEN"
| "pc_inv cfg probe CE_Store \<longleftrightarrow> probe"
| "pc_inv cfg probe (TA_Cas p) \<longleftrightarrow>
     packed_state p = STATE_HALF_OPEN \<and> packed_count p < half_open_limit cfg"
| "pc_inv cfg probe (RL_Load k) \<longleftrightarrow> probe"
| "pc_inv cfg probe (RL_Cas p k) \<longleftrightarrow> probe \<and> packed_count p \<noteq> 0"
| "pc_inv cfg probe (RS_Close_Cas p) \<longleftrightarrow> packed_state p = STATE_HALF_OPEN"
| "pc_inv cfg probe (RF_Reopen_Cas p) \<longleftrightarrow> packed_state p \<noteq> STATE_OPEN"
| "pc_inv cfg probe _ \<longleftrightarrow> True"

definition thread_inv :: "CircuitBreakerConfig \<Rightarrow> thread \<Rightarrow> bool" where
  "thread_inv cfg t \<longleftrightarrow> pc_inv cfg (is_probe t) (pc t)"

lemma pc_inv_continue [simp]: "pc_inv cfg probe (continue_at k)" "\<not> owning (continue_at k)"
  by (cases k; simp)+

lemma pc_inv_release_retry [simp]: "pc_inv cfg True (release_retry p k)"
  by (simp add: release_retry_def)

lemma pc_inv_release_then [simp]: "pc_inv cfg probe (release_then probe k)"
  by (simp add: release_then_def)

lemma pc_inv_enter [simp]: "pc_inv cfg probe (enter_report cfg probe r)"
  by (cases r) simp_all

lemma owning_release [simp]:
  "owning (release_then True k)" "owning (release_retry p k) \<longleftrightarrow> packed_count p \<noteq> 0"
  "owning (enter_report cfg True r)"
  by (simp_all add: release_then_def release_retry_def) (cases r; simp add: release_then_def)

text \<open>The words a well-formed breaker can hold, and what each exchange does to them.\<close>

lemma view_pack [simp]:
  "view (pack_full g STATE_CLOSED 0) = (g, Closed)"
  "view (pack_full g STATE_OPEN 0) = (g, Open)"
  "c \<le> COUNT_MASK \<Longrightarrow> view (pack_full g STATE_HALF_OPEN c) = (g, HalfOpen (unat c))"
  by (simp_all add: view_def codec)

lemma packed_count_0 [simp]: "packed_count (pack_full g s 0) = 0"
  by (simp add: codec)

lemma breaker_inv_packed:
  "breaker_inv cfg cb \<longleftrightarrow> config cb = cfg \<and> wf_packed (unat (half_open_limit cfg)) (packed cb)"
  by (auto simp: breaker_inv_def wf_breaker_def)

lemma wf_state:
  assumes "wf_packed limit p" and "limit \<le> max_count"
  shows "packed_state p = STATE_HALF_OPEN \<Longrightarrow> packed_count p = c \<Longrightarrow>
           p = pack_full (packed_generation p) STATE_HALF_OPEN c \<and> c \<le> COUNT_MASK \<and> unat c \<le> limit"
    and "packed_state p \<noteq> STATE_HALF_OPEN \<Longrightarrow> packed_count p = 0"
    and "packed_state p = STATE_CLOSED \<Longrightarrow> view p = (packed_generation p, Closed)"
    and "packed_state p = STATE_OPEN \<Longrightarrow> view p = (packed_generation p, Open)"
    and "packed_state p = STATE_HALF_OPEN \<Longrightarrow>
           view p = (packed_generation p, HalfOpen (unat (packed_count p)))"
    and "packed_state p = STATE_CLOSED \<or> packed_state p = STATE_OPEN \<or> packed_state p = STATE_HALF_OPEN"
  using assms
  by (cases rule: wf_packedE; auto simp: word_le_nat_alt unat_COUNT_MASK)+

inductive step_effect :: "nat \<Rightarrow> u64 \<Rightarrow> thread \<Rightarrow> u64 \<Rightarrow> thread \<Rightarrow> bool" for limit :: nat where
  quiet: "(holds_slot t \<Longrightarrow> holds_slot t' \<or> packed_count p = 0) \<Longrightarrow>
    (holds_slot t' \<Longrightarrow> holds_slot t) \<Longrightarrow> step_effect limit p t p t'"
| acquire: "transition limit l (view p) (view p') \<Longrightarrow> l = Half_Open \<or> l = Admit_Probe \<Longrightarrow>
    unat (packed_count p') = Suc (unat (packed_count p)) \<Longrightarrow>
    \<not> holds_slot t \<Longrightarrow> holds_slot t' \<Longrightarrow> step_effect limit p t p' t'"
| release: "transition limit Release (view p) (view p') \<Longrightarrow>
    Suc (unat (packed_count p')) = unat (packed_count p) \<Longrightarrow>
    holds_slot t \<Longrightarrow> \<not> holds_slot t' \<Longrightarrow> step_effect limit p t p' t'"
| reset: "transition limit l (view p) (view p') \<Longrightarrow> packed_count p' = 0 \<Longrightarrow> \<not> holds_slot t' \<Longrightarrow>
    step_effect limit p t p' t'"

lemma can_execute_step_effect:
  assumes step: "can_execute_step e t cb = (t', cb')"
    and inv: "breaker_inv cfg cb" and tinv: "thread_inv cfg t"
  shows "step_effect (unat (half_open_limit cfg)) (packed cb) t (packed cb') t' \<and>
         breaker_inv cfg cb' \<and> thread_inv cfg t'"
proof -
  have cfg: "config cb = cfg" and wf: "wf_packed (unat (half_open_limit cfg)) (packed cb)"
    using inv by (simp_all add: breaker_inv_packed)
  note lim = half_open_limit_bounds [of cfg]
  show ?thesis
  proof (cases "pc t")
    case (CE_Cas q)
    show ?thesis
    proof (cases "packed cb = pack_full (packed_generation q) STATE_OPEN 0")
      case True
      with step CE_Cas have "t' = t\<lparr>pc := CE_Store, is_probe := True\<rparr>"
        "cb' = cb\<lparr>packed := pack_full (packed_generation q) STATE_HALF_OPEN 1\<rparr>"
        by (simp_all add: can_execute_step_def cas)
      with True CE_Cas cfg lim show ?thesis
        by (auto intro!: step_effect.acquire [of _ Half_Open]
            simp: breaker_inv_packed thread_inv_def holds_slot_def one_le_COUNT_MASK codec)
    next
      case False
      with step CE_Cas inv show ?thesis
        by (auto intro!: step_effect.quiet
            simp: can_execute_step_def cas thread_inv_def
            holds_slot_def split: if_splits)
    qed
  next
    case (TA_Cas q)
    show ?thesis
    proof (cases "packed cb = q \<and> \<not> spurious e")
      case True
      define c where "c = packed_count q"
      have c: "q = pack_full (packed_generation q) STATE_HALF_OPEN c" "c \<le> COUNT_MASK"
        "c < half_open_limit cfg"
        using wf_state(1) [OF wf lim(2)] tinv TA_Cas True by (auto simp: thread_inv_def c_def)
      have "t' = admit True t"
        "cb' = cb\<lparr>packed := pack_full (packed_generation q) STATE_HALF_OPEN (c + 1)\<rparr>"
        using step TA_Cas True
        by (simp_all add: can_execute_step_def cas c_def)
      moreover have "view q = (packed_generation q, HalfOpen (unat c))"
        using c(1,2) view_pack(3) by metis
      ultimately show ?thesis
        using True cfg c(3) TA_Cas count_Suc_le [OF c(3)] c_def
        by (auto intro!: step_effect.acquire [of _ Admit_Probe]
            simp: breaker_inv_packed thread_inv_def holds_slot_def codec word_less_nat_alt)
    next
      case False
      with step TA_Cas inv show ?thesis
        by (auto intro!: step_effect.quiet simp: can_execute_step_def cas thread_inv_def holds_slot_def split: if_splits)
    qed
  qed (use step inv tinv in \<open>auto intro!: step_effect.quiet simp: can_execute_step_def Let_def
        breaker_inv_packed thread_inv_def holds_slot_def split: if_splits\<close>)
qed

lemma release_step_effect:
  assumes step: "release_step e t cb = (t', cb')"
    and inv: "breaker_inv cfg cb" and tinv: "thread_inv cfg t"
  shows "step_effect (unat (half_open_limit cfg)) (packed cb) t (packed cb') t' \<and>
         breaker_inv cfg cb' \<and> thread_inv cfg t'"
proof -
  have cfg: "config cb = cfg" and wf: "wf_packed (unat (half_open_limit cfg)) (packed cb)"
    using inv by (simp_all add: breaker_inv_packed)
  note lim = half_open_limit_bounds [of cfg]
  show ?thesis
  proof (cases "pc t")
    case (RL_Cas q k)
    show ?thesis
    proof (cases "packed cb = q \<and> \<not> spurious e")
      case True
      define c where "c = packed_count q"
      have nz: "c \<noteq> 0" using tinv RL_Cas by (simp add: thread_inv_def c_def)
      then have half: "packed_state q = STATE_HALF_OPEN"
        using wf_state(2) [OF wf lim(2)] True by (auto simp: c_def)
      have c: "q = pack_full (packed_generation q) STATE_HALF_OPEN c" "c \<le> COUNT_MASK"
        "unat c \<le> unat (half_open_limit cfg)"
        using wf_state(1) [OF wf lim(2)] half True by (auto simp: c_def)
      have step': "t' = goto (continue_at k) t"
        "cb' = cb\<lparr>packed := pack_full (packed_generation q) STATE_HALF_OPEN (c - 1)\<rparr>"
        using step RL_Cas True half
        by (simp_all add: release_step_def cas c_def)
      have "view q = (packed_generation q, HalfOpen (unat c))"
        using c(1,2) view_pack(3) by metis
      moreover have "Suc (unat (c - 1)) = unat c"
        using count_pred_le(2) [OF nz c(2)] nz by (simp add: unat_eq_0 [symmetric] del: unat_eq_0)
      ultimately show ?thesis
        using True cfg c(3) RL_Cas count_pred_le [OF nz c(2)] c_def tinv
        by (auto intro!: step_effect.release
            simp: step' breaker_inv_packed thread_inv_def holds_slot_def codec)
    next
      case False
      with step RL_Cas inv tinv show ?thesis
        by (auto intro!: step_effect.quiet simp: release_step_def cas thread_inv_def holds_slot_def split: if_splits)
    qed
  qed (use step inv tinv in \<open>auto intro!: step_effect.quiet simp: release_step_def
        breaker_inv_packed thread_inv_def holds_slot_def\<close>)
qed

lemma reset_effect:
  assumes "transition limit l (view p) (view p')" "packed_count p' = 0" "wf_packed limit p'"
    and "breaker_inv cfg cb" "limit = unat (half_open_limit cfg)" "thread_inv cfg t'"
    and "\<not> owning (pc t')"
  shows "step_effect limit p t p' t' \<and> breaker_inv cfg (cb\<lparr>packed := p'\<rparr>) \<and> thread_inv cfg t'"
  using assms by (auto intro: step_effect.reset simp: breaker_inv_packed holds_slot_def)

lemma success_step_effect:
  assumes step: "success_step e t cb = (t', cb')"
    and inv: "breaker_inv cfg cb" and tinv: "thread_inv cfg t"
  shows "step_effect (unat (half_open_limit cfg)) (packed cb) t (packed cb') t' \<and>
         breaker_inv cfg cb' \<and> thread_inv cfg t'"
proof -
  have wf: "wf_packed (unat (half_open_limit cfg)) (packed cb)"
    using inv by (simp add: breaker_inv_packed)
  note lim = half_open_limit_bounds [of cfg]
  show ?thesis
  proof (cases "pc t")
    case RS_Load
    with step inv tinv wf_state(2,6) [OF wf lim(2)] show ?thesis
      by (cases "is_probe t") (auto intro!: step_effect.quiet
          simp: success_step_def Let_def thread_inv_def holds_slot_def release_then_def split: if_splits)
  next
    case (RS_Close_Cas q)
    show ?thesis
    proof (cases "packed cb = q \<and> \<not> spurious e")
      case True
      then have step': "t' = goto RS_Clear_Failures t"
        "cb' = cb\<lparr>packed := pack_full (packed_generation q) STATE_CLOSED 0\<rparr>"
        using step RS_Close_Cas
        by (simp_all add: success_step_def cas)
      have "transition (unat (half_open_limit cfg)) Close (view (packed cb))
              (view (pack_full (packed_generation q) STATE_CLOSED 0))"
        using wf_state(5) [OF wf lim(2)] tinv True RS_Close_Cas by (simp add: thread_inv_def)
      then show ?thesis
        using reset_effect [of _ Close "packed cb" "packed cb'" cfg cb t' t] inv
        by (simp add: step' thread_inv_def)
    next
      case False
      with step RS_Close_Cas inv tinv show ?thesis
        by (auto intro!: step_effect.quiet simp: success_step_def cas thread_inv_def holds_slot_def split: if_splits)
    qed
  qed (use step inv tinv in \<open>auto intro!: step_effect.quiet simp: success_step_def Let_def
        breaker_inv_packed thread_inv_def holds_slot_def split: if_splits\<close>)
qed

lemma failure_step_effect:
  assumes step: "failure_step e t cb = (t', cb')"
    and inv: "breaker_inv cfg cb" and tinv: "thread_inv cfg t"
  shows "step_effect (unat (half_open_limit cfg)) (packed cb) t (packed cb') t' \<and>
         breaker_inv cfg cb' \<and> thread_inv cfg t'"
proof -
  have wf: "wf_packed (unat (half_open_limit cfg)) (packed cb)"
    using inv by (simp add: breaker_inv_packed)
  note lim = half_open_limit_bounds [of cfg]
  note reset = reset_effect [of "unat (half_open_limit cfg)" _ "packed cb" "packed cb'" cfg cb t' t]
  show ?thesis
  proof (cases "pc t")
    case (RF_Open_Cas g)
    show ?thesis
    proof (cases "packed cb = pack_full g STATE_CLOSED 0")
      case True
      with step RF_Open_Cas inv show ?thesis
        using reset [of Trip] by (auto simp: failure_step_def cas thread_inv_def)
    qed (use step RF_Open_Cas inv in \<open>auto intro!: step_effect.quiet
        simp: failure_step_def cas Let_def thread_inv_def holds_slot_def\<close>)
  next
    case (RF_Rollback g)
    show ?thesis
    proof (cases "packed cb = pack_full (g + 1) STATE_OPEN 0")
      case True
      with step RF_Rollback inv show ?thesis
        using reset [of Roll_Back] by (auto simp: failure_step_def cas thread_inv_def)
    qed (use step RF_Rollback inv in \<open>auto intro!: step_effect.quiet
        simp: failure_step_def cas Let_def thread_inv_def holds_slot_def breaker_inv_packed\<close>)
  next
    case (RF_Reopen_Cas q)
    show ?thesis
    proof (cases "packed cb = q \<and> \<not> spurious e")
      case True
      have "transition (unat (half_open_limit cfg)) Reopen (view (packed cb))
              (view (pack_full (packed_generation q + 1) STATE_OPEN 0))"
        using wf_state(3,5,6) [OF wf lim(2)] tinv True RF_Reopen_Cas by (auto simp: thread_inv_def)
      with True step RF_Reopen_Cas inv show ?thesis
        using reset [of Reopen] by (auto simp: failure_step_def cas thread_inv_def)
    qed (use step RF_Reopen_Cas inv in \<open>auto intro!: step_effect.quiet
        simp: failure_step_def cas Let_def thread_inv_def holds_slot_def split: if_splits\<close>)
  next
    case RF_Load
    with step inv wf_state(2,6) [OF wf lim(2)] show ?thesis
      by (auto intro!: step_effect.quiet
          simp: failure_step_def Let_def thread_inv_def holds_slot_def split: if_splits)
  next
    case RF_Reopen_Load
    with step inv wf_state(2) [OF wf lim(2)] show ?thesis
      by (auto intro!: step_effect.quiet
          simp: failure_step_def Let_def thread_inv_def holds_slot_def split: if_splits)
  next
    case (RF_Store_Epoch closed epoch)
    with step inv tinv show ?thesis
      by (cases "is_probe t") (auto intro!: step_effect.quiet simp: failure_step_def Let_def
          breaker_inv_packed thread_inv_def holds_slot_def release_then_def split: if_splits)
  qed (use step inv tinv in \<open>auto intro!: step_effect.quiet simp: failure_step_def Let_def
        breaker_inv_packed thread_inv_def holds_slot_def split: if_splits\<close>)
qed

lemma thread_step_effect:
  assumes step: "thread_step e t cb = (t', cb')"
    and inv: "breaker_inv cfg cb" and tinv: "thread_inv cfg t"
  shows "step_effect (unat (half_open_limit cfg)) (packed cb) t (packed cb') t' \<and>
         breaker_inv cfg cb' \<and> thread_inv cfg t'"
proof (cases "pc t = Admitted \<or> (\<exists>r. pc t = Stale_Check r)")
  case True
  have "config cb = cfg" using inv by (simp add: breaker_inv_def)
  with True step inv show ?thesis
    by (cases "is_probe t") (auto intro!: step_effect.quiet
        simp: thread_step_def thread_inv_def holds_slot_def split: if_splits)
next
  case False
  then consider "thread_step e t cb = can_execute_step e t cb"
    | "thread_step e t cb = release_step e t cb"
    | "thread_step e t cb = success_step e t cb"
    | "thread_step e t cb = failure_step e t cb"
    by (cases "pc t") (simp_all add: thread_step_def)
  then show ?thesis
    by cases (use step can_execute_step_effect [OF _ inv tinv] release_step_effect [OF _ inv tinv]
      success_step_effect [OF _ inv tinv] failure_step_effect [OF _ inv tinv] in metis)+
qed

lemma step_effect_account:
  assumes "step_effect limit p t p' t'"
  shows "unat (packed_count p') = 0 \<or>
    unat (packed_count p') + of_bool (holds_slot t) \<le> unat (packed_count p) + of_bool (holds_slot t')"
  using assms by cases auto

interpretation threads: token_accounting thread_step "breaker_inv cfg" "\<lambda>_. thread_inv cfg"
    "\<lambda>cb. unat (packed_count (packed cb))" holds_slot
  for cfg
proof unfold_locales
  fix s t e t' s' u
  assume prems: "breaker_inv cfg s" "thread_inv cfg t" "thread_step e t s = (t', s')"
  note eff = thread_step_effect [OF prems(3,1,2)]
  from eff show "breaker_inv cfg s'" "thread_inv cfg t'" by blast+
  show "unat (packed_count (packed s')) = 0 \<or>
      unat (packed_count (packed s')) + of_bool (holds_slot t)
        \<le> unat (packed_count (packed s)) + of_bool (holds_slot t')"
    using eff step_effect_account by blast
qed

section \<open>Every schedule\<close>

definition initial :: "CircuitBreakerConfig \<Rightarrow> nat \<Rightarrow> CircuitBreaker \<times> thread list" where
  "initial cfg n = (new_CircuitBreaker cfg, replicate n new_thread)"

abbreviation run :: "CircuitBreakerConfig \<Rightarrow> nat \<Rightarrow> (nat \<times> event) list \<Rightarrow> CircuitBreaker \<times> thread list"
  where "run cfg n sched \<equiv> run_schedule thread_step sched (initial cfg n)"

lemma initial_inv: "threads.inv cfg (initial cfg n)"
  by (simp add: threads.inv_def initial_def breaker_inv_new thread_inv_def new_thread_def)

lemma reachable_inv: "threads.inv cfg (run cfg n sched)"
  by (rule threads.run_inv [OF initial_inv])

lemma reachable_step:
  assumes "sys_step thread_step (i, e) (run cfg n sched) = (cb', ts')"
    and "run cfg n sched = (cb, ts)" and "i < length ts"
  shows "step_effect (unat (half_open_limit cfg)) (packed cb) (ts ! i) (packed cb') (ts' ! i)"
proof -
  have "threads.inv cfg (cb, ts)" using reachable_inv [of cfg sched n] assms(2) by simp
  then have inv: "breaker_inv cfg cb" "thread_inv cfg (ts ! i)"
    using assms(3) by (auto simp: threads.inv_def)
  obtain t' where "thread_step e (ts ! i) cb = (t', cb')" "ts' = ts[i := t']"
    using assms by (auto simp: sys_step_def split: prod.splits)
  then show ?thesis using thread_step_effect [OF _ inv] assms(3) by auto
qed

lemma step_effect_transition:
  assumes "step_effect limit p t p' t'"
  shows "p' = p \<or> (\<exists>l. transition limit l (view p) (view p'))"
  using assms by cases blast+

text \<open>
  Under every interleaving of any number of requests, spurious exchange failures
  included, the packed word stays well formed, and each atomic step either leaves it alone or
  performs exactly one transition of the three-state machine; in particular the generation
  advances exactly when the breaker enters the open state.
\<close>

theorem interleaved_step_is_transition:
  "let st = run cfg n sched; st' = sys_step thread_step ie st in
   wf_breaker (fst st) \<and>
   (packed (fst st') = packed (fst st) \<or>
    (\<exists>l. transition (unat (half_open_limit cfg)) l (view (packed (fst st))) (view (packed (fst st')))))"
proof -
  obtain i e cb ts cb' ts' where ie: "ie = (i, e)" and st: "run cfg n sched = (cb, ts)"
    and st': "sys_step thread_step (i, e) (run cfg n sched) = (cb', ts')"
    by (metis surj_pair)
  have "wf_breaker cb" using reachable_inv [of cfg sched n] st
    by (simp add: threads.inv_def breaker_inv_def)
  moreover have "packed cb' = packed cb \<or>
      (\<exists>l. transition (unat (half_open_limit cfg)) l (view (packed cb)) (view (packed cb')))"
  proof (cases "i < length ts")
    case True
    from step_effect_transition [OF reachable_step [OF st' st True]] show ?thesis .
  next
    case False
    with st' st show ?thesis by (simp add: sys_step_def)
  qed
  ultimately show ?thesis using ie st st' by simp
qed

text \<open>
  C2. Under every interleaving the in-flight probe count never exceeds the half-open limit
  nor the number of requests that still hold a probe slot: capacity cannot leak, so once the
  outstanding probes have reported, a half-open breaker is at count zero and admits again.
\<close>

theorem no_probe_slot_leak:
  "let st = run cfg n sched in
   unat (half_open_in_flight (fst st)) \<le> min (unat (half_open_limit cfg)) (holders holds_slot (snd st))"
proof -
  let ?st = "run cfg n sched"
  have "packed_count (packed (fst (initial cfg n))) = 0"
    by (simp add: initial_def new_CircuitBreaker_def)
  then have "unat (packed_count (packed (fst ?st))) \<le> holders holds_slot (snd ?st)"
    by (intro threads.run_account [OF initial_inv]) simp
  moreover have "wf_packed (unat (half_open_limit cfg)) (packed (fst ?st))"
    using reachable_inv [of cfg sched n] by (simp add: threads.inv_def breaker_inv_packed)
  from this half_open_limit_bounds(2)
  have "unat (packed_count (packed (fst ?st))) \<le> unat (half_open_limit cfg)"
    by (cases rule: wf_packedE) auto
  ultimately show ?thesis by (simp add: half_open_in_flight_def)
qed

fun admitted :: "pc \<Rightarrow> bool" where
  "admitted CE_Store \<longleftrightarrow> True"
| "admitted Admitted \<longleftrightarrow> True"
| "admitted _ \<longleftrightarrow> False"

lemma admission_step:
  assumes step: "thread_step e t cb = (t', cb')"
    and inv: "breaker_inv cfg cb" and tinv: "thread_inv cfg t"
    and adm: "\<not> admitted (pc t)" "admitted (pc t')"
  shows "if is_probe t'
         then transition (unat (half_open_limit cfg)) Half_Open (view (packed cb)) (view (packed cb')) \<or>
              transition (unat (half_open_limit cfg)) Admit_Probe (view (packed cb)) (view (packed cb'))
         else packed cb' = packed cb \<and> phase_of (packed cb) = Closed"
proof -
  have wf: "wf_packed (unat (half_open_limit cfg)) (packed cb)"
    using inv by (simp add: breaker_inv_packed)
  note states = wf_state(6) [OF wf half_open_limit_bounds(2)]
  have quiet: "\<not> admitted (release_then b k)" "\<not> admitted (continue_at k)"
    "\<not> admitted (enter_report c b r)" "\<not> admitted (release_retry q k)" for b k c r q
    by (cases k; cases r; simp add: release_then_def release_retry_def)+
  show ?thesis
  proof (cases "is_probe t'")
    case True
    have "step_effect (unat (half_open_limit cfg)) (packed cb) t (packed cb') t'"
      using thread_step_effect [OF step inv tinv] by blast
    moreover have "\<not> holds_slot t"
      using adm step by (cases "pc t") (auto simp: step_defs cas quiet holds_slot_def split: if_splits)
    moreover have "holds_slot t'"
      using adm(2) True by (cases "pc t'") (simp_all add: holds_slot_def)
    ultimately show ?thesis using True by cases auto
  next
    case False
    with adm step states show ?thesis
      by (cases "pc t") (auto simp: step_defs cas quiet phase_of_def split: if_splits)
  qed
qed

text \<open>
  C3. Admission is linearizable under every interleaving: a request is admitted as an ordinary
  request only by a step at which the breaker is closed and which leaves the word alone, and
  as a probe only by the very exchange that takes the breaker from open to half-open or adds
  one to an in-flight count below the limit. No request is admitted after a reopen.
\<close>

theorem admission_linearizes:
  assumes "run cfg n sched = (cb, ts)" and "i < length ts"
    and "thread_step e (ts ! i) cb = (t', cb')"
    and "\<not> admitted (pc (ts ! i))" and "admitted (pc t')"
  shows "if is_probe t'
         then transition (unat (half_open_limit cfg)) Half_Open (view (packed cb)) (view (packed cb')) \<or>
              transition (unat (half_open_limit cfg)) Admit_Probe (view (packed cb)) (view (packed cb'))
         else packed cb' = packed cb \<and> phase_of (packed cb) = Closed"
proof -
  have "threads.inv cfg (cb, ts)" using reachable_inv [of cfg sched n] assms(1) by simp
  then have "breaker_inv cfg cb" "thread_inv cfg (ts ! i)"
    using assms(2) by (auto simp: threads.inv_def)
  from admission_step [OF assms(3) this assms(4,5)] show ?thesis .
qed

definition quiet_event :: event where
  "quiet_event = \<lparr>clock = 0, wall = 0, spurious = False, deferred = False, outcome = Report_Neutral\<rparr>"

theorem admission_linearizes_witness:
  "let (cb, ts) = run default_CircuitBreakerConfig 1 [(0, quiet_event)];
       (t', cb') = thread_step quiet_event (ts ! 0) cb
   in \<not> admitted (pc (ts ! 0)) \<and> admitted (pc t') \<and> \<not> is_probe t' \<and> phase_of (packed cb) = Closed"
proof -
  let ?cb = "new_CircuitBreaker default_CircuitBreakerConfig"
  let ?t = "\<lparr>pc = CE_Load, admission_epoch = 0, is_probe = False\<rparr>"
  have run: "run default_CircuitBreakerConfig 1 [(0, quiet_event)] = (?cb, [?t])"
    by (simp add: initial_def sys_step_def new_thread_def step_defs open_epoch_def
        new_CircuitBreaker_def codec)
  have step: "thread_step quiet_event ?t ?cb = (?t\<lparr>pc := Admitted\<rparr>, ?cb)"
    by (simp add: step_defs new_CircuitBreaker_def)
  from admission_linearizes [OF run, of 0 quiet_event] step show ?thesis
    unfolding run by simp
qed

section \<open>A thread alone runs the sequential operations\<close>

fun settled :: "pc \<Rightarrow> bool" where
  "settled Admitted \<longleftrightarrow> True"
| "settled Finished \<longleftrightarrow> True"
| "settled Rejected \<longleftrightarrow> True"
| "settled _ \<longleftrightarrow> False"

primrec run_alone :: "nat \<Rightarrow> event \<Rightarrow> thread \<times> CircuitBreaker \<Rightarrow> thread \<times> CircuitBreaker" where
  "run_alone 0 e st = st"
| "run_alone (Suc n) e st =
     (if settled (pc (fst st)) then st else run_alone n e (thread_step e (fst st) (snd st)))"

lemma run_alone_pair [simp]:
  "run_alone (Suc n) e (t, cb) = (if settled (pc t) then (t, cb) else run_alone n e (thread_step e t cb))"
  by simp

declare run_alone.simps(2) [simp del]

fun apply_report :: "event \<Rightarrow> bool \<Rightarrow> report \<Rightarrow> CircuitBreaker \<Rightarrow> CircuitBreaker" where
  "apply_report e probe Report_Success cb = record_success probe cb"
| "apply_report e probe Report_Neutral cb = record_neutral probe cb"
| "apply_report e probe (Report_Failure status connection_error) cb =
     record_failure (clock e, wall e) status connection_error probe cb"

lemma run_alone_can_execute:
  assumes "wf_breaker cb" and "\<not> spurious e"
  shows "run_alone 4 e (goto CE_Load t, cb) =
     (case can_execute (clock e) cb of
        (Inr probe, cb') \<Rightarrow> (admit probe t, cb') | (Inl _, cb') \<Rightarrow> (goto Rejected t, cb'))"
  using assms(1)
proof (cases rule: wf_breakerE)
  case (HalfOpen g c)
  then show ?thesis using assms(2)
    by (auto simp: eval_nat_numeral can_execute_cases(3) step_defs cas codec)
qed (use assms(2) in \<open>auto simp: eval_nat_numeral can_execute_cases(1,2) step_defs cas codec\<close>)

lemmas alone = release_then_def release_retry_def release_if_def codec

text \<open>The step of each program point that the outcome operations go through.\<close>

lemma release_steps:
  "thread_step e (goto (RL_Load k) t) cb = (goto (release_retry (packed cb) k) t, cb)"
  "packed cb = q \<Longrightarrow> \<not> spurious e \<Longrightarrow> thread_step e (goto (RL_Cas q k) t) cb =
     (goto (continue_at k) t,
      cb\<lparr>packed := pack_full (packed_generation q) (packed_state q) (packed_count q - 1)\<rparr>)"
  by (simp_all add: thread_step_def release_step_def cas)

lemma success_steps:
  "thread_step e (goto RS_Load t) cb =
     (goto (if packed_state (packed cb) = STATE_HALF_OPEN
            then release_then (is_probe t) Then_Half_Open_Success
            else if packed_state (packed cb) = STATE_OPEN \<and> is_probe t then RL_Load Then_Done
            else if packed_state (packed cb) = STATE_CLOSED
            then release_then (is_probe t) Then_Closed_Success
            else Finished) t, cb)"
  "thread_step e (goto RS_Recheck t) cb =
     (goto (if packed_state (packed cb) \<noteq> STATE_HALF_OPEN then Finished else RS_Add) t, cb)"
  "thread_step e (goto RS_Add t) cb =
     (goto (if success_threshold (config cb) \<le> success_count cb + 1 then RS_Close_Load
            else Finished) t, cb\<lparr>success_count := success_count cb + 1\<rparr>)"
  "thread_step e (goto RS_Close_Load t) cb =
     (goto (if packed_state (packed cb) \<noteq> STATE_HALF_OPEN then Finished
            else RS_Close_Cas (packed cb)) t, cb)"
  "packed cb = q \<Longrightarrow> \<not> spurious e \<Longrightarrow> thread_step e (goto (RS_Close_Cas q) t) cb =
     (goto RS_Clear_Failures t, cb\<lparr>packed := pack_full (packed_generation q) STATE_CLOSED 0\<rparr>)"
  "thread_step e (goto RS_Clear_Failures t) cb = (goto RS_Clear_Successes t, cb\<lparr>failure_count := 0\<rparr>)"
  "thread_step e (goto RS_Clear_Successes t) cb = (goto Finished t, cb\<lparr>success_count := 0\<rparr>)"
  "thread_step e (goto RS_Closed_Load t) cb =
     (goto (if 0 < failure_count cb then RS_Closed_Store else Finished) t, cb)"
  "thread_step e (goto RS_Closed_Store t) cb = (goto Finished t, cb\<lparr>failure_count := 0\<rparr>)"
  by (simp_all add: thread_step_def success_step_def cas)

lemma failure_steps:
  "thread_step e (goto RF_Load t) cb =
     (goto (if packed_state (packed cb) = STATE_CLOSED then RF_Store_Tick True (clock e) (wall e)
            else if packed_state (packed cb) = STATE_HALF_OPEN
            then RF_Store_Tick False (clock e) (wall e)
            else if packed_state (packed cb) = STATE_OPEN \<and> is_probe t then RL_Load Then_Done
            else Finished) t, cb)"
  "thread_step e (goto (RF_Store_Tick closed tick epoch) t) cb =
     (goto (RF_Store_Epoch closed epoch) t, cb\<lparr>last_failure_tick_ms := tick\<rparr>)"
  "thread_step e (goto (RF_Store_Epoch closed epoch) t) cb =
     (goto (if closed then release_then (is_probe t) Then_Closed_Failure else RF_Clear_Successes) t,
      cb\<lparr>last_failure_epoch_ms := epoch\<rparr>)"
  "thread_step e (goto RF_Add t) cb =
     (goto (if failure_threshold (config cb) \<le> failure_count cb + 1 then RF_Recheck else Finished) t,
      cb\<lparr>failure_count := failure_count cb + 1\<rparr>)"
  "thread_step e (goto RF_Recheck t) cb =
     (goto (if failure_count cb < failure_threshold (config cb) then Finished
            else RF_Load_Generation) t, cb)"
  "thread_step e (goto RF_Load_Generation t) cb =
     (goto (RF_Open_Cas (packed_generation (packed cb))) t, cb)"
  "packed cb = pack_full g STATE_CLOSED 0 \<Longrightarrow> thread_step e (goto (RF_Open_Cas g) t) cb =
     (goto (RF_Recount g) t, cb\<lparr>packed := pack_full (g + 1) STATE_OPEN 0\<rparr>)"
  "thread_step e (goto (RF_Recount g) t) cb =
     (goto (if failure_count cb < failure_threshold (config cb) then RF_Rollback g
            else Finished) t, cb)"
  "thread_step e (goto RF_Clear_Successes t) cb = (goto RF_Reopen_Load t, cb\<lparr>success_count := 0\<rparr>)"
  "thread_step e (goto RF_Reopen_Load t) cb =
     (goto (if packed_state (packed cb) = STATE_OPEN then Finished
            else RF_Reopen_Cas (packed cb)) t, cb)"
  "packed cb = q \<Longrightarrow> \<not> spurious e \<Longrightarrow> thread_step e (goto (RF_Reopen_Cas q) t) cb =
     (goto Finished t, cb\<lparr>packed := pack_full (packed_generation q + 1) STATE_OPEN 0\<rparr>)"
  by (simp_all add: thread_step_def failure_step_def cas)

lemma run_alone_settled [simp]: "settled (pc t) \<Longrightarrow> run_alone n e (t, cb) = (t, cb)"
  by (cases n) simp_all

lemma fuel_12: "12 = Suc (Suc (Suc (Suc (Suc (Suc (Suc (Suc (Suc (Suc (Suc (Suc 0)))))))))))"
  by simp

lemma run_alone_success:
  assumes "wf_breaker cb" and "\<not> spurious e"
  shows "run_alone 12 e (goto RS_Load t, cb) = (goto Finished t, record_success (is_probe t) cb)"
  using assms(1)
proof (cases rule: wf_breakerE)
  case (HalfOpen g c)
  show ?thesis
  proof (cases "is_probe t \<and> c \<noteq> 0")
    case True
    with HalfOpen show ?thesis using assms
      by (simp add: fuel_12 success_steps release_steps release_retry_def record_success_cases(3)
          release_cases(3) release_then_def codec count_pred_le)
  next
    case False
    with HalfOpen show ?thesis using assms
      by (auto simp add: fuel_12 success_steps release_steps release_retry_def record_success_cases(3)
          release_cases(3) release_then_def release_if_def codec)
  qed
qed (use assms in \<open>simp_all add: fuel_12 success_steps release_steps release_retry_def
      record_success_cases(1,2) release_then_def word_gt_0 codec\<close>)

lemma run_alone_failure:
  assumes "wf_breaker cb" and "\<not> spurious e" and "failure_counts (config cb) status conn"
  shows "run_alone 12 e (goto RF_Load t, cb) =
    (goto Finished t, record_failure (clock e, wall e) status conn (is_probe t) cb)"
  using assms(1)
proof (cases rule: wf_breakerE)
  case (HalfOpen g c)
  then show ?thesis using assms(2,3)
    by (simp add: fuel_12 failure_steps record_failure_cases codec)
qed (use assms(2,3) in \<open>simp_all add: fuel_12 failure_steps release_steps release_retry_def
      record_failure_cases release_then_def not_le [symmetric] codec\<close>)

lemma run_alone_neutral:
  assumes "wf_breaker cb" and "\<not> spurious e"
  shows "run_alone 12 e (goto (release_then (is_probe t) Then_Done) t, cb) =
    (goto Finished t, release_if (is_probe t) cb)"
  using assms by (simp add: fuel_12 release_steps alone release_half_open_slot_def Let_def)

text \<open>
  Uninterrupted, the step machine is the sequential code: from any well-formed breaker an
  admission settles within four steps with the result of \<open>can_execute\<close>, and a reported outcome
  settles within twelve with the state \<open>record_success\<close>, \<open>record_failure\<close> or \<open>record_neutral\<close>
  computes. In particular no retry loop spins without interference.
\<close>

theorem alone_is_sequential:
  assumes "wf_breaker cb" and "\<not> spurious e"
  shows "run_alone 4 e (goto CE_Load t, cb) =
           (case can_execute (clock e) cb of
              (Inr probe, cb') \<Rightarrow> (admit probe t, cb') | (Inl _, cb') \<Rightarrow> (goto Rejected t, cb')) \<and>
         run_alone 12 e (goto (enter_report (config cb) (is_probe t) r) t, cb) =
           (goto Finished t, apply_report e (is_probe t) r cb)"
proof (cases r)
  case Report_Success
  with assms show ?thesis by (simp add: run_alone_can_execute run_alone_success)
next
  case (Report_Failure status conn)
  with assms show ?thesis
    by (simp add: run_alone_can_execute run_alone_failure run_alone_neutral record_failure_cases(1))
next
  case Report_Neutral
  with assms show ?thesis
    by (simp add: run_alone_can_execute run_alone_neutral record_neutral_def release_if_def)
qed

theorem alone_is_sequential_witness:
  "wf_breaker (new_CircuitBreaker default_CircuitBreakerConfig) \<and> \<not> spurious quiet_event \<and>
   fst (run_alone 4 quiet_event (goto CE_Load new_thread, new_CircuitBreaker default_CircuitBreakerConfig)) =
     admit False new_thread"
proof -
  have wf: "wf_breaker (new_CircuitBreaker default_CircuitBreakerConfig)" by (rule wf_new)
  have ev: "\<not> spurious quiet_event" by (simp add: quiet_event_def)
  have "can_execute (clock quiet_event) (new_CircuitBreaker default_CircuitBreakerConfig) =
      (Inr False, new_CircuitBreaker default_CircuitBreakerConfig)"
    by (rule can_execute_cases(1)) (simp add: new_CircuitBreaker_def)
  with alone_is_sequential [OF wf ev, of new_thread Report_Neutral] wf ev show ?thesis by simp
qed

section \<open>A stale probe frees a slot it no longer holds\<close>

definition probe_config :: CircuitBreakerConfig where
  "probe_config = default_CircuitBreakerConfig\<lparr>failure_threshold := 1, timeout_seconds := 0\<rparr>"

definition settle_event :: "bool \<Rightarrow> report \<Rightarrow> event" where
  "settle_event late r = quiet_event\<lparr>deferred := late, outcome := r\<rparr>"

definition turns :: "nat \<Rightarrow> nat \<Rightarrow> event \<Rightarrow> (nat \<times> event) list" where
  "turns n i e = replicate n (i, e)"

definition straggler_schedule :: "(nat \<times> event) list" where
  "straggler_schedule =
     turns 2 0 quiet_event @ turns 2 1 quiet_event
     @ turns 13 0 (settle_event False (Report_Failure 503 False))
     @ turns 5 2 quiet_event
     @ turns 13 1 (settle_event False (Report_Failure 503 False))
     @ turns 5 3 quiet_event
     @ turns 4 2 (settle_event True Report_Success)
     @ turns 4 4 quiet_event"

lemma turns_simps [simp]: "turns 0 i e = []" "turns (Suc n) i e = (i, e) # turns n i e"
  by (simp_all add: turns_def)

lemma turns_alone:
  assumes "i < length ts" and "run_alone n e (ts ! i, cb) = (t', cb')" and "pc t' = Finished"
    and "pc (ts ! i) \<noteq> Admitted"
  shows "run_schedule thread_step (turns n i e) (cb, ts) = (cb', ts[i := t'])"
  using assms
proof (induction n arbitrary: ts cb)
  case (Suc n)
  show ?case
  proof (cases "pc (ts ! i) = Finished")
    case True
    then have "run_schedule thread_step (turns m i e) (cb, ts) = (cb, ts)" for m
      using Suc.prems(1) by (induction m) (simp_all add: sys_step_def step_defs)
    with True Suc.prems(1,2) show ?thesis by (auto simp del: turns_simps)
  next
    case False
    then have unsettled: "\<not> settled (pc (ts ! i))"
      using Suc.prems(2-4) by (cases "pc (ts ! i)") auto
    obtain t1 cb1 where step: "thread_step e (ts ! i) cb = (t1, cb1)" by fastforce
    with unsettled Suc.prems have alone: "run_alone n e (t1, cb1) = (t', cb')" by simp
    moreover from alone Suc.prems(3) have "pc t1 \<noteq> Admitted" by auto
    ultimately show ?thesis
      using Suc.IH [of "ts[i := t1]" cb1] Suc.prems(1,3) step by (simp add: sys_step_def)
  qed
qed auto

abbreviation waiting :: "u64 \<Rightarrow> bool \<Rightarrow> thread" where
  "waiting epoch probe \<equiv> \<lparr>pc = Admitted, admission_epoch = epoch, is_probe = probe\<rparr>"

lemma arrivals:
  assumes "i < length ts" "ts ! i = new_thread" "\<not> spurious e"
  shows "packed cb = pack_full g STATE_CLOSED 0 \<Longrightarrow>
      run_schedule thread_step (turns 2 i e) (cb, ts) = (cb, ts[i := waiting (ucast g) False])"
    and "packed cb = pack_full g STATE_OPEN 0 \<Longrightarrow>
      timeout_elapsed (config cb) (clock e) (last_failure_tick_ms cb) \<Longrightarrow>
      run_schedule thread_step (turns 5 i e) (cb, ts) =
        (cb\<lparr>packed := pack_full g STATE_HALF_OPEN 1, success_count := 0\<rparr>,
         ts[i := waiting (ucast g) True])"
    and "packed cb = pack_full g STATE_HALF_OPEN 0 \<Longrightarrow>
      run_schedule thread_step (turns 4 i e) (cb, ts) =
        (cb\<lparr>packed := pack_full g STATE_HALF_OPEN 1\<rparr>, ts[i := waiting (ucast g) True])"
  using assms half_open_limit_bounds(1) [of "config cb"]
  by (simp_all add: eval_nat_numeral sys_step_def step_defs cas codec new_thread_def open_epoch_def
   word_le_nat_alt)


lemma failing_settles:
  assumes "i < length ts" "ts ! i = waiting epoch False" "wf_breaker cb"
    and "e = settle_event False (Report_Failure status conn)" "failure_counts (config cb) status conn"
  shows "run_schedule thread_step (turns 13 i e) (cb, ts) =
    (record_failure (0, 0) status conn False cb, ts[i := goto Finished (waiting epoch False)])"
proof -
  have e: "\<not> spurious e" "\<not> deferred e" "outcome e = Report_Failure status conn" "clock e = 0" "wall e = 0"
    by (simp_all add: assms(4) settle_event_def quiet_event_def)
  let ?ts = "ts[i := goto RF_Load (waiting epoch False)]"
  have "turns 13 i e = (i, e) # turns 12 i e" by (simp add: turns_def eval_nat_numeral)
  moreover have "sys_step thread_step (i, e) (cb, ts) = (cb, ?ts)"
    using assms e by (simp add: sys_step_def thread_step_def)
  moreover have "run_schedule thread_step (turns 12 i e) (cb, ?ts) =
      (record_failure (0, 0) status conn False cb, ?ts[i := goto Finished (waiting epoch False)])"
    using assms(1) e run_alone_failure [OF assms(3) e(1) assms(5), of "waiting epoch False"]
    by (intro turns_alone) simp_all
  ultimately show ?thesis by simp
qed

lemma stale_settles:
  assumes "i < length ts" "ts ! i = waiting epoch True"
    and "packed cb = pack_full g STATE_HALF_OPEN 1" "epoch \<noteq> ucast g" "e = settle_event True r"
  shows "run_schedule thread_step (turns 4 i e) (cb, ts) =
    (cb\<lparr>packed := pack_full g STATE_HALF_OPEN 0\<rparr>, ts[i := goto Finished (waiting epoch True)])"
  using assms
  by (simp add: eval_nat_numeral sys_step_def step_defs cas codec settle_event_def quiet_event_def
      release_then_def release_retry_def open_epoch_def one_le_COUNT_MASK)

definition current_probes :: "CircuitBreaker \<times> thread list \<Rightarrow> nat" where
  "current_probes st =
     holders (\<lambda>t. holds_slot t \<and> pc t = Admitted \<and> admission_epoch t = open_epoch (fst st)) (snd st)"

text \<open>
  C26. The in-flight count does not bound the probes of the current cycle: a probe of an
  earlier half-open cycle that reports late, even as the stale deferred outcome which is to
  change no health state, gives back a slot of the new cycle. With a limit of one, the
  schedule below ends with two requests admitted as probes under the current generation while
  the count reads one.
\<close>

theorem stale_probe_over_admission:
  "unat (half_open_limit probe_config) = 1 \<and>
   state_name (fst (run probe_config 5 straggler_schedule)) = ''half_open'' \<and>
   half_open_in_flight (fst (run probe_config 5 straggler_schedule)) = 1 \<and>
   current_probes (run probe_config 5 straggler_schedule) = 2"
proof -
  define cb where "cb = new_CircuitBreaker probe_config"
  have fields: "packed cb = pack_full 0 STATE_CLOSED 0" "config cb = probe_config"
      "failure_count cb = 0" "last_failure_tick_ms cb = 0"
    by (simp_all add: cb_def new_CircuitBreaker_def)
  have counts: "failure_counts probe_config 503 False" "failure_threshold probe_config = 1"
    "timeout_elapsed probe_config 0 0"
    and limit: "unat (half_open_limit probe_config) = 1"
    by (simp_all add: failure_counts_def probe_config_def default_CircuitBreakerConfig_def
        timeout_elapsed_def saturating_mul_def saturating_sub_def half_open_limit_def clamp_def
        COUNT_MASK_def STATE_SHIFT_def)
  let ?fail = "settle_event False (Report_Failure 503 False)"
  have quiet: "\<not> spurious quiet_event" "clock quiet_event = 0" by (simp_all add: quiet_event_def)
  have start: "initial probe_config 5 = (cb, [new_thread, new_thread, new_thread, new_thread, new_thread])"
    by (simp add: initial_def cb_def eval_nat_numeral)
  obtain cb' where "run probe_config 5 straggler_schedule = (cb',
      [goto Finished (waiting 0 False), goto Finished (waiting 0 False),
       goto Finished (waiting 1 True), waiting 2 True, waiting 2 True])"
    and "packed cb' = pack_full 2 STATE_HALF_OPEN 1"
    unfolding straggler_schedule_def start run_schedule_append
    by (simp add: arrivals failing_settles stale_settles fields counts quiet record_failure_cases
          wf_breaker_def limit del: turns_simps)
  then show ?thesis
    by (simp add: limit state_name_def half_open_in_flight_def codec one_le_COUNT_MASK
        current_probes_def holders_def holds_slot_def open_epoch_def)
qed

end
