(* ===== verification/Runtime_Keys.thy ===== *)
theory Runtime_Keys
  imports Ferrum_Prelude
begin

text \<open>
  Runtime cache keys: resource identifiers (\<^verbatim>\<open>validate_resource_id\<close> of \<^verbatim>\<open>src/src/config/types.rs\<close>),
  the \<^verbatim>\<open>namespace|id\<close> key of \<^verbatim>\<open>src/src/config/db_backend.rs\<close> and the circuit-breaker keys of
  \<^verbatim>\<open>src/src/circuit_breaker.rs\<close>. The lemmas show that the rendering is injective on valid
  identifiers and that the matching function recognises exactly the keys of one resource.
\<close>

section \<open>Identifiers\<close>

definition MAX_ID_LENGTH :: nat where "MAX_ID_LENGTH = 254"

definition is_ascii_alphanumeric :: "char \<Rightarrow> bool" where
  "is_ascii_alphanumeric c \<longleftrightarrow>
     is_ascii_digit c \<or> (65 \<le> byte_of c \<and> byte_of c \<le> 90) \<or> (97 \<le> byte_of c \<and> byte_of c \<le> 122)"

text \<open>The regular expression: an alphanumeric, then alphanumerics, dots, underscores, hyphens.\<close>

definition id_regex :: "string \<Rightarrow> bool" where
  "id_regex s =
     (case s of
        [] \<Rightarrow> False
      | c # cs \<Rightarrow>
          is_ascii_alphanumeric c \<and>
          list_all (\<lambda>d. is_ascii_alphanumeric d \<or> d = CHR ''.'' \<or> d = CHR ''_'' \<or> d = CHR ''-'') cs)"

datatype id_error = Id_Empty | Id_Too_Long nat | Id_Invalid string

definition validate_resource_id :: "string \<Rightarrow> id_error + unit" where
  "validate_resource_id ident =
     (if ident = [] then Inl Id_Empty
      else if MAX_ID_LENGTH < length ident then Inl (Id_Too_Long (length ident))
      else if \<not> id_regex ident then Inl (Id_Invalid ident)
      else Inr ())"

section \<open>Keys\<close>

definition namespaced_runtime_key :: "string \<Rightarrow> string \<Rightarrow> string" where
  "namespaced_runtime_key namespace ident = namespace @ ''|'' @ ident"

definition runtime_key_matches_resource :: "string \<Rightarrow> string \<Rightarrow> string \<Rightarrow> bool" where
  "runtime_key_matches_resource key namespace ident =
     (let ns_len = length namespace; id_len = length ident; prefix_len = ns_len + 1 + id_len in
      if length key < prefix_len then False
      else if take ns_len key \<noteq> namespace \<or> key ! ns_len \<noteq> CHR ''|'' then False
      else
        (let id_start = ns_len + 1; id_end = id_start + id_len in
         if take id_len (drop id_start key) \<noteq> ident then False
         else length key = prefix_len \<or>
              (prefix_len + 1 < length key \<and> take 2 (drop id_end key) = ''::'')))"

definition circuit_breaker_key :: "string \<Rightarrow> string \<Rightarrow> string option \<Rightarrow> string" where
  "circuit_breaker_key namespace proxy_id target_key =
     (case target_key of
        Some tk \<Rightarrow> namespace @ ''|'' @ proxy_id @ ''::'' @ tk
      | None \<Rightarrow> namespaced_runtime_key namespace proxy_id)"

definition target_key :: "string \<Rightarrow> u16 \<Rightarrow> string" where
  "target_key host port = host @ '':'' @ dec (unat port)"

definition scoped_cache_key :: "string \<Rightarrow> string \<Rightarrow> string \<Rightarrow> u16 \<Rightarrow> string" where
  "scoped_cache_key namespace proxy_id host port =
     circuit_breaker_key namespace proxy_id (Some (target_key host port))"

section \<open>Properties\<close>

text \<open>What the keys rely on: no \<^verbatim>\<open>|\<close> and no \<^verbatim>\<open>:\<close> in a valid identifier.\<close>

definition separator_free :: "string \<Rightarrow> bool" where
  "separator_free s \<longleftrightarrow> CHR ''|'' \<notin> set s \<and> CHR '':'' \<notin> set s"

lemma separators_not_alphanumeric:
  "\<not> is_ascii_alphanumeric (CHR ''|'')" "\<not> is_ascii_alphanumeric (CHR '':'')"
  by (simp_all add: is_ascii_alphanumeric_def is_ascii_digit_def byte_of_def)

lemma valid_id_separator_free:
  assumes "validate_resource_id ident = Inr ()"
  shows "separator_free ident"
proof -
  have "id_regex ident"
    using assms by (simp add: validate_resource_id_def split: if_splits)
  then have "\<forall>c \<in> set ident. is_ascii_alphanumeric c \<or> c = CHR ''.'' \<or> c = CHR ''_'' \<or> c = CHR ''-''"
    by (cases ident) (auto simp: id_regex_def list_all_iff)
  with separators_not_alphanumeric show ?thesis
    by (auto simp: separator_free_def)
qed

lemma matches_iff:
  "runtime_key_matches_resource key namespace ident \<longleftrightarrow>
     (\<exists>tk. key = circuit_breaker_key namespace ident tk)"
proof
  assume m: "runtime_key_matches_resource key namespace ident"
  let ?n = "length namespace" and ?i = "length ident"
  have len: "?n + 1 + ?i \<le> length key" and ns: "take ?n key = namespace"
    and bar: "key ! ?n = CHR ''|''" and ident: "take ?i (drop (?n + 1) key) = ident"
    and rest: "length key = ?n + 1 + ?i \<or> take 2 (drop (?n + 1 + ?i) key) = ''::''"
    using m by (auto simp: runtime_key_matches_resource_def Let_def split: if_splits)
  have "key = take ?n key @ drop ?n key" by simp
  also have "drop ?n key = key ! ?n # drop (?n + 1) key"
    using len by (simp add: Cons_nth_drop_Suc)
  also have "drop (?n + 1) key = take ?i (drop (?n + 1) key) @ drop (?n + 1 + ?i) key"
    by (metis append_take_drop_id drop_drop add.commute)
  finally have key: "key = namespace @ CHR ''|'' # ident @ drop (?n + 1 + ?i) key"
    using ns bar ident by simp
  show "\<exists>tk. key = circuit_breaker_key namespace ident tk"
  proof (cases "length key = ?n + 1 + ?i")
    case True
    with key have "key = circuit_breaker_key namespace ident None"
      by (simp add: circuit_breaker_key_def namespaced_runtime_key_def)
    then show ?thesis ..
  next
    case False
    with rest have "drop (?n + 1 + ?i) key = ''::'' @ drop 2 (drop (?n + 1 + ?i) key)"
      by (metis append_take_drop_id)
    with key have "key = circuit_breaker_key namespace ident (Some (drop 2 (drop (?n + 1 + ?i) key)))"
      by (simp add: circuit_breaker_key_def)
    then show ?thesis ..
  qed
next
  assume "\<exists>tk. key = circuit_breaker_key namespace ident tk"
  then show "runtime_key_matches_resource key namespace ident"
    by (auto simp: runtime_key_matches_resource_def circuit_breaker_key_def
        namespaced_runtime_key_def nth_append Let_def split: option.splits)
qed

lemma circuit_breaker_key_inj:
  assumes "separator_free ns" "separator_free ident" "separator_free ns'" "separator_free ident'"
  shows "circuit_breaker_key ns ident tk = circuit_breaker_key ns' ident' tk' \<longleftrightarrow>
         ns = ns' \<and> ident = ident' \<and> tk = tk'"
proof
  define tail where "tail tk = (case tk of Some t \<Rightarrow> CHR '':'' # CHR '':'' # t | None \<Rightarrow> [])"
    for tk :: "string option"
  have key: "circuit_breaker_key n i t = n @ CHR ''|'' # i @ tail t" for n i t
    by (simp add: circuit_breaker_key_def namespaced_runtime_key_def tail_def split: option.splits)
  assume "circuit_breaker_key ns ident tk = circuit_breaker_key ns' ident' tk'"
  then have "ns @ CHR ''|'' # ident @ tail tk = ns' @ CHR ''|'' # ident' @ tail tk'"
    by (simp only: key)
  moreover have "CHR ''|'' \<notin> set ns" "CHR ''|'' \<notin> set ns'"
    using assms by (simp_all add: separator_free_def)
  ultimately have "ns = ns'" and rest: "ident @ tail tk = ident' @ tail tk'"
    by (blast dest: split_at_separator)+
  moreover have "ident = ident' \<and> tail tk = tail tk'"
  proof (cases "tk = None \<longleftrightarrow> tk' = None")
    case True
    show ?thesis
    proof (cases tk)
      case None
      with True rest show ?thesis by (simp add: tail_def)
    next
      case (Some t)
      with True obtain t' where t': "tk' = Some t'" by auto
      with Some rest have "ident @ CHR '':'' # CHR '':'' # t = ident' @ CHR '':'' # CHR '':'' # t'"
        by (simp add: tail_def)
      moreover have "CHR '':'' \<notin> set ident" "CHR '':'' \<notin> set ident'"
        using assms by (simp_all add: separator_free_def)
      ultimately show ?thesis
        using Some t' by (blast dest: split_at_separator)
    qed
  next
    case False
    then have "CHR '':'' \<in> set (tail tk) \<union> set (tail tk')" and "tail tk = [] \<or> tail tk' = []"
      by (cases tk; cases tk'; simp add: tail_def)+
    moreover have "set ident \<union> set (tail tk) = set ident' \<union> set (tail tk')"
      using arg_cong [OF rest, of set] by simp
    ultimately have "CHR '':'' \<in> set ident \<or> CHR '':'' \<in> set ident'" by auto
    with assms(2,4) show ?thesis by (simp add: separator_free_def)
  qed
  moreover have "tail tk = tail tk' \<Longrightarrow> tk = tk'"
    by (cases tk; cases tk') (auto simp: tail_def)
  ultimately show "ns = ns' \<and> ident = ident' \<and> tk = tk'" by blast
qed simp

lemma target_key_inj: "target_key h p = target_key h' p' \<longleftrightarrow> h = h' \<and> p = p'"
proof
  assume "target_key h p = target_key h' p'"
  from arg_cong [OF this, of rev]
  have "rev (dec (unat p)) @ CHR '':'' # rev h = rev (dec (unat p')) @ CHR '':'' # rev h'"
    by (simp add: target_key_def)
  moreover have "CHR '':'' \<notin> set (rev (dec n))" for n
    using dec_digits [of "CHR '':''" n] by (auto simp: is_ascii_digit_def byte_of_def)
  ultimately have "rev (dec (unat p)) = rev (dec (unat p')) \<and> rev h = rev h'"
    using split_at_separator by metis
  then show "h = h' \<and> p = p'" by (simp add: word_unat_eq_iff)
qed simp

text \<open>
  C39. Breaker keys never collide across tenants, proxies or targets: for valid namespaces and
  proxy identifiers, two keys are equal only if namespace, proxy, host and port agree, and the
  reclaiming function recognises a minted key exactly for the resource that minted it.
\<close>

theorem breaker_keys_isolate:
  assumes "validate_resource_id ns = Inr ()" "validate_resource_id pid = Inr ()"
    and "validate_resource_id ns' = Inr ()" "validate_resource_id pid' = Inr ()"
  shows "(scoped_cache_key ns pid host port = scoped_cache_key ns' pid' host' port' \<longleftrightarrow>
            ns = ns' \<and> pid = pid' \<and> host = host' \<and> port = port') \<and>
         scoped_cache_key ns pid host port \<noteq> namespaced_runtime_key ns' pid' \<and>
         (runtime_key_matches_resource (scoped_cache_key ns pid host port) ns' pid' \<longleftrightarrow>
            ns = ns' \<and> pid = pid') \<and>
         (runtime_key_matches_resource (namespaced_runtime_key ns pid) ns' pid' \<longleftrightarrow>
            ns = ns' \<and> pid = pid')"
proof -
  note free = assms [THEN valid_id_separator_free]
  note inj = circuit_breaker_key_inj [OF free]
  have none: "namespaced_runtime_key n i = circuit_breaker_key n i None" for n i
    by (simp add: circuit_breaker_key_def)
  show ?thesis
    unfolding scoped_cache_key_def none matches_iff inj by (auto simp: target_key_inj)
qed

theorem breaker_keys_isolate_witness:
  "validate_resource_id ''team-a'' = Inr () \<and> validate_resource_id ''api'' = Inr () \<and>
   validate_resource_id ''team-b'' = Inr () \<and>
   scoped_cache_key ''team-a'' ''api'' ''10.0.0.1'' 80 \<noteq> scoped_cache_key ''team-b'' ''api'' ''10.0.0.1'' 80"
proof -
  have v: "validate_resource_id ''team-a'' = Inr ()" "validate_resource_id ''api'' = Inr ()"
    "validate_resource_id ''team-b'' = Inr ()"
    by (simp_all add: validate_resource_id_def MAX_ID_LENGTH_def id_regex_def is_ascii_alphanumeric_def
        is_ascii_digit_def byte_of_def)
  from breaker_keys_isolate [OF v(1,2,3,2), of "''10.0.0.1''" 80 "''10.0.0.1''" 80] v
  show ?thesis by simp
qed

end
