(* ===== verification/Circuit_Breaker_Cache.thy ===== *)
theory Circuit_Breaker_Cache
  imports Circuit_Breaker Runtime_Keys "HOL-Library.AList"
begin

text \<open>
  \<^verbatim>\<open>CircuitBreakerCache\<close> of \<^verbatim>\<open>src/src/circuit_breaker.rs\<close>: the keyed cache of breakers with its
  admission ceiling. The concurrent map is an association list with distinct keys, whose
  order stands for the unspecified iteration order; a breaker is an address into a heap, so
  that the cache and the requests that hold the same \<^verbatim>\<open>Arc\<close> share its state. Each operation is
  one atomic step: the source holds the shard lock of the key for the whole of it.

  The lemmas show that the resident-entry counter is exact and within the ceiling after any
  history, that a key keeps its breaker until it is pruned or reconfigured, and that each
  pruning operation removes exactly the keys it is for.
\<close>

section \<open>State and operations\<close>

record CircuitBreakerCache =
  breakers :: "(string \<times> nat) list"
  entry_count :: nat
  max_entries :: nat
  admission_refused :: u64
  heap :: "nat \<Rightarrow> CircuitBreaker"
  next_addr :: nat

definition with_max_entries :: "nat \<Rightarrow> CircuitBreakerCache" where
  "with_max_entries n =
     \<lparr>breakers = [], entry_count = 0, max_entries = n, admission_refused = 0,
      heap = (\<lambda>_. new_CircuitBreaker default_CircuitBreakerConfig), next_addr = 0\<rparr>"

definition default_CircuitBreakerCache :: CircuitBreakerCache where
  "default_CircuitBreakerCache = with_max_entries 10000"

text \<open>\<open>Arc::new(CircuitBreaker::new(config.clone()))\<close>.\<close>

definition alloc :: "CircuitBreakerConfig \<Rightarrow> CircuitBreakerCache \<Rightarrow> nat \<times> CircuitBreakerCache" where
  "alloc cfg c =
     (next_addr c, c\<lparr>heap := (heap c)(next_addr c := new_CircuitBreaker cfg),
                     next_addr := Suc (next_addr c)\<rparr>)"

definition try_reserve_entry_slot :: "CircuitBreakerCache \<Rightarrow> bool \<times> CircuitBreakerCache" where
  "try_reserve_entry_slot c =
     (if entry_count c < max_entries c then (True, c\<lparr>entry_count := entry_count c + 1\<rparr>)
      else (False, c))"

definition release_entry_slot :: "CircuitBreakerCache \<Rightarrow> CircuitBreakerCache" where
  "release_entry_slot c = (if entry_count c = 0 then c else c\<lparr>entry_count := entry_count c - 1\<rparr>)"

definition get_or_create ::
  "string \<Rightarrow> string \<Rightarrow> string option \<Rightarrow> CircuitBreakerConfig \<Rightarrow> CircuitBreakerCache
     \<Rightarrow> nat \<times> CircuitBreakerCache" where
  "get_or_create namespace proxy_id target cfg c =
     (let key = circuit_breaker_key namespace proxy_id target in
      case map_of (breakers c) key of
        Some a \<Rightarrow>
          if config (heap c a) = cfg then (a, c)
          else (let (cb, c) = alloc cfg c in (cb, c\<lparr>breakers := AList.update key cb (breakers c)\<rparr>))
      | None \<Rightarrow>
          (let (reserved, c) = try_reserve_entry_slot c in
           if \<not> reserved then alloc cfg (c\<lparr>admission_refused := admission_refused c + 1\<rparr>)
           else (let (cb, c) = alloc cfg c in (cb, c\<lparr>breakers := AList.update key cb (breakers c)\<rparr>))))"

definition peek :: "string \<Rightarrow> string \<Rightarrow> string option \<Rightarrow> CircuitBreakerCache \<Rightarrow> nat option" where
  "peek namespace proxy_id target c = map_of (breakers c) (circuit_breaker_key namespace proxy_id target)"

definition cache_can_execute ::
  "u64 \<Rightarrow> string \<Rightarrow> string \<Rightarrow> string option \<Rightarrow> CircuitBreakerConfig \<Rightarrow> CircuitBreakerCache
     \<Rightarrow> (CircuitOpenError + nat \<times> bool) \<times> CircuitBreakerCache" where
  "cache_can_execute now namespace proxy_id target cfg c =
     (let (cb, c) = get_or_create namespace proxy_id target cfg c;
          (r, breaker) = can_execute now (heap c cb);
          c = c\<lparr>heap := (heap c)(cb := breaker)\<rparr>
      in (case r of Inl e \<Rightarrow> Inl e | Inr is_half_open_probe \<Rightarrow> Inr (cb, is_half_open_probe), c))"

definition can_execute_with_admission_epoch ::
  "u64 \<Rightarrow> string \<Rightarrow> string \<Rightarrow> string option \<Rightarrow> CircuitBreakerConfig \<Rightarrow> CircuitBreakerCache
     \<Rightarrow> (CircuitOpenError + nat \<times> bool \<times> u64) \<times> CircuitBreakerCache" where
  "can_execute_with_admission_epoch now namespace proxy_id target cfg c =
     (let (cb, c) = get_or_create namespace proxy_id target cfg c;
          admission_open_epoch = open_epoch (heap c cb);
          (r, breaker) = can_execute now (heap c cb);
          c = c\<lparr>heap := (heap c)(cb := breaker)\<rparr>
      in (case r of
            Inl e \<Rightarrow> Inl e
          | Inr is_half_open_probe \<Rightarrow> Inr (cb, is_half_open_probe, admission_open_epoch), c))"

definition snapshot :: "CircuitBreakerCache \<Rightarrow> (string \<times> string \<times> u32 \<times> u32) list" where
  "snapshot c =
     map (\<lambda>(key, a). let cb = heap c a in
            (key, state_name cb, failure_count cb, success_count cb)) (breakers c)"

text \<open>\<open>DashMap::retain\<close> with the slot released for every entry it drops.\<close>

fun retain :: "(string \<Rightarrow> bool) \<Rightarrow> (string \<times> nat) list \<Rightarrow> CircuitBreakerCache \<Rightarrow> CircuitBreakerCache" where
  "retain keep [] c = c\<lparr>breakers := []\<rparr>"
| "retain keep ((key, a) # entries) c =
     (if keep key then
        (let c = retain keep entries c in c\<lparr>breakers := (key, a) # breakers c\<rparr>)
      else retain keep entries (release_entry_slot c))"

definition prune :: "(string \<times> string) list \<Rightarrow> CircuitBreakerCache \<Rightarrow> CircuitBreakerCache" where
  "prune removed_proxies c =
     retain (\<lambda>key. \<not> list_ex (\<lambda>(namespace, ident). runtime_key_matches_resource key namespace ident)
                     removed_proxies) (breakers c) c"

definition contains_scope_separator :: "string \<Rightarrow> bool" where
  "contains_scope_separator key \<longleftrightarrow> list_ex (\<lambda>i. take 2 (drop i key) = ''::'') [0..<length key]"

definition prune_stale_targets :: "string set \<Rightarrow> CircuitBreakerCache \<Rightarrow> CircuitBreakerCache" where
  "prune_stale_targets active_target_keys c =
     retain (\<lambda>key. if \<not> contains_scope_separator key then True else key \<in> active_target_keys)
       (breakers c) c"

definition strip_prefix :: "string \<Rightarrow> string \<Rightarrow> string option" where
  "strip_prefix prefix s =
     (if take (length prefix) s = prefix then Some (drop (length prefix) s) else None)"

definition prune_stale_targets_for_proxy ::
  "string \<Rightarrow> string \<Rightarrow> (string \<times> u16) list \<Rightarrow> CircuitBreakerCache \<Rightarrow> CircuitBreakerCache" where
  "prune_stale_targets_for_proxy namespace proxy_id live_targets c =
     (let scope_prefix = namespaced_runtime_key namespace proxy_id @ ''::'';
          live = map (\<lambda>(host, port). target_key host port) live_targets in
      retain (\<lambda>key. case strip_prefix scope_prefix key of
                None \<Rightarrow> True
              | Some host_port \<Rightarrow> host_port \<in> set live) (breakers c) c)"

definition len :: "CircuitBreakerCache \<Rightarrow> nat" where
  "len c = entry_count c"

definition is_empty :: "CircuitBreakerCache \<Rightarrow> bool" where
  "is_empty c \<longleftrightarrow> len c = 0"

section \<open>The cache invariant\<close>

definition cache_inv :: "CircuitBreakerCache \<Rightarrow> bool" where
  "cache_inv c \<longleftrightarrow>
     distinct (map fst (breakers c)) \<and> entry_count c = length (breakers c) \<and>
     entry_count c \<le> max_entries c \<and> distinct (map snd (breakers c)) \<and>
     (\<forall>a \<in> set (map snd (breakers c)). a < next_addr c)"

lemma cache_inv_new: "cache_inv (with_max_entries n)"
  by (simp add: cache_inv_def with_max_entries_def)

lemma update_fresh:
  "map_of al k = None \<Longrightarrow> AList.update k v al = al @ [(k, v)]"
  by (induction al) (auto split: if_splits)

lemma length_update:
  "length (AList.update k v al) = (if k \<in> fst ` set al then length al else Suc (length al))"
  by (induction al) auto

lemma snd_update:
  "distinct (map fst al) \<Longrightarrow> a \<notin> snd ` set al \<Longrightarrow> distinct (map snd al) \<Longrightarrow>
   distinct (map snd (AList.update k a al)) \<and> snd ` set (AList.update k a al) \<subseteq> insert a (snd ` set al)"
  by (induction al) auto

lemma get_or_create_inv:
  assumes "cache_inv c"
  shows "cache_inv (snd (get_or_create ns pid tk cfg c))"
proof -
  let ?key = "circuit_breaker_key ns pid tk"
  have fresh: "next_addr c \<notin> snd ` set (breakers c)"
    using assms by (auto simp: cache_inv_def)
  have upd: "distinct (map fst (AList.update ?key (next_addr c) (breakers c)))"
    "distinct (map snd (AList.update ?key (next_addr c) (breakers c)))"
    "snd ` set (AList.update ?key (next_addr c) (breakers c)) \<subseteq> insert (next_addr c) (snd ` set (breakers c))"
    using assms snd_update [OF _ fresh] by (auto simp: cache_inv_def distinct_update)
  have addr: "\<forall>a \<in> set (map snd (AList.update ?key (next_addr c) (breakers c))). a < Suc (next_addr c)"
    "\<forall>a \<in> set (map snd (breakers c)). a < Suc (next_addr c)"
    using assms upd(3) by (fastforce simp: cache_inv_def less_Suc_eq)+
  have "map_of (breakers c) ?key = None \<longleftrightarrow> ?key \<notin> fst ` set (breakers c)"
    by (simp add: map_of_eq_None_iff)
  with assms upd(1,2) addr show ?thesis
    by (simp add: get_or_create_def alloc_def try_reserve_entry_slot_def cache_inv_def length_update
        Let_def split: option.splits) force
qed

lemma retain_breakers: "breakers (retain keep es c) = filter (\<lambda>e. keep (fst e)) es"
  by (induction keep es c rule: retain.induct) (simp_all add: Let_def)

lemma retain_frame:
  "max_entries (retain keep es c) = max_entries c" "heap (retain keep es c) = heap c"
  "next_addr (retain keep es c) = next_addr c" "admission_refused (retain keep es c) = admission_refused c"
  by (induction keep es c rule: retain.induct) (simp_all add: Let_def release_entry_slot_def)

lemma retain_count:
  "length (filter (\<lambda>e. \<not> keep (fst e)) es) \<le> entry_count c \<Longrightarrow>
   entry_count (retain keep es c) = entry_count c - length (filter (\<lambda>e. \<not> keep (fst e)) es)"
  by (induction keep es c rule: retain.induct) (auto simp: Let_def release_entry_slot_def split: if_splits)

lemma retain_inv:
  assumes "cache_inv c"
  shows "cache_inv (retain keep (breakers c) c)"
proof -
  have "length (breakers c) =
      length (filter (\<lambda>e. keep (fst e)) (breakers c)) + length (filter (\<lambda>e. \<not> keep (fst e)) (breakers c))"
    by (simp add: sum_length_filter_compl)
  then show ?thesis
    using assms retain_count [of keep "breakers c" c]
    by (auto simp: cache_inv_def retain_breakers retain_frame distinct_map_filter)
qed

lemma peek_retain:
  assumes "cache_inv c"
  shows "map_of (breakers (retain keep (breakers c) c)) key =
    (if keep key then map_of (breakers c) key else None)"
proof -
  have "map_of (filter (\<lambda>e. keep (fst e)) es) key = (if keep key then map_of es key else None)" for es :: "(string \<times> nat) list"
    by (induction es) auto
  then show ?thesis by (simp add: retain_breakers)
qed

section \<open>Histories\<close>

text \<open>
  The operations on the cache; \<open>On_Breaker\<close> is a request that reports to the breaker it holds,
  wherever that breaker is cached by then.
\<close>

datatype cache_op =
    Get string string "string option" CircuitBreakerConfig
  | Can_Execute u64 string string "string option" CircuitBreakerConfig
  | Can_Execute_Epoch u64 string string "string option" CircuitBreakerConfig
  | On_Breaker nat breaker_op
  | Prune "(string \<times> string) list"
  | Prune_Stale_Targets "string list"
  | Prune_Stale_Targets_For_Proxy string string "(string \<times> u16) list"

fun cache_step :: "cache_op \<Rightarrow> CircuitBreakerCache \<Rightarrow> CircuitBreakerCache" where
  "cache_step (Get ns pid tk cfg) c = snd (get_or_create ns pid tk cfg c)"
| "cache_step (Can_Execute now ns pid tk cfg) c = snd (cache_can_execute now ns pid tk cfg c)"
| "cache_step (Can_Execute_Epoch now ns pid tk cfg) c =
     snd (can_execute_with_admission_epoch now ns pid tk cfg c)"
| "cache_step (On_Breaker a op) c = c\<lparr>heap := (heap c)(a := snd (run_op op (heap c a)))\<rparr>"
| "cache_step (Prune removed) c = prune removed c"
| "cache_step (Prune_Stale_Targets active) c = prune_stale_targets (set active) c"
| "cache_step (Prune_Stale_Targets_For_Proxy ns pid live) c = prune_stale_targets_for_proxy ns pid live c"

lemma cache_inv_heap [simp]: "cache_inv (c\<lparr>heap := h\<rparr>) = cache_inv c"
  by (simp add: cache_inv_def)

lemma can_execute_cache_split:
  "snd (cache_can_execute now ns pid tk cfg c) =
     (let (a, c') = get_or_create ns pid tk cfg c in
      c'\<lparr>heap := (heap c')(a := snd (can_execute now (heap c' a)))\<rparr>)"
  "snd (can_execute_with_admission_epoch now ns pid tk cfg c) =
     (let (a, c') = get_or_create ns pid tk cfg c in
      c'\<lparr>heap := (heap c')(a := snd (can_execute now (heap c' a)))\<rparr>)"
  by (simp_all add: cache_can_execute_def can_execute_with_admission_epoch_def split_beta Let_def)

lemma cache_step_inv: "cache_inv c \<Longrightarrow> cache_inv (cache_step op c)"
  by (cases op) (simp_all add: get_or_create_inv can_execute_cache_split split_beta Let_def
      prune_def prune_stale_targets_def prune_stale_targets_for_proxy_def retain_inv)

lemma cache_step_max: "max_entries (cache_step op c) = max_entries c"
  by (cases op) (auto simp: get_or_create_def can_execute_cache_split alloc_def try_reserve_entry_slot_def
      split_beta Let_def prune_def prune_stale_targets_def prune_stale_targets_for_proxy_def
      retain_frame split: option.splits)

lemma cache_run: "cache_inv c \<Longrightarrow>
    cache_inv (fold cache_step ops c) \<and> max_entries (fold cache_step ops c) = max_entries c"
  by (induction ops arbitrary: c) (simp_all add: cache_step_inv cache_step_max)

text \<open>
  After any history of lookups, admissions, reports and prunings the resident-entry
  counter that admission control reads is exact: it is the number of cached keys, at most the
  configured ceiling, and no key and no breaker is cached twice.
\<close>

theorem cache_count_exact:
  "let c = fold cache_step ops (with_max_entries n) in
   len c = length (breakers c) \<and> len c \<le> n \<and>
   distinct (map fst (breakers c)) \<and> distinct (map snd (breakers c))"
proof -
  have "max_entries (with_max_entries n) = n" by (simp add: with_max_entries_def)
  with cache_run [OF cache_inv_new, of ops n] show ?thesis
    by (auto simp: Let_def cache_inv_def len_def)
qed

section \<open>Isolation\<close>

text \<open>The operations that concern resources other than \<open>(ns, pid)\<close>.\<close>

fun elsewhere :: "string \<Rightarrow> string \<Rightarrow> cache_op \<Rightarrow> bool" where
  "elsewhere ns pid (Get ns' pid' _ _) \<longleftrightarrow> separator_free ns' \<and> separator_free pid' \<and> (ns', pid') \<noteq> (ns, pid)"
| "elsewhere ns pid (Can_Execute _ ns' pid' _ _) \<longleftrightarrow>
     separator_free ns' \<and> separator_free pid' \<and> (ns', pid') \<noteq> (ns, pid)"
| "elsewhere ns pid (Can_Execute_Epoch _ ns' pid' _ _) \<longleftrightarrow>
     separator_free ns' \<and> separator_free pid' \<and> (ns', pid') \<noteq> (ns, pid)"
| "elsewhere ns pid (Prune removed) \<longleftrightarrow>
     list_all (\<lambda>(n, i). separator_free n \<and> separator_free i \<and> (n, i) \<noteq> (ns, pid)) removed"
| "elsewhere ns pid (Prune_Stale_Targets_For_Proxy ns' pid' _) \<longleftrightarrow>
     separator_free ns' \<and> separator_free pid' \<and> (ns', pid') \<noteq> (ns, pid)"
| "elsewhere ns pid _ \<longleftrightarrow> False"

lemma get_or_create_other:
  assumes inv: "cache_inv c" and a: "map_of (breakers c) key = Some a"
    and other: "circuit_breaker_key ns pid tk \<noteq> key"
  shows "map_of (breakers (snd (get_or_create ns pid tk cfg c))) key = Some a"
    and "heap (snd (get_or_create ns pid tk cfg c)) a = heap c a"
    and "fst (get_or_create ns pid tk cfg c) \<noteq> a"
proof -
  have "a < next_addr c" using inv a by (force simp: cache_inv_def dest: map_of_SomeD)
  moreover have "map_of (breakers c) (circuit_breaker_key ns pid tk) \<noteq> Some a"
  proof
    assume "map_of (breakers c) (circuit_breaker_key ns pid tk) = Some a"
    with a have "(circuit_breaker_key ns pid tk, a) \<in> set (breakers c)" "(key, a) \<in> set (breakers c)"
      by (auto dest: map_of_SomeD)
    moreover have "inj_on snd (set (breakers c))"
      using inv by (simp add: cache_inv_def distinct_map)
    ultimately have "(circuit_breaker_key ns pid tk, a) = (key, a)"
      by (metis inj_onD snd_conv)
    with other show False by simp
  qed
  ultimately show "map_of (breakers (snd (get_or_create ns pid tk cfg c))) key = Some a"
    "heap (snd (get_or_create ns pid tk cfg c)) a = heap c a"
    "fst (get_or_create ns pid tk cfg c) \<noteq> a"
    using a other by (auto simp: get_or_create_def alloc_def try_reserve_entry_slot_def update_conv'
        Let_def split: option.splits)
qed

lemma strip_prefix_iff: "strip_prefix p s = Some t \<longleftrightarrow> s = p @ t"
proof
  assume "strip_prefix p s = Some t"
  then have "take (length p) s = p" "drop (length p) s = t"
    by (auto simp: strip_prefix_def split: if_splits)
  then show "s = p @ t" by (metis append_take_drop_id)
qed (simp add: strip_prefix_def)

lemma strip_scope_prefix:
  "strip_prefix (namespaced_runtime_key ns pid @ ''::'') key = Some tk \<longleftrightarrow>
     key = circuit_breaker_key ns pid (Some tk)"
  by (simp add: strip_prefix_iff circuit_breaker_key_def namespaced_runtime_key_def)

lemma step_elsewhere:
  assumes inv: "cache_inv c" and sep: "separator_free ns" "separator_free pid"
    and a: "peek ns pid tk c = Some a" and away: "elsewhere ns pid op"
  shows "peek ns pid tk (cache_step op c) = Some a \<and> heap (cache_step op c) a = heap c a"
proof -
  have key: "circuit_breaker_key ns' pid' tk' \<noteq> circuit_breaker_key ns pid tk"
    if "separator_free ns'" "separator_free pid'" "(ns', pid') \<noteq> (ns, pid)" for ns' pid' tk'
    using that sep circuit_breaker_key_inj by auto
  have a': "map_of (breakers c) (circuit_breaker_key ns pid tk) = Some a"
    using a by (simp add: peek_def)
  note get = get_or_create_other [OF inv a' key]
  show ?thesis
  proof (cases op)
    case (Prune removed)
    then have "\<not> list_ex (\<lambda>(n, i). runtime_key_matches_resource (circuit_breaker_key ns pid tk) n i) removed"
      using away key by (fastforce simp: list_ex_iff list_all_iff matches_iff)
    with Prune show ?thesis
      by (simp add: prune_def peek_def peek_retain [OF inv] retain_frame a')
  next
    case (Prune_Stale_Targets_For_Proxy ns' pid' live)
    then have "strip_prefix (namespaced_runtime_key ns' pid' @ ''::'') (circuit_breaker_key ns pid tk) = None"
      using away key strip_scope_prefix by (metis elsewhere.simps(5) option.exhaust)
    with Prune_Stale_Targets_For_Proxy show ?thesis
      by (simp add: prune_stale_targets_for_proxy_def Let_def peek_def peek_retain [OF inv] retain_frame a')
  next
    case (Get ns' pid' tk' cfg)
    with away get [of ns' pid' tk' cfg] show ?thesis by (simp add: peek_def)
  next
    case (Can_Execute now ns' pid' tk' cfg)
    with away get [of ns' pid' tk' cfg] show ?thesis
      by (simp add: peek_def can_execute_cache_split split_beta Let_def)
  next
    case (Can_Execute_Epoch now ns' pid' tk' cfg)
    with away get [of ns' pid' tk' cfg] show ?thesis
      by (simp add: peek_def can_execute_cache_split split_beta Let_def)
  qed (use away in simp_all)
qed

text \<open>
  Tenant isolation: whatever other proxies, in the same or in another namespace, look up,
  admit, prune or retire, the breaker cached for a proxy's target stays the same breaker and
  its state does not change; the owner's next lookup with the same configuration returns it
  without touching the cache.
\<close>

theorem breaker_isolated_from_other_proxies:
  assumes "c = fold cache_step history (with_max_entries n)"
    and "separator_free ns" "separator_free pid" and "peek ns pid tk c = Some a"
    and "list_all (elsewhere ns pid) ops"
  shows "let c' = fold cache_step ops c in
         peek ns pid tk c' = Some a \<and> heap c' a = heap c a \<and>
         get_or_create ns pid tk (config (heap c a)) c' = (a, c')"
proof -
  have inv: "cache_inv c" unfolding assms(1) using cache_run [OF cache_inv_new] by blast
  have "peek ns pid tk (fold cache_step ops c) = Some a \<and> heap (fold cache_step ops c) a = heap c a"
    using inv assms(4,5)
  proof (induction ops arbitrary: c)
    case (Cons op ops)
    then show ?case
      using step_elsewhere [OF Cons.prems(1) assms(2,3) Cons.prems(2), of op]
        cache_step_inv [OF Cons.prems(1), of op] by auto
  qed simp
  then show ?thesis
    by (simp add: Let_def get_or_create_def peek_def)
qed

theorem breaker_isolated_from_other_proxies_witness:
  "let cfg = default_CircuitBreakerConfig;
       c = fold cache_step [Get ''a'' ''api'' None cfg] (with_max_entries 2);
       c' = fold cache_step [Get ''b'' ''api'' None cfg, Prune [(''b'', ''api'')]] c
   in peek ''a'' ''api'' None c = Some 0 \<and> peek ''a'' ''api'' None c' = Some 0"
proof -
  let ?cfg = "default_CircuitBreakerConfig"
  let ?c = "fold cache_step [Get ''a'' ''api'' None ?cfg] (with_max_entries 2)"
  have sep: "separator_free ''a''" "separator_free ''api''" "separator_free ''b''"
    by (simp_all add: separator_free_def)
  have peek: "peek ''a'' ''api'' None ?c = Some 0"
    by (simp add: peek_def get_or_create_def with_max_entries_def try_reserve_entry_slot_def alloc_def)
  show ?thesis
    using breaker_isolated_from_other_proxies [OF refl sep(1,2) peek,
        of "[Get ''b'' ''api'' None ?cfg, Prune [(''b'', ''api'')]]"] sep peek
    by (simp add: Let_def)
qed

text \<open>
  A service-discovery publication reclaims exactly the retired targets of its proxy: a
  breaker of the proxy survives if and only if its host and port are among the live targets,
  the proxy-scoped breaker is kept, and every reclaimed entry frees one admission slot.
\<close>

theorem retired_targets_reclaimed:
  "let c = fold cache_step history (with_max_entries n);
       c' = prune_stale_targets_for_proxy ns pid live c
   in peek ns pid (Some (target_key host port)) c' =
        (if (host, port) \<in> set live then peek ns pid (Some (target_key host port)) c else None) \<and>
      peek ns pid None c' = peek ns pid None c \<and>
      len c' = length (breakers c')"
proof -
  let ?c = "fold cache_step history (with_max_entries n)"
  have inv: "cache_inv ?c" using cache_run [OF cache_inv_new] by blast
  have strip: "strip_prefix (namespaced_runtime_key ns pid @ ''::'')
        (circuit_breaker_key ns pid (Some t)) = Some t" for t
    by (simp add: strip_scope_prefix)
  have keep: "strip_prefix (namespaced_runtime_key ns pid @ ''::'') (circuit_breaker_key ns pid None) = None"
    by (simp add: strip_prefix_def circuit_breaker_key_def)
  have live: "target_key host port \<in> set (map (\<lambda>(h, p). target_key h p) live) \<longleftrightarrow> (host, port) \<in> set live"
    by (force simp: target_key_inj)
  have "cache_inv (prune_stale_targets_for_proxy ns pid live ?c)"
    by (simp add: prune_stale_targets_for_proxy_def Let_def retain_inv inv)
  then show ?thesis
    using live by (simp add: Let_def peek_def prune_stale_targets_for_proxy_def peek_retain [OF inv]
        strip keep cache_inv_def len_def)
qed

end
