(* ===== verification/Error_Class.thy ===== *)
theory Error_Class
  imports Ferrum_Prelude
begin

text \<open>
  \<^verbatim>\<open>src/src/retry.rs\<close>, the classification of backend errors: the classes, their labels, whether
  a class means that the request reached the wire, and the closed vocabularies of the
  \<^verbatim>\<open>X-Gateway-Error\<close> header and of the metrics label; and the stream-setup kinds of
  \<^verbatim>\<open>src/src/proxy/stream_error.rs\<close> that classify into them.
\<close>

section \<open>Error classes\<close>

datatype ErrorClass =
    ConnectionTimeout | ConnectionRefused | ConnectionReset | ConnectionClosed | DnsLookupError
  | TlsError | ReadWriteTimeout | ClientDisconnect | ProtocolError | ResponseBodyTooLarge
  | GatewayBufferCapacity | RequestBodyTooLarge | ConnectionPoolError | PortExhaustion
  | GracefulRemoteClose | DispatchPolicyRejected | BackendConnectionLimit | TrustWithdrawn
  | RequestError

fun as_str :: "ErrorClass \<Rightarrow> string" where
  "as_str ConnectionTimeout = ''connection_timeout''"
| "as_str ConnectionRefused = ''connection_refused''"
| "as_str ConnectionReset = ''connection_reset''"
| "as_str ConnectionClosed = ''connection_closed''"
| "as_str DnsLookupError = ''dns_lookup_error''"
| "as_str TlsError = ''tls_error''"
| "as_str ReadWriteTimeout = ''read_write_timeout''"
| "as_str ClientDisconnect = ''client_disconnect''"
| "as_str ProtocolError = ''protocol_error''"
| "as_str ResponseBodyTooLarge = ''response_body_too_large''"
| "as_str GatewayBufferCapacity = ''gateway_buffer_capacity''"
| "as_str RequestBodyTooLarge = ''request_body_too_large''"
| "as_str ConnectionPoolError = ''connection_pool_error''"
| "as_str PortExhaustion = ''port_exhaustion''"
| "as_str GracefulRemoteClose = ''graceful_remote_close''"
| "as_str DispatchPolicyRejected = ''dispatch_policy_rejected''"
| "as_str BackendConnectionLimit = ''backend_connection_limit''"
| "as_str TrustWithdrawn = ''trust_withdrawn''"
| "as_str RequestError = ''request_error''"

definition ALL_ErrorClass :: "ErrorClass list" where
  "ALL_ErrorClass =
     [ConnectionTimeout, ConnectionRefused, ConnectionReset, ConnectionClosed, DnsLookupError,
      TlsError, ReadWriteTimeout, ClientDisconnect, ProtocolError, ResponseBodyTooLarge,
      GatewayBufferCapacity, RequestBodyTooLarge, ConnectionPoolError, PortExhaustion,
      GracefulRemoteClose, DispatchPolicyRejected, BackendConnectionLimit, TrustWithdrawn,
      RequestError]"

fun request_reached_wire :: "ErrorClass \<Rightarrow> bool" where
  "request_reached_wire ConnectionRefused = False"
| "request_reached_wire ConnectionTimeout = False"
| "request_reached_wire DnsLookupError = False"
| "request_reached_wire TlsError = False"
| "request_reached_wire PortExhaustion = False"
| "request_reached_wire ConnectionPoolError = False"
| "request_reached_wire BackendConnectionLimit = False"
| "request_reached_wire TrustWithdrawn = False"
| "request_reached_wire _ = True"

fun error_class_log_kind :: "ErrorClass \<Rightarrow> string" where
  "error_class_log_kind ConnectionRefused = ''connect_failure''"
| "error_class_log_kind ConnectionTimeout = ''connect_timeout''"
| "error_class_log_kind ConnectionReset = ''connection_reset''"
| "error_class_log_kind ConnectionClosed = ''connection_closed''"
| "error_class_log_kind DnsLookupError = ''dns_failure''"
| "error_class_log_kind TlsError = ''tls_error''"
| "error_class_log_kind ReadWriteTimeout = ''read_timeout''"
| "error_class_log_kind ProtocolError = ''protocol_error''"
| "error_class_log_kind PortExhaustion = ''port_exhaustion''"
| "error_class_log_kind ConnectionPoolError = ''pool_error''"
| "error_class_log_kind ClientDisconnect = ''client_disconnect''"
| "error_class_log_kind RequestBodyTooLarge = ''request_body_too_large''"
| "error_class_log_kind ResponseBodyTooLarge = ''response_body_too_large''"
| "error_class_log_kind GatewayBufferCapacity = ''gateway_buffer_capacity''"
| "error_class_log_kind GracefulRemoteClose = ''graceful_remote_close''"
| "error_class_log_kind DispatchPolicyRejected = ''dispatch_policy_rejected''"
| "error_class_log_kind BackendConnectionLimit = ''backend_connection_limit''"
| "error_class_log_kind TrustWithdrawn = ''trust_withdrawn''"
| "error_class_log_kind RequestError = ''request_error''"

section \<open>Closed vocabularies\<close>

definition OBS_CONNECTION_FAILURE :: string where "OBS_CONNECTION_FAILURE = ''connection_failure''"
definition OBS_BACKEND_TIMEOUT :: string where "OBS_BACKEND_TIMEOUT = ''backend_timeout''"
definition OBS_BACKEND_ERROR :: string where "OBS_BACKEND_ERROR = ''backend_error''"
definition OBS_CIRCUIT_BREAKER_OPEN :: string where "OBS_CIRCUIT_BREAKER_OPEN = ''circuit_breaker_open''"
definition OBS_OVERLOAD :: string where "OBS_OVERLOAD = ''overload''"
definition OBS_CONFIG_STALE :: string where "OBS_CONFIG_STALE = ''config_stale''"
definition OBS_CONCURRENCY_LIMIT :: string where "OBS_CONCURRENCY_LIMIT = ''concurrency_limit''"

lemmas obs_defs = OBS_CONNECTION_FAILURE_def OBS_BACKEND_TIMEOUT_def OBS_BACKEND_ERROR_def
  OBS_CIRCUIT_BREAKER_OPEN_def OBS_OVERLOAD_def OBS_CONFIG_STALE_def OBS_CONCURRENCY_LIMIT_def

definition HTTP_OBSERVABILITY_ERROR_CLASSES :: "string list" where
  "HTTP_OBSERVABILITY_ERROR_CLASSES =
     [OBS_CONNECTION_FAILURE, OBS_BACKEND_TIMEOUT, OBS_BACKEND_ERROR, OBS_CIRCUIT_BREAKER_OPEN,
      OBS_OVERLOAD, OBS_CONFIG_STALE, OBS_CONCURRENCY_LIMIT]"

definition HTTP_METRICS_GATEWAY_ERROR_CLASSES :: "string list" where
  "HTTP_METRICS_GATEWAY_ERROR_CLASSES =
     [OBS_CIRCUIT_BREAKER_OPEN, OBS_OVERLOAD, OBS_CONFIG_STALE, OBS_CONCURRENCY_LIMIT,
      OBS_BACKEND_ERROR]"

definition HTTP_METRICS_ERROR_CLASS_BOUND :: nat where
  "HTTP_METRICS_ERROR_CLASS_BOUND = 24"

definition http_observability_error_class :: "bool \<Rightarrow> u16 \<Rightarrow> string option" where
  "http_observability_error_class connection_error status =
     (if connection_error then Some OBS_CONNECTION_FAILURE
      else if status = 504 then Some OBS_BACKEND_TIMEOUT
      else if 500 \<le> status then Some OBS_BACKEND_ERROR
      else None)"

definition x_gateway_error_token_for_class :: "ErrorClass \<Rightarrow> string" where
  "x_gateway_error_token_for_class class =
     (if \<not> request_reached_wire class then OBS_CONNECTION_FAILURE
      else if class = ReadWriteTimeout then OBS_BACKEND_TIMEOUT
      else OBS_BACKEND_ERROR)"

definition token_for_rejection_phase :: "string \<Rightarrow> string option" where
  "token_for_rejection_phase phase =
     (if phase = ''circuit_breaker_open'' \<or> phase = ''circuit_breaker''
        then Some OBS_CIRCUIT_BREAKER_OPEN
      else if phase = ''adaptive_concurrency'' then Some OBS_CONCURRENCY_LIMIT
      else if phase = ''overload'' then Some OBS_OVERLOAD
      else if phase = ''config_stale'' then Some OBS_CONFIG_STALE
      else None)"

definition intern_http_observability_error_class :: "string \<Rightarrow> string option" where
  "intern_http_observability_error_class value =
     find (\<lambda>token. token = value) HTTP_OBSERVABILITY_ERROR_CLASSES"

definition intern_http_metrics_error_class :: "string \<Rightarrow> string option" where
  "intern_http_metrics_error_class value =
     (case find (\<lambda>class. as_str class = value) ALL_ErrorClass of
        Some class \<Rightarrow> Some (as_str class)
      | None \<Rightarrow> find (\<lambda>token. token = value) HTTP_METRICS_GATEWAY_ERROR_CLASSES)"

definition http_metrics_error_class :: "ErrorClass option \<Rightarrow> u16 \<Rightarrow> string option \<Rightarrow> string option" where
  "http_metrics_error_class error_class status rejection_phase =
     (if status < 500 then None
      else case error_class of
        Some class \<Rightarrow> Some (as_str class)
      | None \<Rightarrow>
          (case Option.bind rejection_phase token_for_rejection_phase of
             Some token \<Rightarrow> Some token
           | None \<Rightarrow> Some OBS_BACKEND_ERROR))"

definition http_log_error_class :: "ErrorClass option \<Rightarrow> string option" where
  "http_log_error_class error_class = map_option as_str error_class"

section \<open>Stream setup kinds\<close>

datatype TlsErrorSide = Frontend | Backend

datatype StreamSetupKind =
    FrontendTlsHandshake | BackendTlsHandshake | BackendDtlsHandshake | RejectedByPlugin
  | ClientDisconnectedDuringAdmission | DnsLookup | NoHealthyTargets | CircuitBreakerOpen
  | BackendMaxConnectionsExceeded | UnsupportedStreamPolicy | AuthorizationExpired
  | ClientTrustWithdrawn | SniAdmissionRefused

datatype Direction = ClientToBackend | BackendToClient | Unknown

datatype DisconnectCause = IdleTimeout | RecvError | BackendError | GracefulShutdown | GatewayPolicy

fun tls_side :: "StreamSetupKind \<Rightarrow> TlsErrorSide option" where
  "tls_side FrontendTlsHandshake = Some Frontend"
| "tls_side BackendTlsHandshake = Some Backend"
| "tls_side BackendDtlsHandshake = Some Backend"
| "tls_side _ = None"

definition is_client_side :: "StreamSetupKind \<Rightarrow> bool" where
  "is_client_side kind =
     (case tls_side kind of
        Some side \<Rightarrow> side = Frontend
      | None \<Rightarrow> kind \<in> {RejectedByPlugin, ClientDisconnectedDuringAdmission, AuthorizationExpired,
                      ClientTrustWithdrawn, SniAdmissionRefused})"

definition direction :: "StreamSetupKind \<Rightarrow> Direction" where
  "direction kind =
     (if kind = SniAdmissionRefused then Unknown
      else if is_client_side kind then ClientToBackend
      else BackendToClient)"

definition disconnect_cause :: "StreamSetupKind \<Rightarrow> DisconnectCause" where
  "disconnect_cause kind =
     (if kind = SniAdmissionRefused then GatewayPolicy
      else if is_client_side kind then RecvError
      else BackendError)"

fun classify_stream_setup_kind :: "StreamSetupKind \<Rightarrow> ErrorClass" where
  "classify_stream_setup_kind FrontendTlsHandshake = TlsError"
| "classify_stream_setup_kind BackendTlsHandshake = TlsError"
| "classify_stream_setup_kind BackendDtlsHandshake = TlsError"
| "classify_stream_setup_kind DnsLookup = DnsLookupError"
| "classify_stream_setup_kind SniAdmissionRefused = DispatchPolicyRejected"
| "classify_stream_setup_kind _ = RequestError"

section \<open>Properties\<close>

lemma set_ALL: "class \<in> set ALL_ErrorClass"
  by (cases "class") (simp_all add: ALL_ErrorClass_def)

definition metrics_labels :: "string list" where
  "metrics_labels = map as_str ALL_ErrorClass @ HTTP_METRICS_GATEWAY_ERROR_CLASSES"

lemmas vocabulary_defs = metrics_labels_def ALL_ErrorClass_def HTTP_METRICS_GATEWAY_ERROR_CLASSES_def
  HTTP_OBSERVABILITY_ERROR_CLASSES_def obs_defs

lemma token_in_gateway:
  "token_for_rejection_phase phase = Some token \<Longrightarrow> token \<in> set HTTP_METRICS_GATEWAY_ERROR_CLASSES"
  by (auto simp: token_for_rejection_phase_def HTTP_METRICS_GATEWAY_ERROR_CLASSES_def split: if_splits)

lemma find_self: "find (\<lambda>t. t = v) xs = (if v \<in> set xs then Some v else None)"
  by (induction xs) auto

lemma intern_metrics: "intern_http_metrics_error_class v = (if v \<in> set metrics_labels then Some v else None)"
proof (cases "find (\<lambda>class. as_str class = v) ALL_ErrorClass")
  case None
  then have "v \<notin> as_str ` set ALL_ErrorClass" by (auto simp: find_None_iff)
  with None show ?thesis
    by (simp add: intern_http_metrics_error_class_def metrics_labels_def find_self)
next
  case (Some c)
  then have "as_str c = v" by (auto simp: find_Some_iff)
  with Some set_ALL [of c] show ?thesis
    by (auto simp: intern_http_metrics_error_class_def metrics_labels_def)
qed

text \<open>
  The metrics label of a transaction is drawn from a closed vocabulary of exactly 24
  distinct strings, whatever rejection phase the request carries; the label is present on
  every 5xx and on nothing else, and the interning function accepts exactly that vocabulary.
\<close>

theorem metrics_label_closed:
  "distinct metrics_labels \<and> length metrics_labels = HTTP_METRICS_ERROR_CLASS_BOUND \<and>
   (case http_metrics_error_class ec status phase of
      None \<Rightarrow> status < 500
    | Some l \<Rightarrow> 500 \<le> status \<and> intern_http_metrics_error_class l = Some l) \<and>
   (intern_http_metrics_error_class v = Some v \<longleftrightarrow> v \<in> set metrics_labels)"
proof -
  have "distinct metrics_labels" "length metrics_labels = HTTP_METRICS_ERROR_CLASS_BOUND"
    by (simp_all add: vocabulary_defs HTTP_METRICS_ERROR_CLASS_BOUND_def)
  moreover have "case http_metrics_error_class ec status phase of
      None \<Rightarrow> status < 500
    | Some l \<Rightarrow> 500 \<le> status \<and> intern_http_metrics_error_class l = Some l"
    using token_in_gateway set_ALL
    by (auto simp: http_metrics_error_class_def intern_metrics metrics_labels_def not_less
        HTTP_METRICS_GATEWAY_ERROR_CLASSES_def bind_eq_Some_conv split: option.splits)
  ultimately show ?thesis by (simp add: intern_metrics)
qed

text \<open>
  The header token of a granular class agrees with the one derived from the response state
  when the flag is computed from the class and a timeout is answered with 504.
\<close>

lemma header_token_agrees:
  assumes "connection_error \<longleftrightarrow> \<not> request_reached_wire class"
    and "status = (if class = ReadWriteTimeout then 504 else 502)"
  shows "http_observability_error_class connection_error status =
           Some (x_gateway_error_token_for_class class)"
  using assms by (simp add: http_observability_error_class_def x_gateway_error_token_for_class_def)

lemma setup_kind_sides:
  "tls_side kind = Some Frontend \<Longrightarrow> direction kind = ClientToBackend"
  "tls_side kind = Some Backend \<Longrightarrow> direction kind = BackendToClient"
  "direction kind = ClientToBackend \<longleftrightarrow> disconnect_cause kind = RecvError"
  "direction kind = BackendToClient \<longleftrightarrow> disconnect_cause kind = BackendError"
  "classify_stream_setup_kind kind = TlsError \<longleftrightarrow> tls_side kind \<noteq> None"
  by (cases kind; simp add: direction_def disconnect_cause_def is_client_side_def)+

end
