(* ===== verification/Breaker_Outcome.thy ===== *)
theory Breaker_Outcome
  imports Circuit_Breaker Error_Class
begin

text \<open>
  How dispatch reports to a breaker: the classification of a backend outcome and its
  application (\<^verbatim>\<open>src/src/proxy/backend_dispatch.rs\<close>), the deferred form with its epoch check, the
  gRPC status form, and the guard that owns a half-open probe slot until one path settles it
  (\<^verbatim>\<open>HalfOpenProbeGuard\<close> of \<^verbatim>\<open>src/src/proxy/mod.rs\<close>).
\<close>

section \<open>Classifying and applying an outcome\<close>

definition client_side_no_backend_signal :: "ErrorClass option \<Rightarrow> bool" where
  "client_side_no_backend_signal ec \<longleftrightarrow>
     ec \<in> {Some ClientDisconnect, Some RequestBodyTooLarge, Some DispatchPolicyRejected,
           Some GatewayBufferCapacity, Some BackendConnectionLimit, Some TrustWithdrawn}"

definition error_class_is_post_wire_backend_failure :: "ErrorClass option \<Rightarrow> bool" where
  "error_class_is_post_wire_backend_failure ec \<longleftrightarrow>
     ec \<in> {Some ReadWriteTimeout, Some ConnectionReset, Some ConnectionClosed,
           Some ProtocolError, Some ResponseBodyTooLarge}"

definition apply_circuit_breaker_outcome ::
  "u64 \<times> u64 \<Rightarrow> u16 \<Rightarrow> bool \<Rightarrow> ErrorClass option \<Rightarrow> bool \<Rightarrow> CircuitBreaker \<Rightarrow> CircuitBreaker" where
  "apply_circuit_breaker_outcome now response_status connection_error ec is_half_open_probe cb =
     (if client_side_no_backend_signal ec then record_neutral is_half_open_probe cb
      else if connection_error then record_failure now response_status True is_half_open_probe cb
      else if response_status \<in> set (failure_status_codes (config cb)) then
        record_failure now response_status False is_half_open_probe cb
      else if error_class_is_post_wire_backend_failure ec then
        record_failure now response_status True is_half_open_probe cb
      else record_success is_half_open_probe cb)"

definition apply_deferred_circuit_breaker_outcome ::
  "u64 \<times> u64 \<Rightarrow> u16 \<Rightarrow> bool \<Rightarrow> ErrorClass option \<Rightarrow> bool \<Rightarrow> u64 \<Rightarrow> CircuitBreaker \<Rightarrow> CircuitBreaker"
  where
  "apply_deferred_circuit_breaker_outcome now response_status connection_error ec
       is_half_open_probe admission_open_epoch cb =
     (if open_epoch cb \<noteq> admission_open_epoch then record_neutral is_half_open_probe cb
      else apply_circuit_breaker_outcome now response_status connection_error ec
             is_half_open_probe cb)"

definition circuit_breaker_outcome_is_failure ::
  "u16 list \<Rightarrow> u16 \<Rightarrow> bool \<Rightarrow> ErrorClass option \<Rightarrow> bool" where
  "circuit_breaker_outcome_is_failure codes response_status connection_error ec =
     (if client_side_no_backend_signal ec then False
      else connection_error \<or> response_status \<in> set codes \<or>
           error_class_is_post_wire_backend_failure ec)"

definition record_grpc_backend_status_outcome ::
  "u64 \<times> u64 \<Rightarrow> u16 \<Rightarrow> bool \<Rightarrow> CircuitBreaker \<Rightarrow> CircuitBreaker" where
  "record_grpc_backend_status_outcome now backend_status is_half_open_probe cb =
     (if backend_status \<in> set (failure_status_codes (config cb))
      then record_failure now backend_status False is_half_open_probe cb
      else record_success is_half_open_probe cb)"

text \<open>The deferred staleness check against the breaker currently cached, if any.\<close>

definition deferred_circuit_breaker_is_stale ::
  "CircuitBreakerConfig option \<Rightarrow> CircuitBreaker option \<Rightarrow> u64 \<Rightarrow> bool" where
  "deferred_circuit_breaker_is_stale proxy_config cached admission_open_epoch =
     (case proxy_config of
        None \<Rightarrow> False
      | Some cfg \<Rightarrow>
          (case cached of
             Some cb \<Rightarrow> if config cb = cfg then open_epoch cb \<noteq> admission_open_epoch else True
           | None \<Rightarrow> True))"

section \<open>Properties of the classification\<close>

lemma neutral_refines:
  assumes "wf_breaker cb"
  shows "abs_breaker (record_neutral probe cb) = spec_release probe (abs_breaker cb)"
    and "wf_breaker (record_neutral probe cb)" and "config (record_neutral probe cb) = config cb"
proof -
  have "record_neutral probe cb = release_if probe cb"
    by (simp add: record_neutral_def release_if_def)
  then show "abs_breaker (record_neutral probe cb) = spec_release probe (abs_breaker cb)"
    "wf_breaker (record_neutral probe cb)" "config (record_neutral probe cb) = config cb"
    using release_refines [OF assms] by simp_all
qed

lemma spec_release_frame:
  "generation (spec_release probe s) = generation s"
  "failures (spec_release probe s) = failures s"
  "successes (spec_release probe s) = successes s"
  "failure_tick (spec_release probe s) = failure_tick s"
  by (simp_all add: spec_release_def split: phase.splits)

lemma classification_exhaustive:
  "apply_circuit_breaker_outcome now status conn ec probe cb =
     (if circuit_breaker_outcome_is_failure (failure_status_codes (config cb)) status conn ec
      then record_failure now status (conn \<or> status \<notin> set (failure_status_codes (config cb))) probe cb
      else if client_side_no_backend_signal ec then record_neutral probe cb
      else record_success probe cb)"
  by (simp add: apply_circuit_breaker_outcome_def circuit_breaker_outcome_is_failure_def)

text \<open>
  C32. Only an outcome that the predicate of the streaming recorder calls a failure can open a
  breaker or add to its failure streak: after any other outcome the open generation is
  unchanged, the breaker is not newly open, and the failure count is unchanged or zero.
\<close>

theorem only_failure_outcomes_open:
  assumes "wf_breaker cb"
    and "\<not> circuit_breaker_outcome_is_failure (failure_status_codes (config cb)) status conn ec"
  shows "let s = abs_breaker cb;
             s' = abs_breaker (apply_circuit_breaker_outcome now status conn ec probe cb)
         in generation s' = generation s \<and> (phase s' = Open \<longleftrightarrow> phase s = Open) \<and>
            (failures s' = failures s \<or> failures s' = 0)"
proof (cases "client_side_no_backend_signal ec")
  case True
  with assms show ?thesis
    by (auto simp: classification_exhaustive neutral_refines(1) spec_release_frame Let_def)
      (auto simp: spec_release_def split: phase.splits if_splits)
next
  case False
  with assms show ?thesis
    by (auto simp: classification_exhaustive record_success_refines spec_success_def Let_def
        spec_release_frame spec_release_def split: phase.splits)
qed

theorem only_failure_outcomes_open_witness:
  "let cb = new_CircuitBreaker default_CircuitBreakerConfig in
   wf_breaker cb \<and>
   \<not> circuit_breaker_outcome_is_failure (failure_status_codes (config cb)) 503 True
       (Some BackendConnectionLimit) \<and>
   generation (abs_breaker (apply_circuit_breaker_outcome (1, 1) 503 True
       (Some BackendConnectionLimit) False cb)) = generation (abs_breaker cb)"
proof -
  have "\<not> circuit_breaker_outcome_is_failure codes 503 True (Some BackendConnectionLimit)" for codes
    by (simp add: circuit_breaker_outcome_is_failure_def client_side_no_backend_signal_def)
  then show ?thesis
    using only_failure_outcomes_open [OF wf_new, of default_CircuitBreakerConfig 503 True
        "Some BackendConnectionLimit" "(1, 1)" False] wf_new
    by (simp add: Let_def)
qed

text \<open>
  A deferred outcome that was admitted under another open generation moves no health
  state: the breaker stays well formed, its generation, its failure and success counts and
  its failure tick are untouched, it neither opens nor closes, and at most one in-flight
  probe is given back.
\<close>

theorem stale_deferred_outcome_is_neutral:
  assumes "wf_breaker cb" and "open_epoch cb \<noteq> admission_open_epoch"
  shows "let cb' = apply_deferred_circuit_breaker_outcome now status conn ec probe admission_open_epoch cb in
         wf_breaker cb' \<and> abs_breaker cb' = spec_release probe (abs_breaker cb)"
  using assms by (simp add: apply_deferred_circuit_breaker_outcome_def neutral_refines)

theorem stale_deferred_outcome_is_neutral_witness:
  "let cb = new_CircuitBreaker default_CircuitBreakerConfig in
   wf_breaker cb \<and> open_epoch cb \<noteq> 7 \<and>
   abs_breaker (apply_deferred_circuit_breaker_outcome (1, 1) 503 True None True 7 cb) = abs_breaker cb"
proof -
  let ?cb = "new_CircuitBreaker default_CircuitBreakerConfig"
  have epoch: "open_epoch ?cb \<noteq> 7"
    by (simp add: open_epoch_def new_CircuitBreaker_def codec)
  have "spec_release True (abs_breaker ?cb) = abs_breaker ?cb"
    by (simp add: abs_new spec_release_def)
  then show ?thesis
    using stale_deferred_outcome_is_neutral [OF wf_new epoch, of "(1, 1)" 503 True None True]
      epoch wf_new by (simp add: Let_def)
qed

section \<open>The probe guard\<close>

text \<open>
  Breakers are named by their index in a store, so that a guard and its breaker share it as
  the source's \<^verbatim>\<open>Arc\<close> does.
\<close>

type_synonym breaker_store = "nat \<Rightarrow> CircuitBreaker"

record HalfOpenProbeGuard =
  guard_cb :: "nat option"
  armed :: bool

definition guard_none :: HalfOpenProbeGuard where
  "guard_none = \<lparr>guard_cb = None, armed = False\<rparr>"

text \<open>\<open>resolved\<close> is the cached breaker of the proxy, \<open>None\<close> when it configures no breaker.\<close>

definition guard_new :: "nat option \<Rightarrow> bool \<Rightarrow> HalfOpenProbeGuard" where
  "guard_new resolved is_half_open_probe =
     (if \<not> is_half_open_probe then guard_none
      else case resolved of None \<Rightarrow> guard_none | Some cb \<Rightarrow> \<lparr>guard_cb = Some cb, armed = True\<rparr>)"

definition for_admitted_probe :: "nat \<Rightarrow> bool \<Rightarrow> HalfOpenProbeGuard" where
  "for_admitted_probe cb is_half_open_probe =
     \<lparr>guard_cb = (if is_half_open_probe then Some cb else None), armed = is_half_open_probe\<rparr>"

definition take_slot :: "HalfOpenProbeGuard \<Rightarrow> bool \<times> HalfOpenProbeGuard" where
  "take_slot g = (armed g, g\<lparr>armed := False\<rparr>)"

definition disarm :: "HalfOpenProbeGuard \<Rightarrow> HalfOpenProbeGuard" where
  "disarm g = g\<lparr>armed := False\<rparr>"

definition release_neutral ::
  "HalfOpenProbeGuard \<times> breaker_store \<Rightarrow> HalfOpenProbeGuard \<times> breaker_store" where
  "release_neutral gs =
     (case gs of (g, store) \<Rightarrow>
        (let (taken, g) = take_slot g in
         case guard_cb g of
           Some cb \<Rightarrow> if taken then (g, store(cb := record_neutral True (store cb))) else (g, store)
         | None \<Rightarrow> (g, store)))"

definition guard_drop ::
  "HalfOpenProbeGuard \<times> breaker_store \<Rightarrow> HalfOpenProbeGuard \<times> breaker_store" where
  "guard_drop gs =
     (case gs of (g, store) \<Rightarrow>
        (case guard_cb g of
           Some cb \<Rightarrow>
             if armed g then (g\<lparr>armed := False\<rparr>, store(cb := record_neutral True (store cb)))
             else (g\<lparr>armed := False\<rparr>, store)
         | None \<Rightarrow> (g\<lparr>armed := False\<rparr>, store)))"

definition rearm ::
  "nat \<Rightarrow> bool \<Rightarrow> HalfOpenProbeGuard \<times> breaker_store \<Rightarrow> HalfOpenProbeGuard \<times> breaker_store" where
  "rearm cb is_half_open_probe gs =
     (let (old, store) = release_neutral gs;
          (_, store) = guard_drop (old, store)
      in (for_admitted_probe cb is_half_open_probe, store))"

text \<open>
  What a request does with its guard. \<open>Take_Slot\<close> hands the slot to one explicit record and
  \<open>Disarm\<close> to a deferred recorder; the other operations settle a held slot themselves.
\<close>

datatype guard_op = Take_Slot | Disarm | Release_Neutral | Rearm nat bool | Drop

fun guard_step ::
  "guard_op \<Rightarrow> HalfOpenProbeGuard \<times> breaker_store \<Rightarrow> HalfOpenProbeGuard \<times> breaker_store" where
  "guard_step Take_Slot (g, store) = (snd (take_slot g), store)"
| "guard_step Disarm (g, store) = (disarm g, store)"
| "guard_step Release_Neutral gs = release_neutral gs"
| "guard_step (Rearm cb probe) gs = rearm cb probe gs"
| "guard_step Drop gs = guard_drop gs"

text \<open>The slots an operation adopts, the slot a guard holds, and the slots it hands over.\<close>

fun granted :: "guard_op \<Rightarrow> nat list" where
  "granted (Rearm cb True) = [cb]"
| "granted _ = []"

definition held :: "HalfOpenProbeGuard \<Rightarrow> nat list" where
  "held g = (if armed g then [the (guard_cb g)] else [])"

fun handed_over :: "guard_op \<Rightarrow> HalfOpenProbeGuard \<Rightarrow> nat list" where
  "handed_over Take_Slot g = (if fst (take_slot g) then [the (guard_cb g)] else [])"
| "handed_over Disarm g = held g"
| "handed_over _ g = []"

fun guard_run ::
  "guard_op list \<Rightarrow> HalfOpenProbeGuard \<times> breaker_store \<Rightarrow> nat list \<times> (HalfOpenProbeGuard \<times> breaker_store)"
  where
  "guard_run [] gs = ([], gs)"
| "guard_run (op # ops) gs =
     (let (handed, gs') = guard_run ops (guard_step op gs) in (handed_over op (fst gs) @ handed, gs'))"

definition guard_inv :: "HalfOpenProbeGuard \<Rightarrow> bool" where
  "guard_inv g \<longleftrightarrow> (armed g \<longrightarrow> guard_cb g \<noteq> None)"

lemmas guard_defs = take_slot_def disarm_def release_neutral_def rearm_def guard_drop_def
  for_admitted_probe_def held_def guard_inv_def split_beta Let_def

lemma guard_step_inv: "guard_inv (fst (guard_step op gs))"
  by (cases op; cases gs; auto simp: guard_defs split: option.splits)

lemma guard_step_ledger:
  assumes "guard_inv g"
  shows "\<exists>n. snd (guard_step op (g, store)) cb = (record_neutral True ^^ n) (store cb) \<and>
    n + count_list (handed_over op g) cb + count_list (held (fst (guard_step op (g, store)))) cb =
    count_list (held g) cb + count_list (granted op) cb"
proof -
  let ?n = "if (case op of Release_Neutral \<Rightarrow> True | Drop \<Rightarrow> True | Rearm _ _ \<Rightarrow> True | _ \<Rightarrow> False) \<and>
    armed g \<and> guard_cb g = Some cb then 1 else 0"
  show ?thesis
    using assms
    by (intro exI [of _ ?n], cases op)
      (auto simp: guard_defs split: option.splits elim: granted.elims)
qed

lemma guard_run_ledger:
  assumes "guard_inv (fst gs)"
  shows "\<exists>n. snd (snd (guard_run ops gs)) cb = (record_neutral True ^^ n) (snd gs cb) \<and>
    n + count_list (fst (guard_run ops gs)) cb + count_list (held (fst (snd (guard_run ops gs)))) cb =
    count_list (held (fst gs)) cb + count_list (concat (map granted ops)) cb"
  using assms
proof (induction ops arbitrary: gs)
  case (Cons op ops)
  obtain g store where gs: "gs = (g, store)" by fastforce
  obtain n where n: "snd (guard_step op (g, store)) cb = (record_neutral True ^^ n) (store cb)"
      "n + count_list (handed_over op g) cb + count_list (held (fst (guard_step op (g, store)))) cb =
       count_list (held g) cb + count_list (granted op) cb"
    using guard_step_ledger Cons.prems gs by (metis fst_conv)
  obtain m where m: "snd (snd (guard_run ops (guard_step op gs))) cb =
        (record_neutral True ^^ m) (snd (guard_step op gs) cb)"
      "m + count_list (fst (guard_run ops (guard_step op gs))) cb +
         count_list (held (fst (snd (guard_run ops (guard_step op gs))))) cb =
       count_list (held (fst (guard_step op gs))) cb + count_list (concat (map granted ops)) cb"
    using Cons.IH [OF guard_step_inv] by blast
  show ?case
    using n m by (intro exI [of _ "m + n"]) (auto simp: gs split_beta Let_def funpow_add)
qed (auto intro: exI [of _ 0])

text \<open>
  C29. Whatever a request does with its guard before it is dropped, every probe slot it was
  granted is settled exactly once: for each breaker, the neutral releases the guard performs
  on it and the slots it hands to a recorder together number exactly the slots granted there.
  A slot is neither leaked nor released twice.
\<close>

theorem guard_settles_exactly_once:
  "let (handed, (g, store')) = guard_run (ops @ [Drop]) (for_admitted_probe first probe, store);
       grants = (if probe then [first] else []) @ concat (map granted ops)
   in \<not> armed g \<and> count_list handed cb \<le> count_list grants cb \<and>
      store' cb = (record_neutral True ^^ (count_list grants cb - count_list handed cb)) (store cb)"
proof -
  let ?g = "for_admitted_probe first probe"
  let ?r = "guard_run (ops @ [Drop]) (?g, store)"
  have inv: "guard_inv (fst (?g, store))" by (simp add: guard_defs)
  have unarmed: "\<not> armed (fst (snd (guard_run (ops @ [Drop]) gs)))" for gs
    by (induction ops arbitrary: gs) (auto simp: split_beta Let_def guard_drop_def split: option.splits)
  obtain n where n: "snd (snd ?r) cb = (record_neutral True ^^ n) (store cb)"
    "n + count_list (fst ?r) cb =
       count_list ((if probe then [first] else []) @ concat (map granted ops)) cb"
    using guard_run_ledger [OF inv, of "ops @ [Drop]" cb] unarmed [of "(?g, store)"]
    by (auto simp: held_def for_admitted_probe_def)
  from n(2) have "n = count_list ((if probe then [first] else []) @ concat (map granted ops)) cb -
      count_list (fst ?r) cb" by linarith
  with n show ?thesis
    using unarmed [of "(?g, store)"] unfolding Let_def split_beta by (metis le_add2)
qed

end
