(* ===== verification/Retry.thy ===== *)
theory Retry
  imports Error_Class
begin

text \<open>
  \<^verbatim>\<open>src/src/retry.rs\<close>, the retry policy: when a response is retried, when a configuration can
  retry at all (which decides whether a request body has to be buffered), and the backoff
  delay with its counter-based jitter. The configuration is \<^verbatim>\<open>RetryConfig\<close> of
  \<^verbatim>\<open>src/src/config/types.rs\<close>.
\<close>

datatype BackoffStrategy = Fixed u64 | Exponential u64 u64

record RetryConfig =
  max_retries :: u32
  retryable_status_codes :: "u16 list"
  retryable_methods :: "string list"
  backoff :: BackoffStrategy
  retry_on_connect_failure :: bool

definition default_BackoffStrategy :: BackoffStrategy where
  "default_BackoffStrategy = Fixed 100"

definition default_RetryConfig :: RetryConfig where
  "default_RetryConfig =
     \<lparr>max_retries = 3, retryable_status_codes = [],
      retryable_methods = [''GET'', ''HEAD'', ''OPTIONS'', ''PUT'', ''DELETE''],
      backoff = default_BackoffStrategy, retry_on_connect_failure = True\<rparr>"

text \<open>The streaming bodies are handles of the transports and carry no bytes here.\<close>

datatype ResponseBody = Buffered string | Streaming | StreamingH2 | StreamingH3

record BackendResponse =
  status_code :: u16
  body :: ResponseBody
  headers :: "(string \<times> string) list"
  connection_error :: bool
  backend_resolved_ip :: "string option"
  error_class :: "ErrorClass option"

definition body_bytes :: "BackendResponse \<Rightarrow> string" where
  "body_bytes response = (case body response of Buffered b \<Rightarrow> b | _ \<Rightarrow> [])"

definition into_buffered_body :: "BackendResponse \<Rightarrow> string" where
  "into_buffered_body response = (case body response of Buffered b \<Rightarrow> b | _ \<Rightarrow> [])"

definition should_retry :: "RetryConfig \<Rightarrow> string \<Rightarrow> BackendResponse \<Rightarrow> u32 \<Rightarrow> bool" where
  "should_retry config method response attempt =
     (if max_retries config \<le> attempt then False
      else if error_class response \<in>
          {Some ClientDisconnect, Some DispatchPolicyRejected, Some RequestBodyTooLarge,
           Some ResponseBodyTooLarge, Some GatewayBufferCapacity} then False
      else if connection_error response then retry_on_connect_failure config
      else if \<not> list_ex (\<lambda>m. eq_ignore_ascii_case m method) (retryable_methods config) then False
      else status_code response \<in> set (retryable_status_codes config))"

definition can_retry_connection_failures :: "RetryConfig option \<Rightarrow> bool" where
  "can_retry_connection_failures config =
     (case config of None \<Rightarrow> False
      | Some config \<Rightarrow> 0 < max_retries config \<and> retry_on_connect_failure config)"

definition can_retry_http_statuses :: "RetryConfig option \<Rightarrow> string \<Rightarrow> bool" where
  "can_retry_http_statuses config method =
     (case config of None \<Rightarrow> False
      | Some config \<Rightarrow>
          0 < max_retries config \<and> retryable_status_codes config \<noteq> [] \<and>
          list_ex (\<lambda>candidate. eq_ignore_ascii_case candidate method) (retryable_methods config))"

definition has_effective_http_retries :: "RetryConfig option \<Rightarrow> string \<Rightarrow> bool" where
  "has_effective_http_retries config method \<longleftrightarrow>
     can_retry_connection_failures config \<or> can_retry_http_statuses config method"

text \<open>
  The delay in milliseconds; \<open>counter\<close> is the value of the process-wide jitter counter, which
  only the exponential arm advances.
\<close>

definition retry_delay :: "RetryConfig \<Rightarrow> u32 \<Rightarrow> u64 \<Rightarrow> u64 \<times> u64" where
  "retry_delay config attempt counter =
     (case backoff config of
        Fixed delay_ms \<Rightarrow> (delay_ms, counter)
      | Exponential base_ms max_ms \<Rightarrow>
          (let delay = saturating_mul base_ms (saturating_pow 2 (unat attempt));
               capped = min delay max_ms;
               hash = counter * 6364136223846793005 + 1442695040888963407;
               jitter_range = capped;
               jitter_offset = (if 0 < jitter_range then hash mod jitter_range else 0);
               jittered = saturating_add (capped div 2) jitter_offset
           in (min jittered max_ms, counter + 1)))"

section \<open>Properties\<close>

lemma should_retry_effective:
  "should_retry config method response attempt \<Longrightarrow> has_effective_http_retries (Some config) method"
  by (auto simp: should_retry_def has_effective_http_retries_def can_retry_connection_failures_def
      can_retry_http_statuses_def word_gt_0 not_le split: if_splits)

definition plain_response :: "u16 \<Rightarrow> bool \<Rightarrow> BackendResponse" where
  "plain_response status conn =
     \<lparr>status_code = status, body = Streaming, headers = [], connection_error = conn,
      backend_resolved_ip = None, error_class = None\<rparr>"

lemma effective_should_retry:
  assumes "has_effective_http_retries (Some config) method"
  shows "\<exists>response. should_retry config method response 0"
proof (cases "can_retry_connection_failures (Some config)")
  case True
  then have "should_retry config method (plain_response 502 True) 0"
    by (auto simp: should_retry_def can_retry_connection_failures_def plain_response_def)
  then show ?thesis ..
next
  case False
  with assms have *: "can_retry_http_statuses (Some config) method"
    by (simp add: has_effective_http_retries_def)
  then have "should_retry config method (plain_response (hd (retryable_status_codes config)) False) 0"
    by (auto simp: should_retry_def can_retry_http_statuses_def plain_response_def)
  then show ?thesis ..
qed

text \<open>
  The guard that decides whether a request must stay replayable is exact: it holds
  for a configuration and a method if and only if some backend response, at some attempt,
  would be retried. A false answer therefore never disables a retry that would have happened,
  and a true answer never buffers a request that no response could replay.
\<close>

theorem effective_retries_exact:
  "has_effective_http_retries (Some config) method \<longleftrightarrow>
     (\<exists>response attempt. should_retry config method response attempt)"
  using should_retry_effective effective_should_retry by blast

text \<open>A request that may have been processed is replayed only for a configured method.\<close>

lemma retry_reached_wire_idempotent:
  assumes "should_retry config method response attempt" and "error_class response = Some class"
    and "connection_error response \<longleftrightarrow> \<not> request_reached_wire class" and "request_reached_wire class"
  shows "list_ex (\<lambda>m. eq_ignore_ascii_case m method) (retryable_methods config)"
    and "status_code response \<in> set (retryable_status_codes config)"
  using assms by (auto simp: should_retry_def split: if_splits)

section \<open>The retry loop\<close>

text \<open>
  A dispatch with its retries: attempt \<open>n\<close> is answered by \<open>respond n\<close>, and the loop stops at the
  first response that is not retried. The counter of the loop starts at 0 and is the
  \<open>attempt\<close> argument of \<^verbatim>\<open>should_retry\<close>.
\<close>

primrec attempts :: "nat \<Rightarrow> RetryConfig \<Rightarrow> string \<Rightarrow> (nat \<Rightarrow> BackendResponse) \<Rightarrow> u32 \<Rightarrow> nat option" where
  "attempts 0 config method respond attempt = None"
| "attempts (Suc fuel) config method respond attempt =
     (if should_retry config method (respond (unat attempt)) attempt
      then map_option Suc (attempts fuel config method respond (attempt + 1))
      else Some 1)"

lemma attempts_bound:
  assumes "unat (max_retries config) - unat attempt < fuel"
  shows "\<exists>n. attempts fuel config method respond attempt = Some n \<and>
             n \<le> Suc (unat (max_retries config) - unat attempt)"
  using assms
proof (induction fuel arbitrary: attempt)
  case (Suc fuel)
  show ?case
  proof (cases "should_retry config method (respond (unat attempt)) attempt")
    case True
    then have less: "attempt < max_retries config"
      by (auto simp: should_retry_def not_le split: if_splits)
    then have "unat (attempt + 1) = Suc (unat attempt)"
      using unat_Suc_less by blast
    moreover from less have "unat attempt < unat (max_retries config)"
      by (simp add: word_less_nat_alt)
    ultimately show ?thesis
      using Suc.IH [of "attempt + 1"] Suc.prems True by fastforce
  qed simp
qed simp


section \<open>Backoff\<close>

lemma unat_min: "unat (min a b) = min (unat a) (unat (b :: 'a::len word))"
  by (simp add: min_def word_le_nat_alt)

lemma jitter_bound:
  "unat (if 0 < r then h mod r else 0) \<le> unat (r :: 'a::len word) - (if r = 0 then 0 else 1)"
proof (cases "r = 0")
  case False
  then have "unat (h mod r) < unat r"
    by (simp add: unat_mod unat_gt_0)
  with False show ?thesis by (simp add: word_gt_0)
qed (simp add: word_gt_0)

text \<open>
  The exponential delay never exceeds its ceiling, whatever the attempt number: the
  doubling saturates instead of overflowing, and the jittered delay lies between half and
  one and a half times the capped exponential delay.
\<close>

theorem exponential_delay_bounds:
  assumes "backoff config = Exponential base_ms max_ms"
  shows "let d = unat (fst (retry_delay config attempt counter));
             capped = min (min (unat base_ms * min (2 ^ unat attempt) (2 ^ 64 - 1)) (2 ^ 64 - 1)) (unat max_ms)
         in d \<le> unat max_ms \<and> capped div 2 \<le> d \<and> 2 * d \<le> 3 * capped"
proof -
  define c where "c = min (saturating_mul base_ms (saturating_pow 2 (unat attempt))) max_ms"
  define j where "j = (if 0 < c then (counter * 6364136223846793005 + 1442695040888963407) mod c else 0)"
  have delay: "fst (retry_delay config attempt counter) = min (saturating_add (c div 2) j) max_ms"
    by (simp add: retry_delay_def assms c_def j_def Let_def)
  have c: "unat c = min (min (unat base_ms * min (2 ^ unat attempt) (2 ^ 64 - 1)) (2 ^ 64 - 1)) (unat max_ms)"
    by (simp add: c_def unat_min word_arith)
  have j: "unat j \<le> unat c - (if c = 0 then 0 else 1)"
    unfolding j_def by (rule jitter_bound)
  have d: "unat (fst (retry_delay config attempt counter)) =
      min (min (unat c div 2 + unat j) (2 ^ 64 - 1)) (unat max_ms)"
    by (simp add: delay unat_min word_arith unat_div)
  have "unat c < 2 ^ 64" using unsigned_less [of c] by simp
  then have "unat c div 2 \<le> min (unat c div 2 + unat j) (2 ^ 64 - 1)" by simp
  moreover have "unat c div 2 \<le> unat max_ms" using c by linarith
  moreover have "2 * (unat c div 2 + unat j) \<le> 3 * unat c"
    using j by (simp split: if_splits)
  then have "2 * min (min (unat c div 2 + unat j) (2 ^ 64 - 1)) (unat max_ms) \<le> 3 * unat c"
    by (meson le_trans min.cobounded1 mult_le_mono2)
  ultimately show ?thesis
    unfolding Let_def c [symmetric] d by simp
qed

theorem exponential_delay_bounds_witness:
  "let config = default_RetryConfig\<lparr>backoff := Exponential 100 5000\<rparr> in
   backoff config = Exponential 100 5000 \<and> unat (fst (retry_delay config 70 9)) \<le> 5000"
  using exponential_delay_bounds
    [of "default_RetryConfig\<lparr>backoff := Exponential 100 5000\<rparr>" 100 5000 70 9]
  by (simp add: Let_def)

end
