(* ===== verification/Policy_Path.thy ===== *)
theory Policy_Path
  imports Ferrum_Prelude
begin

unbundle bit_operations_syntax

text \<open>
  \<^verbatim>\<open>src/src/policy_path.rs\<close>: the canonical policy path, the one representation of a request target
  that every security decision and the forwarded request share. A path is the list of its
  UTF-8 bytes. The allocation-free pre-scan, the decoding pass and the admission checks of
  configured paths are the source's; the reference they are proved against is percent
  decoding segment by segment.
\<close>

section \<open>Rejections\<close>

datatype PolicyPathRejection =
    InvalidEscape | DoubleEncoding | EncodedSeparator | EncodedBackslash | LiteralBackslash
  | EncodedControl | UnrepresentableEscape | AmbiguousDotSegment | LiteralDotSegment

fun reason :: "PolicyPathRejection \<Rightarrow> string" where
  "reason InvalidEscape = ''invalid_escape''"
| "reason DoubleEncoding = ''double_encoding''"
| "reason EncodedSeparator = ''encoded_separator''"
| "reason EncodedBackslash = ''encoded_backslash''"
| "reason LiteralBackslash = ''literal_backslash''"
| "reason EncodedControl = ''encoded_control''"
| "reason UnrepresentableEscape = ''unrepresentable_escape''"
| "reason AmbiguousDotSegment = ''ambiguous_dot_segment''"
| "reason LiteralDotSegment = ''literal_dot_segment''"

fun client_error_body :: "PolicyPathRejection \<Rightarrow> string" where
  \<open>client_error_body InvalidEscape = ''{"error":"Request path contains an incomplete percent-escape"}''\<close>
| \<open>client_error_body DoubleEncoding = ''{"error":"Request path contains a double-encoded percent-escape"}''\<close>
| \<open>client_error_body EncodedSeparator = ''{"error":"Request path contains an encoded path separator"}''\<close>
| \<open>client_error_body EncodedBackslash = ''{"error":"Request path contains an encoded backslash"}''\<close>
| \<open>client_error_body LiteralBackslash = ''{"error":"Request path contains a backslash"}''\<close>
| \<open>client_error_body EncodedControl = ''{"error":"Request path contains an encoded control character"}''\<close>
| \<open>client_error_body UnrepresentableEscape = ''{"error":"Request path contains an unrepresentable percent-escape"}''\<close>
| \<open>client_error_body AmbiguousDotSegment = ''{"error":"Request path contains an encoded dot segment"}''\<close>
| \<open>client_error_body LiteralDotSegment = ''{"error":"Request path contains a dot segment"}''\<close>

fun grpc_message :: "PolicyPathRejection \<Rightarrow> string" where
  "grpc_message InvalidEscape = ''Incomplete percent-escape in request path''"
| "grpc_message DoubleEncoding = ''Double-encoded percent-escape in request path''"
| "grpc_message EncodedSeparator = ''Encoded path separator in request path''"
| "grpc_message EncodedBackslash = ''Encoded backslash in request path''"
| "grpc_message LiteralBackslash = ''Backslash in request path''"
| "grpc_message EncodedControl = ''Encoded control character in request path''"
| "grpc_message UnrepresentableEscape = ''Unrepresentable percent-escape in request path''"
| "grpc_message AmbiguousDotSegment = ''Encoded dot segment in request path''"
| "grpc_message LiteralDotSegment = ''Dot segment in request path''"

section \<open>Canonicalization\<close>

definition slash :: char where "slash = CHR ''/''"
definition backslash :: char where "backslash = CHR 0x5C"
definition percent :: char where "percent = CHR ''%''"

text \<open>\<open>build_decode_table\<close>, as the predicate the table tabulates.\<close>

definition decode_to_literal :: "nat \<Rightarrow> bool" where
  "decode_to_literal byte \<longleftrightarrow>
     (let unreserved =
            (48 \<le> byte \<and> byte \<le> 57) \<or> (65 \<le> byte \<and> byte \<le> 90) \<or> (97 \<le> byte \<and> byte \<le> 122) \<or>
            byte \<in> {0x2D, 0x2E, 0x5F, 0x7E};
          sub_delims = byte \<in> {0x21, 0x24, 0x26, 0x27, 0x28, 0x29, 0x2A, 0x2B, 0x2C, 0x3B, 0x3D}
      in unreserved \<or> sub_delims \<or> byte = 0x3A \<or> byte = 0x40)"

definition hex_value :: "char \<Rightarrow> nat option" where
  "hex_value c =
     (let byte = byte_of c in
      if 48 \<le> byte \<and> byte \<le> 57 then Some (byte - 48)
      else if 97 \<le> byte \<and> byte \<le> 102 then Some (byte - 97 + 10)
      else if 65 \<le> byte \<and> byte \<le> 70 then Some (byte - 65 + 10)
      else None)"

datatype LiteralStructure = Enforced | PatternOnly

definition is_dot_segment :: "string \<Rightarrow> bool" where
  "is_dot_segment segment \<longleftrightarrow> segment = ''.'' \<or> segment = ''..''"

definition check_segment ::
  "string \<Rightarrow> nat \<Rightarrow> bool \<Rightarrow> LiteralStructure \<Rightarrow> PolicyPathRejection + unit" where
  "check_segment canonical segment_start segment_has_escape structure =
     (if structure = PatternOnly then Inr ()
      else if is_dot_segment (drop segment_start canonical) then
        Inl (if segment_has_escape then AmbiguousDotSegment else LiteralDotSegment)
      else Inr ())"

datatype Prescan = AlreadyCanonical | NeedsDecoding

text \<open>The scan over the remaining bytes; \<open>segment\<close> is \<^verbatim>\<open>bytes[segment_start..index]\<close>.\<close>

fun prescan_from :: "bool \<Rightarrow> string \<Rightarrow> string \<Rightarrow> PolicyPathRejection + Prescan" where
  "prescan_from enforced segment [] =
     (if enforced \<and> is_dot_segment segment then Inl LiteralDotSegment else Inr AlreadyCanonical)"
| "prescan_from enforced segment (byte # rest) =
     (if byte = percent then Inr NeedsDecoding
      else if byte = backslash \<and> enforced then Inl LiteralBackslash
      else if byte = slash \<and> enforced then
        (if is_dot_segment segment then Inl LiteralDotSegment else prescan_from enforced [] rest)
      else prescan_from enforced (segment @ [byte]) rest)"

definition prescan :: "string \<Rightarrow> LiteralStructure \<Rightarrow> PolicyPathRejection + Prescan" where
  "prescan bytes structure = prescan_from (structure = Enforced) [] bytes"

text \<open>The classification of a decoded escape: the \<^verbatim>\<open>match value\<close>.\<close>

definition escape_verdict :: "nat \<Rightarrow> PolicyPathRejection option" where
  "escape_verdict value =
     (if value = 0x25 then Some DoubleEncoding
      else if value = 0x2F \<or> value = 0x3F \<or> value = 0x23 then Some EncodedSeparator
      else if value = 0x5C then Some EncodedBackslash
      else if value \<le> 0x1F \<or> value = 0x7F then Some EncodedControl
      else if \<not> decode_to_literal value then Some UnrepresentableEscape
      else None)"

fun decode_from ::
  "LiteralStructure \<Rightarrow> string \<Rightarrow> nat \<Rightarrow> bool \<Rightarrow> string \<Rightarrow> PolicyPathRejection + string" where
  "decode_from structure canonical segment_start segment_has_escape [] =
     (case check_segment canonical segment_start segment_has_escape structure of
        Inl e \<Rightarrow> Inl e
      | Inr _ \<Rightarrow> Inr canonical)"
| "decode_from structure canonical segment_start segment_has_escape (byte # rest) =
     (if byte = slash then
        (case check_segment canonical segment_start segment_has_escape structure of
           Inl e \<Rightarrow> Inl e
         | Inr _ \<Rightarrow> decode_from structure (canonical @ [slash]) (length canonical + 1) False rest)
      else if byte = backslash \<and> structure = Enforced then Inl LiteralBackslash
      else if byte \<noteq> percent then
        decode_from structure (canonical @ [byte]) segment_start segment_has_escape rest
      else
        (case rest of
           h # l # rest' \<Rightarrow>
             (case (hex_value h, hex_value l) of
                (Some high, Some low) \<Rightarrow>
                  (let value = push_bit 4 high OR low in
                   case escape_verdict value of
                     Some e \<Rightarrow> Inl e
                   | None \<Rightarrow>
                       decode_from structure (canonical @ [char_of value]) segment_start True rest')
              | _ \<Rightarrow> Inl InvalidEscape)
         | _ \<Rightarrow> Inl InvalidEscape))"

text \<open>\<open>String::from_utf8\<close> succeeds on exactly the well-formed UTF-8 byte sequences.\<close>

definition is_cont :: "char \<Rightarrow> bool" where
  "is_cont c \<longleftrightarrow> 0x80 \<le> byte_of c \<and> byte_of c \<le> 0xBF"

definition utf8_2 :: "char \<Rightarrow> char \<Rightarrow> bool" where
  "utf8_2 a b \<longleftrightarrow> 0xC2 \<le> byte_of a \<and> byte_of a \<le> 0xDF \<and> is_cont b"

definition utf8_3 :: "char \<Rightarrow> char \<Rightarrow> char \<Rightarrow> bool" where
  "utf8_3 a b c \<longleftrightarrow>
     0xE0 \<le> byte_of a \<and> byte_of a \<le> 0xEF \<and> is_cont b \<and> is_cont c \<and>
     (byte_of a = 0xE0 \<longrightarrow> 0xA0 \<le> byte_of b) \<and> (byte_of a = 0xED \<longrightarrow> byte_of b \<le> 0x9F)"

definition utf8_4 :: "char \<Rightarrow> char \<Rightarrow> char \<Rightarrow> char \<Rightarrow> bool" where
  "utf8_4 a b c d \<longleftrightarrow>
     0xF0 \<le> byte_of a \<and> byte_of a \<le> 0xF4 \<and> is_cont b \<and> is_cont c \<and> is_cont d \<and>
     (byte_of a = 0xF0 \<longrightarrow> 0x90 \<le> byte_of b) \<and> (byte_of a = 0xF4 \<longrightarrow> byte_of b \<le> 0x8F)"

fun valid_utf8 :: "string \<Rightarrow> bool" where
  "valid_utf8 [] = True"
| "valid_utf8 (a # rest) =
     (if byte_of a < 0x80 then valid_utf8 rest
      else case rest of
        b # rest \<Rightarrow>
          (if utf8_2 a b then valid_utf8 rest
           else case rest of
             c # rest \<Rightarrow>
               (if utf8_3 a b c then valid_utf8 rest
                else case rest of
                  d # rest \<Rightarrow> (if utf8_4 a b c d then valid_utf8 rest else False)
                | [] \<Rightarrow> False)
           | [] \<Rightarrow> False)
      | [] \<Rightarrow> False)"

datatype cow = Borrowed string | Owned string

fun cow_str :: "cow \<Rightarrow> string" where
  "cow_str (Borrowed s) = s"
| "cow_str (Owned s) = s"

definition canonicalize :: "string \<Rightarrow> LiteralStructure \<Rightarrow> PolicyPathRejection + cow" where
  "canonicalize raw structure =
     (case prescan raw structure of
        Inl e \<Rightarrow> Inl e
      | Inr AlreadyCanonical \<Rightarrow> Inr (Borrowed raw)
      | Inr NeedsDecoding \<Rightarrow>
          (case decode_from structure [] 0 False raw of
             Inl e \<Rightarrow> Inl e
           | Inr canonical \<Rightarrow>
               if valid_utf8 canonical then Inr (Owned canonical) else Inl UnrepresentableEscape))"

definition canonicalize_policy_path :: "string \<Rightarrow> PolicyPathRejection + cow" where
  "canonicalize_policy_path raw = canonicalize raw Enforced"

definition reason_for :: "PolicyPathRejection + cow \<Rightarrow> string option" where
  "reason_for result =
     (case result of
        Inr (Borrowed _) \<Rightarrow> None
      | Inr (Owned _) \<Rightarrow> Some ''percent-escapes that canonicalize to a different path''
      | Inl rejection \<Rightarrow> Some (reason rejection))"

definition non_canonical_policy_path_reason :: "string \<Rightarrow> string option" where
  "non_canonical_policy_path_reason path = reason_for (canonicalize path Enforced)"

definition non_canonical_policy_path_pattern_reason :: "string \<Rightarrow> string option" where
  "non_canonical_policy_path_pattern_reason path = reason_for (canonicalize path PatternOnly)"

section \<open>Reference: percent decoding, segment by segment\<close>

text \<open>A standard decoder, defined on every target with well-formed escapes.\<close>

fun pct_decode :: "string \<Rightarrow> string option" where
  "pct_decode [] = Some []"
| "pct_decode (b # rest) =
     (if b \<noteq> percent then map_option (Cons b) (pct_decode rest)
      else case rest of
        h # l # rest' \<Rightarrow>
          (case (hex_value h, hex_value l) of
             (Some hi, Some lo) \<Rightarrow> map_option (Cons (char_of (16 * hi + lo))) (pct_decode rest')
           | _ \<Rightarrow> None)
      | _ \<Rightarrow> None)"

text \<open>Whether every escape names a byte that may stand literally in a path segment.\<close>

fun escapes_representable :: "string \<Rightarrow> bool" where
  "escapes_representable [] \<longleftrightarrow> True"
| "escapes_representable (b # rest) \<longleftrightarrow>
     (if b \<noteq> percent then escapes_representable rest
      else case rest of
        h # l # rest' \<Rightarrow>
          (case (hex_value h, hex_value l) of
             (Some hi, Some lo) \<Rightarrow> decode_to_literal (16 * hi + lo) \<and> escapes_representable rest'
           | _ \<Rightarrow> False)
      | _ \<Rightarrow> False)"

fun segments :: "string \<Rightarrow> string list" where
  "segments [] = [[]]"
| "segments (b # rest) =
     (if b = slash then [] # segments rest
      else case segments rest of s # ss \<Rightarrow> (b # s) # ss | [] \<Rightarrow> [[b]])"

definition no_dot_segment :: "string \<Rightarrow> bool" where
  "no_dot_segment path \<longleftrightarrow> (\<forall>s \<in> set (segments path). \<not> is_dot_segment s)"

lemmas path_chars = slash_def backslash_def percent_def

lemma path_chars_distinct [simp]:
  "slash \<noteq> backslash" "slash \<noteq> percent" "backslash \<noteq> percent"
  "backslash \<noteq> slash" "percent \<noteq> slash" "percent \<noteq> backslash"
  by (simp_all add: path_chars)

lemma hex_value_less: "hex_value c = Some v \<Longrightarrow> v < 16"
  by (auto simp: hex_value_def Let_def split: if_splits)

lemma hex_pair:
  assumes "hi < 16" and "lo < (16 :: nat)"
  shows "push_bit 4 hi OR lo = 16 * hi + lo"
proof -
  have "push_bit 4 hi OR lo = push_bit 4 hi + lo"
  proof (rule disjunctive_add [symmetric])
    fix n
    have "lo = take_bit 4 lo" using assms(2) by (simp add: take_bit_nat_eq_self)
    then show "\<not> bit (push_bit 4 hi) n \<or> \<not> bit lo n"
      by (metis bit_push_bit_iff_nat bit_take_bit_iff leD)
  qed
  then show ?thesis by (simp add: push_bit_eq_mult)
qed

lemma escape_verdict_None: "escape_verdict v = None \<longleftrightarrow> decode_to_literal v"
proof -
  have "decode_to_literal v \<Longrightarrow>
      v \<noteq> 0x25 \<and> v \<noteq> 0x2F \<and> v \<noteq> 0x3F \<and> v \<noteq> 0x23 \<and> v \<noteq> 0x5C \<and> \<not> v \<le> 0x1F \<and> v \<noteq> 0x7F"
    by (auto simp: decode_to_literal_def Let_def)
  then show ?thesis by (auto simp: escape_verdict_def)
qed

lemma literal_bytes:
  assumes "decode_to_literal v"
  shows "v < 128" "char_of v \<noteq> slash" "char_of v \<noteq> backslash" "char_of v \<noteq> percent"
proof -
  show v: "v < 128" using assms by (auto simp: decode_to_literal_def Let_def)
  have "\<not> decode_to_literal 0x2F" "\<not> decode_to_literal 0x5C" "\<not> decode_to_literal 0x25"
    by (simp_all add: decode_to_literal_def)
  moreover have "byte_of (char_of v) = v" using v by (simp add: byte_of_def)
  moreover have "byte_of slash = 0x2F" "byte_of backslash = 0x5C" "byte_of percent = 0x25"
    by (simp_all add: path_chars byte_of_def)
  ultimately show "char_of v \<noteq> slash" "char_of v \<noteq> backslash" "char_of v \<noteq> percent"
    using assms by metis+
qed

lemma segments_nonempty [simp]: "segments s \<noteq> []"
  by (cases s) (auto split: list.splits)

lemma segments_append:
  "slash \<notin> set cur \<Longrightarrow> segments (cur @ slash # rest) = cur # segments rest"
  by (induction cur) auto

lemma segments_flat: "slash \<notin> set cur \<Longrightarrow> segments cur = [cur]"
  by (induction cur) auto

text \<open>The two readings of an escape, as the decoding pass and the reference see it.\<close>

lemma decode_from_escape:
  "decode_from structure canonical start esc (percent # rest) =
     (case rest of
        h # l # rest' \<Rightarrow>
          (case (hex_value h, hex_value l) of
             (Some hi, Some lo) \<Rightarrow>
               (if decode_to_literal (16 * hi + lo)
                then decode_from structure (canonical @ [char_of (16 * hi + lo)]) start True rest'
                else Inl (the (escape_verdict (16 * hi + lo))))
           | _ \<Rightarrow> Inl InvalidEscape)
      | _ \<Rightarrow> Inl InvalidEscape)"
  using hex_value_less
  by (auto simp: hex_pair Let_def escape_verdict_None [symmetric] split: list.splits option.splits)

lemma decode_from_ok_iff:
  assumes "start \<le> length canonical" and "slash \<notin> set (drop start canonical)"
  shows "decode_from Enforced canonical start esc rest = Inr out \<longleftrightarrow>
    escapes_representable rest \<and> backslash \<notin> set rest \<and>
    (\<exists>d. pct_decode rest = Some d \<and> out = canonical @ d \<and> no_dot_segment (drop start canonical @ d))"
  using assms
proof (induction rest arbitrary: canonical start esc rule: length_induct)
  case (1 rest)
  note IH = 1(1) [rule_format]
  show ?case
  proof (cases rest)
    case Nil
    with 1(2,3) show ?thesis
      by (auto simp: check_segment_def no_dot_segment_def segments_flat)
  next
    case (Cons byte tail)
    consider "byte = slash" | "byte = percent" | "byte \<noteq> slash" "byte \<noteq> percent" by blast
    then show ?thesis
    proof cases
      case 1
      have "decode_from Enforced (canonical @ [slash]) (length canonical + 1) False tail = Inr out \<longleftrightarrow>
          escapes_representable tail \<and> backslash \<notin> set tail \<and>
          (\<exists>d. pct_decode tail = Some d \<and> out = (canonical @ [slash]) @ d \<and> no_dot_segment d)"
        using IH [of tail "length canonical + 1" "canonical @ [slash]" False] Cons by simp
      with 1 Cons \<open>slash \<notin> set (drop start canonical)\<close> show ?thesis
        by (auto simp: check_segment_def no_dot_segment_def segments_append)
    next
      case 3
      with \<open>start \<le> length canonical\<close> \<open>slash \<notin> set (drop start canonical)\<close>
      have "decode_from Enforced (canonical @ [byte]) start esc tail = Inr out \<longleftrightarrow>
          escapes_representable tail \<and> backslash \<notin> set tail \<and>
          (\<exists>d. pct_decode tail = Some d \<and> out = (canonical @ [byte]) @ d \<and>
               no_dot_segment (drop start canonical @ byte # d))"
        using IH [of tail start "canonical @ [byte]" esc] Cons by simp
      with 3 Cons show ?thesis by auto
    next
      case 2
      show ?thesis
      proof (cases "\<exists>h l t hi lo. tail = h # l # t \<and> hex_value h = Some hi \<and> hex_value l = Some lo \<and>
          decode_to_literal (16 * hi + lo)")
        case True
        then obtain h l t hi lo where t: "tail = h # l # t" "hex_value h = Some hi" "hex_value l = Some lo"
          and lit: "decode_to_literal (16 * hi + lo)" by blast
        let ?c = "char_of (16 * hi + lo)"
        from literal_bytes [OF lit] \<open>start \<le> length canonical\<close> \<open>slash \<notin> set (drop start canonical)\<close>
        have "decode_from Enforced (canonical @ [?c]) start True t = Inr out \<longleftrightarrow>
            escapes_representable t \<and> backslash \<notin> set t \<and>
            (\<exists>d. pct_decode t = Some d \<and> out = (canonical @ [?c]) @ d \<and>
                 no_dot_segment (drop start canonical @ ?c # d))"
          using IH [of t start "canonical @ [?c]" True] Cons t by simp
        moreover have "backslash \<notin> {h, l}"
          using t(2,3) by (auto simp: hex_value_def path_chars byte_of_def)
        ultimately show ?thesis
          using 2 Cons t lit by (auto simp: decode_from_escape simp del: decode_from.simps)
      next
        case False
        with 2 Cons show ?thesis
          by (auto simp: decode_from_escape simp del: decode_from.simps split: list.splits option.splits)
      qed
    qed
  qed
qed

section \<open>The pre-scan agrees with the decoding pass\<close>

lemma pct_decode_plain: "percent \<notin> set s \<Longrightarrow> pct_decode s = Some s \<and> escapes_representable s"
  by (induction s) auto

lemma prescan_canonical_iff:
  "slash \<notin> set seg \<Longrightarrow> prescan_from True seg rest = Inr AlreadyCanonical \<longleftrightarrow>
     percent \<notin> set rest \<and> backslash \<notin> set rest \<and> no_dot_segment (seg @ rest)"
proof (induction True seg rest rule: prescan_from.induct)
  case (1 seg)
  then show ?case by (simp add: no_dot_segment_def segments_flat)
next
  case (2 seg byte rest)
  then show ?case
    by (cases "byte = slash") (auto simp: no_dot_segment_def segments_append)
qed

lemma prescan_needs_decoding: "prescan_from e seg rest = Inr NeedsDecoding \<Longrightarrow> percent \<in> set rest"
  by (induction e seg rest rule: prescan_from.induct) (auto split: if_splits)

lemma prescan_rejects:
  "prescan_from True (drop start canonical) rest = Inl e \<Longrightarrow> start \<le> length canonical \<Longrightarrow>
   decode_from Enforced canonical start False rest = Inl e"
proof (induction rest arbitrary: canonical start)
  case (Cons byte rest)
  then show ?case
    using Cons.IH [of "length canonical + 1" "canonical @ [slash]"]
      Cons.IH [of start "canonical @ [byte]"]
    by (auto simp: check_segment_def split: if_splits)
qed (auto simp: check_segment_def split: if_splits)

lemma prescan_pattern:
  "prescan_from False seg rest = Inr (if percent \<in> set rest then NeedsDecoding else AlreadyCanonical)"
  by (induction False seg rest rule: prescan_from.induct) auto

declare valid_utf8.simps(2) [simp del]

section \<open>Decoded paths are well-formed UTF-8\<close>

lemma hex_digit_ascii: "hex_value c = Some v \<Longrightarrow> byte_of c < 128"
  by (auto simp: hex_value_def Let_def split: if_splits)

lemma percent_ascii: "byte_of percent < 128"
  by (simp add: percent_def byte_of_def)

lemma pct_decode_non_ascii:
  "128 \<le> byte_of a \<Longrightarrow> pct_decode (a # rest) = map_option (Cons a) (pct_decode rest)"
  "128 \<le> byte_of a \<Longrightarrow> escapes_representable (a # rest) = escapes_representable rest"
  using percent_ascii by auto

lemma cont_non_ascii: "is_cont c \<Longrightarrow> 128 \<le> byte_of c"
  by (simp add: is_cont_def)

text \<open>A well-formed sequence is empty or one encoded scalar followed by a well-formed rest.\<close>

lemma valid_utf8_cases:
  assumes "valid_utf8 s"
  obtains "s = []"
    | a rest where "s = a # rest" "byte_of a < 128" "valid_utf8 rest"
    | a cs rest where "s = a # cs @ rest" "\<forall>c \<in> set (a # cs). 128 \<le> byte_of c" "valid_utf8 rest"
        "\<And>rest'. valid_utf8 rest' \<Longrightarrow> valid_utf8 (a # cs @ rest')"
proof (cases s)
  case (Cons a rest)
  show thesis
  proof (cases "byte_of a < 128")
    case True
    with assms Cons show thesis using that(2) by (simp add: valid_utf8.simps(2) [of a])
  next
    case False
    with assms Cons obtain b r where r: "rest = b # r"
      by (cases rest) (auto simp: valid_utf8.simps(2) [of a])
    consider (two) "utf8_2 a b" "valid_utf8 r"
      | (three) c r' where "\<not> utf8_2 a b" "r = c # r'" "utf8_3 a b c" "valid_utf8 r'"
      | (four) c d r' where "\<not> utf8_2 a b" "r = c # d # r'" "\<not> utf8_3 a b c" "utf8_4 a b c d" "valid_utf8 r'"
      using assms [unfolded Cons r valid_utf8.simps(2) [of a]] False
      by (auto simp del: valid_utf8.simps split: if_splits list.splits)
    then show thesis
    proof cases
      case two
      with Cons r False show thesis
        using that(3) [of a "[b]" r] by (auto simp: utf8_2_def valid_utf8.simps(2) [of a] dest: cont_non_ascii)
    next
      case three
      with Cons r False show thesis
        using that(3) [of a "[b, c]" r'] by (auto simp: utf8_3_def valid_utf8.simps(2) [of a] dest: cont_non_ascii)
    next
      case four
      with Cons r False show thesis
        using that(3) [of a "[b, c, d]" r'] by (auto simp: utf8_4_def valid_utf8.simps(2) [of a] dest: cont_non_ascii)
    qed
  qed
qed (use that(1) in simp)

lemma pct_decode_block:
  "\<forall>c \<in> set cs. 128 \<le> byte_of c \<Longrightarrow>
   pct_decode (cs @ rest) = map_option ((@) cs) (pct_decode rest) \<and>
   escapes_representable (cs @ rest) = escapes_representable rest"
proof (induction cs)
  case (Cons c cs)
  with pct_decode_non_ascii [of c] show ?case
    by (cases "pct_decode rest") (auto simp del: pct_decode.simps escapes_representable.simps)
qed (cases "pct_decode rest"; simp)

lemma decoded_valid_utf8:
  "valid_utf8 raw \<Longrightarrow> escapes_representable raw \<Longrightarrow> pct_decode raw = Some d \<Longrightarrow> valid_utf8 d"
proof (induction raw arbitrary: d rule: length_induct)
  case (1 raw)
  note IH = 1(1) [rule_format]
  from 1(2) show ?case
  proof (cases rule: valid_utf8_cases)
    case 1
    with \<open>pct_decode raw = Some d\<close> show ?thesis by simp
  next
    case (2 a rest)
    show ?thesis
    proof (cases "a = percent")
      case True
      with 2 \<open>escapes_representable raw\<close> \<open>pct_decode raw = Some d\<close>
      obtain h l t hi lo d' where esc: "rest = h # l # t" "hex_value h = Some hi" "hex_value l = Some lo"
        "decode_to_literal (16 * hi + lo)" "escapes_representable t"
        "pct_decode t = Some d'" "d = char_of (16 * hi + lo) # d'"
        by (auto split: list.splits option.splits)
      have "valid_utf8 t"
        using 2(3) esc(1) hex_digit_ascii [OF esc(2)] hex_digit_ascii [OF esc(3)]
        by (simp add: valid_utf8.simps(2))
      with IH [of t d'] esc 2(1) have "valid_utf8 d'" by simp
      moreover have "byte_of (char_of (16 * hi + lo)) < 128"
        using literal_bytes(1) [OF esc(4)] by (simp add: byte_of_def)
      ultimately show ?thesis by (simp add: esc(7) valid_utf8.simps(2))
    next
      case False
      with 2 1(3,4) obtain d' where "pct_decode rest = Some d'" "d = a # d'" "escapes_representable rest"
        by auto
      with IH [of rest d'] 2 show ?thesis by (simp add: valid_utf8.simps(2) [of a])
    qed
  next
    case (3 a cs rest)
    with \<open>pct_decode raw = Some d\<close> \<open>escapes_representable raw\<close> pct_decode_block [of "a # cs" rest]
    have "Some d = map_option ((@) (a # cs)) (pct_decode rest)" "escapes_representable rest"
      by (simp_all del: pct_decode.simps escapes_representable.simps)
    then obtain d' where "pct_decode rest = Some d'" "d = a # cs @ d'" "escapes_representable rest"
      by (cases "pct_decode rest") auto
    with IH [of rest d'] 3 show ?thesis by simp
  qed
qed

section \<open>The contract\<close>

lemma decode_ok_iff:
  "decode_from Enforced [] 0 False raw = Inr d \<longleftrightarrow>
     escapes_representable raw \<and> backslash \<notin> set raw \<and> pct_decode raw = Some d \<and> no_dot_segment d"
  by (subst decode_from_ok_iff) auto

lemma canonicalize_ok_iff:
  assumes "valid_utf8 raw"
  shows "canonicalize_policy_path raw = Inr c \<longleftrightarrow>
     escapes_representable raw \<and> backslash \<notin> set raw \<and>
     (\<exists>d. pct_decode raw = Some d \<and> no_dot_segment d \<and>
          c = (if percent \<in> set raw then Owned d else Borrowed raw))"
proof (cases "prescan raw Enforced")
  case (Inl e)
  then have "decode_from Enforced [] 0 False raw = Inl e"
    using prescan_rejects [of 0 "[]" raw e] by (simp add: prescan_def)
  then have "\<not> (\<exists>d. decode_from Enforced [] 0 False raw = Inr d)" by simp
  with Inl show ?thesis
    by (auto simp: canonicalize_policy_path_def canonicalize_def decode_ok_iff)
next
  case (Inr s)
  show ?thesis
  proof (cases s)
    case AlreadyCanonical
    with Inr have "percent \<notin> set raw \<and> backslash \<notin> set raw \<and> no_dot_segment raw"
      using prescan_canonical_iff [of "[]" raw] by (simp add: prescan_def)
    with Inr AlreadyCanonical pct_decode_plain [of raw] show ?thesis
      by (auto simp: canonicalize_policy_path_def canonicalize_def)
  next
    case NeedsDecoding
    with Inr have "percent \<in> set raw"
      using prescan_needs_decoding by (simp add: prescan_def)
    with Inr NeedsDecoding decoded_valid_utf8 [OF assms] decode_ok_iff [of raw] show ?thesis
      by (cases "decode_from Enforced [] 0 False raw")
        (auto simp: canonicalize_policy_path_def canonicalize_def)
  qed
qed

lemma pct_decode_segments:
  "escapes_representable raw \<Longrightarrow> pct_decode raw = Some d \<Longrightarrow>
   map pct_decode (segments raw) = map Some (segments d)"
proof (induction raw arbitrary: d rule: length_induct)
  case (1 raw)
  note IH = 1(1) [rule_format]
  show ?case
  proof (cases raw)
    case (Cons a rest)
    show ?thesis
    proof (cases "a = percent")
      case True
      with Cons 1(2,3)
      obtain h l t hi lo d' where esc: "rest = h # l # t" "hex_value h = Some hi" "hex_value l = Some lo"
        "decode_to_literal (16 * hi + lo)" "escapes_representable t"
        "pct_decode t = Some d'" "d = char_of (16 * hi + lo) # d'"
        by (auto split: list.splits option.splits)
      have ih: "map pct_decode (segments t) = map Some (segments d')"
        using IH [of t d'] esc Cons by simp
      have "h \<noteq> slash" "l \<noteq> slash"
        using esc(2,3) by (auto simp: hex_value_def slash_def byte_of_def)
      with ih esc True Cons literal_bytes(2) [OF esc(4)] show ?thesis
        by (cases "segments t"; cases "segments d'") auto
    next
      case False
      with Cons 1(2,3) obtain d' where d': "pct_decode rest = Some d'" "d = a # d'" "escapes_representable rest"
        by auto
      have ih: "map pct_decode (segments rest) = map Some (segments d')"
        using IH [of rest d'] d' Cons by simp
      with d' False Cons show ?thesis
        by (cases "segments rest"; cases "segments d'") auto
    qed
  qed (use 1 in simp)
qed

lemma decoded_clean:
  "escapes_representable raw \<Longrightarrow> pct_decode raw = Some d \<Longrightarrow> percent \<notin> set d \<and>
   (backslash \<notin> set raw \<longrightarrow> backslash \<notin> set d)"
proof (induction raw arbitrary: d rule: length_induct)
  case (1 raw)
  note IH = 1(1) [rule_format]
  show ?case
  proof (cases raw)
    case (Cons a rest)
    show ?thesis
    proof (cases "a = percent")
      case True
      with Cons 1(2,3)
      obtain h l t hi lo d' where esc: "rest = h # l # t" "decode_to_literal (16 * hi + lo)"
        "escapes_representable t" "pct_decode t = Some d'" "d = char_of (16 * hi + lo) # d'"
        by (auto split: list.splits option.splits)
      with IH [of t d'] Cons literal_bytes [OF esc(2)] show ?thesis by auto
    next
      case False
      with Cons 1(2,3) obtain d' where "pct_decode rest = Some d'" "d = a # d'" "escapes_representable rest"
        by auto
      with IH [of rest d'] Cons False show ?thesis by auto
    qed
  qed (use 1 in simp)
qed

text \<open>
  C24. What the canonicalizer accepts, exactly: a UTF-8 target is accepted if and only if every
  percent escape is complete and names a byte that may stand literally in a segment, no
  backslash occurs, and no segment is a dot segment once decoded; the result is the decoded
  path, borrowed if and only if the target contains no escape. The allocation-free pre-scan and the
  decoding pass therefore accept the same targets, and the final UTF-8 check never fails.
\<close>

theorem canonicalize_exact:
  assumes "valid_utf8 raw"
  shows "canonicalize_policy_path raw = Inr c \<longleftrightarrow>
     escapes_representable raw \<and> backslash \<notin> set raw \<and>
     (\<exists>d. pct_decode raw = Some d \<and> no_dot_segment d \<and>
          c = (if percent \<in> set raw then Owned d else Borrowed raw))"
  using assms by (rule canonicalize_ok_iff)

definition sample_target :: string where "sample_target = ''/%61dmin/x''"

lemma sample_target_decodes:
  "valid_utf8 sample_target" "escapes_representable sample_target"
  "pct_decode sample_target = Some ''/admin/x''"
  "backslash \<notin> set sample_target" "percent \<in> set sample_target" "no_dot_segment ''/admin/x''"
  by (simp_all add: sample_target_def valid_utf8.simps(2) byte_of_def hex_value_def percent_def
      decode_to_literal_def backslash_def no_dot_segment_def slash_def is_dot_segment_def char_of_def bit_Suc_0_iff)

theorem canonicalize_exact_witness:
  "valid_utf8 sample_target \<and> canonicalize_policy_path sample_target = Inr (Owned ''/admin/x'')"
  using canonicalize_exact [of sample_target "Owned ''/admin/x''"] sample_target_decodes by simp

lemma canonical_fixed:
  assumes "valid_utf8 raw" and "canonicalize_policy_path raw = Inr c"
  shows "percent \<notin> set (cow_str c)" "backslash \<notin> set (cow_str c)" "no_dot_segment (cow_str c)"
    "map pct_decode (segments raw) = map Some (segments (cow_str c))" "valid_utf8 (cow_str c)"
proof -
  from assms obtain d where d: "escapes_representable raw" "backslash \<notin> set raw"
    "pct_decode raw = Some d" "no_dot_segment d" "c = (if percent \<in> set raw then Owned d else Borrowed raw)"
    by (auto simp: canonicalize_ok_iff)
  then have "cow_str c = d" using pct_decode_plain [of raw] by (auto split: if_splits)
  with d decoded_clean [OF d(1,3)] pct_decode_segments [OF d(1,3)] decoded_valid_utf8 [OF assms(1) d(1,3)]
  show "percent \<notin> set (cow_str c)" "backslash \<notin> set (cow_str c)" "no_dot_segment (cow_str c)"
    "map pct_decode (segments raw) = map Some (segments (cow_str c))" "valid_utf8 (cow_str c)"
    by simp_all
qed

lemma canonicalize_clean:
  assumes "percent \<notin> set s" and "backslash \<notin> set s" and "no_dot_segment s"
  shows "canonicalize_policy_path s = Inr (Borrowed s)"
  using assms prescan_canonical_iff [of "[]" s]
  by (simp add: canonicalize_policy_path_def canonicalize_def prescan_def)

text \<open>
  C23. An accepted target has one reading. Its canonical form contains no escape, no backslash
  and no dot segment; it has the segment structure of the raw target, each segment being the
  percent decoding of the raw one, so that policy reads what a decoding backend resolves; and
  canonicalizing again changes nothing.
\<close>

theorem canonical_path_single_reading:
  assumes "valid_utf8 raw" and "canonicalize_policy_path raw = Inr c"
  shows "percent \<notin> set (cow_str c) \<and> backslash \<notin> set (cow_str c) \<and> no_dot_segment (cow_str c) \<and>
         map pct_decode (segments raw) = map Some (segments (cow_str c)) \<and>
         canonicalize_policy_path (cow_str c) = Inr (Borrowed (cow_str c))"
  using canonical_fixed [OF assms] canonicalize_clean by blast

theorem canonical_path_single_reading_witness:
  "canonicalize_policy_path sample_target = Inr (Owned ''/admin/x'') \<and>
   canonicalize_policy_path ''/admin/x'' = Inr (Borrowed ''/admin/x'')"
proof -
  have "canonicalize_policy_path sample_target = Inr (Owned ''/admin/x'')"
    using canonicalize_ok_iff [of sample_target "Owned ''/admin/x''"] sample_target_decodes by simp
  with canonical_path_single_reading [OF sample_target_decodes(1) this] show ?thesis by simp
qed

lemma reason_for_None: "reason_for r = None \<longleftrightarrow> (\<exists>s. r = Inr (Borrowed s))"
  by (cases r) (auto simp: reason_for_def split: cow.splits)

lemma canonicalize_borrowed:
  "(\<exists>s. canonicalize p structure = Inr (Borrowed s)) \<longleftrightarrow> prescan p structure = Inr AlreadyCanonical"
  unfolding canonicalize_def by (simp split: sum.splits Prescan.splits)

lemma reason_None_iff:
  "non_canonical_policy_path_reason p = None \<longleftrightarrow>
     percent \<notin> set p \<and> backslash \<notin> set p \<and> no_dot_segment p"
  using prescan_canonical_iff [of "[]" p]
  by (simp add: non_canonical_policy_path_reason_def reason_for_None canonicalize_borrowed prescan_def)

lemma pattern_reason_None_iff:
  "non_canonical_policy_path_pattern_reason p = None \<longleftrightarrow> percent \<notin> set p"
  by (simp add: non_canonical_policy_path_pattern_reason_def reason_for_None canonicalize_borrowed
      prescan_def prescan_pattern)

text \<open>
  Admission of a configured path is exact: the check passes if and only if some request target
  canonicalizes to that very path. A refused path could never match a request, and no path
  that some request can match is refused. A configured pattern is refused exactly when it
  contains a percent sign, which no canonical path contains.
\<close>

theorem configured_path_reachable:
  assumes "valid_utf8 p"
  shows "(non_canonical_policy_path_reason p = None \<longleftrightarrow>
            (\<exists>raw c. valid_utf8 raw \<and> canonicalize_policy_path raw = Inr c \<and> cow_str c = p)) \<and>
         (non_canonical_policy_path_pattern_reason p = None \<longleftrightarrow> percent \<notin> set p)"
proof -
  have "non_canonical_policy_path_reason p = None \<Longrightarrow>
      valid_utf8 p \<and> canonicalize_policy_path p = Inr (Borrowed p) \<and> cow_str (Borrowed p) = p"
    using assms by (simp add: reason_None_iff canonicalize_clean)
  moreover have "valid_utf8 raw \<Longrightarrow> canonicalize_policy_path raw = Inr c \<Longrightarrow> cow_str c = p \<Longrightarrow>
      non_canonical_policy_path_reason p = None" for raw c
    using canonical_fixed [of raw c] by (simp add: reason_None_iff)
  ultimately have "non_canonical_policy_path_reason p = None \<longleftrightarrow>
      (\<exists>raw c. valid_utf8 raw \<and> canonicalize_policy_path raw = Inr c \<and> cow_str c = p)"
    by metis
  then show ?thesis by (simp add: pattern_reason_None_iff)
qed

theorem configured_path_reachable_witness:
  "valid_utf8 sample_target \<and> non_canonical_policy_path_pattern_reason sample_target \<noteq> None"
  using configured_path_reachable [of sample_target] sample_target_decodes by simp

end
