(* ===== verification/Std_Net.thy ===== *)
theory Std_Net
  imports Ferrum_Prelude
begin

text \<open>
  What the sources use of Rust's standard library on addresses and text: \<^verbatim>\<open>IpAddr\<close> with its
  parser and printer, \<^verbatim>\<open>SocketAddr\<close> parsing, \<^verbatim>\<open>str::trim\<close>, \<^verbatim>\<open>split\<close>, \<^verbatim>\<open>split_once\<close> and the integer
  parser. An IPv4 address is its 32-bit and an IPv6 address its 128-bit big-endian value.
\<close>

section \<open>Text\<close>

fun split_on :: "char \<Rightarrow> string \<Rightarrow> string list" where
  "split_on sep [] = [[]]"
| "split_on sep (c # cs) =
     (if c = sep then [] # split_on sep cs
      else case split_on sep cs of s # ss \<Rightarrow> (c # s) # ss | [] \<Rightarrow> [[c]])"

fun split_once :: "char \<Rightarrow> string \<Rightarrow> (string \<times> string) option" where
  "split_once sep [] = None"
| "split_once sep (c # cs) =
     (if c = sep then Some ([], cs)
      else map_option (\<lambda>(a, b). (c # a, b)) (split_once sep cs))"

text \<open>The UTF-8 encodings of the characters with the Unicode \<open>White_Space\<close> property.\<close>

definition white_space :: "string list" where
  "white_space =
     map (map char_of)
       ([[9], [10], [11], [12], [13], [32], [0xC2, 0x85], [0xC2, 0xA0], [0xE1, 0x9A, 0x80]]
        @ map (\<lambda>b. [0xE2, 0x80, b]) [0x80, 0x81, 0x82, 0x83, 0x84, 0x85, 0x86, 0x87, 0x88, 0x89, 0x8A]
        @ [[0xE2, 0x80, 0xA8], [0xE2, 0x80, 0xA9], [0xE2, 0x80, 0xAF], [0xE2, 0x81, 0x9F],
           [0xE3, 0x80, 0x80 :: nat]])"

definition starts_with :: "string \<Rightarrow> string \<Rightarrow> bool" where
  "starts_with prefix s \<longleftrightarrow> take (length prefix) s = prefix"

text \<open>Strip one-of-the-given prefixes as long as there is one; none of them is empty.\<close>

function strip_all :: "string list \<Rightarrow> string \<Rightarrow> string" where
  "strip_all ws s =
     (case find (\<lambda>w. w \<noteq> [] \<and> starts_with w s) ws of
        None \<Rightarrow> s
      | Some w \<Rightarrow> strip_all ws (drop (length w) s))"
  by pat_completeness auto
termination
  by (relation "measure (\<lambda>(ws, s). length s)")
    (auto simp: find_Some_iff starts_with_def intro!: diff_less split: list.splits)

declare strip_all.simps [simp del]

definition trim :: "string \<Rightarrow> string" where
  "trim s = rev (strip_all (map rev white_space) (rev (strip_all white_space s)))"

text \<open>\<open>strip_prefix\<close>, \<open>strip_suffix\<close> and \<open>rfind\<close> on one character.\<close>

definition strip_str_prefix :: "string \<Rightarrow> string \<Rightarrow> string option" where
  "strip_str_prefix prefix s = (if starts_with prefix s then Some (drop (length prefix) s) else None)"

definition strip_str_suffix :: "string \<Rightarrow> string \<Rightarrow> string option" where
  "strip_str_suffix suffix s =
     (if starts_with (rev suffix) (rev s) then Some (take (length s - length suffix) s) else None)"

definition rfind :: "char \<Rightarrow> string \<Rightarrow> nat option" where
  "rfind c s =
     (if c \<in> set s then Some (length s - 1 - length (takeWhile (\<lambda>d. d \<noteq> c) (rev s))) else None)"

section \<open>Integers\<close>

text \<open>\<open>u8::from_str\<close> and its wider siblings: an optional plus sign, digits, no overflow.\<close>

definition parse_uint :: "nat \<Rightarrow> string \<Rightarrow> nat option" where
  "parse_uint bound s =
     (let digits = (case s of CHR ''+'' # rest \<Rightarrow> rest | _ \<Rightarrow> s) in
      if digits = [] \<or> \<not> list_all is_ascii_digit digits then None
      else if dec_value digits \<le> bound then Some (dec_value digits)
      else None)"

section \<open>Addresses\<close>

datatype IpAddr = V4 u32 | V6 u128

definition to_ipv4_mapped :: "u128 \<Rightarrow> u32 option" where
  "to_ipv4_mapped a = (if drop_bit 32 a = 0xFFFF then Some (ucast a) else None)"

definition to_canonical :: "IpAddr \<Rightarrow> IpAddr" where
  "to_canonical ip =
     (case ip of
        V4 a \<Rightarrow> V4 a
      | V6 a \<Rightarrow> (case to_ipv4_mapped a of Some v4 \<Rightarrow> V4 v4 | None \<Rightarrow> V6 a))"

text \<open>A parser consumes a prefix of its input.\<close>

type_synonym 'a parser = "string \<Rightarrow> ('a \<times> string) option"

definition to_digit :: "nat \<Rightarrow> char \<Rightarrow> nat option" where
  "to_digit radix c =
     (let b = byte_of c;
          d = (if 48 \<le> b \<and> b \<le> 57 then Some (b - 48)
               else if 97 \<le> b \<and> b \<le> 122 then Some (b - 97 + 10)
               else if 65 \<le> b \<and> b \<le> 90 then Some (b - 65 + 10)
               else None)
      in case d of Some v \<Rightarrow> if v < radix then Some v else None | None \<Rightarrow> None)"

fun read_digits :: "nat \<Rightarrow> nat \<Rightarrow> nat \<Rightarrow> string \<Rightarrow> nat \<times> nat \<times> string" where
  "read_digits radix acc n [] = (acc, n, [])"
| "read_digits radix acc n (c # cs) =
     (case to_digit radix c of
        Some d \<Rightarrow> read_digits radix (acc * radix + d) (Suc n) cs
      | None \<Rightarrow> (acc, n, c # cs))"

definition read_number :: "nat \<Rightarrow> nat \<Rightarrow> bool \<Rightarrow> nat \<Rightarrow> nat parser" where
  "read_number radix max_digits allow_zero_prefix bound s =
     (let (v, n, rest) = read_digits radix 0 0 s in
      if max_digits < n then None
      else if n = 0 then None
      else if \<not> allow_zero_prefix \<and> take 1 s = ''0'' \<and> 1 < n then None
      else if bound < v then None
      else Some (v, rest))"

definition read_given_char :: "char \<Rightarrow> unit parser" where
  "read_given_char c s = (case s of d # rest \<Rightarrow> if d = c then Some ((), rest) else None | [] \<Rightarrow> None)"

definition read_separator :: "char \<Rightarrow> nat \<Rightarrow> 'a parser \<Rightarrow> 'a parser" where
  "read_separator sep index inner s =
     (if 0 < index then
        (case read_given_char sep s of None \<Rightarrow> None | Some (_, rest) \<Rightarrow> inner rest)
      else inner s)"

fun read_octets :: "nat \<Rightarrow> nat \<Rightarrow> nat list parser" where
  "read_octets index 0 s = Some ([], s)"
| "read_octets index (Suc n) s =
     (case read_separator (CHR ''.'') index (read_number 10 3 False 255) s of
        None \<Rightarrow> None
      | Some (octet, rest) \<Rightarrow>
          (case read_octets (Suc index) n rest of
             None \<Rightarrow> None
           | Some (octets, rest) \<Rightarrow> Some (octet # octets, rest)))"

definition of_groups :: "nat \<Rightarrow> nat list \<Rightarrow> nat" where
  "of_groups base gs = foldl (\<lambda>v g. v * base + g) 0 gs"

definition read_ipv4_addr :: "nat list parser" where
  "read_ipv4_addr s = read_octets 0 4 s"

text \<open>A run of groups: the groups read and whether an embedded IPv4 address ended it.\<close>

fun read_groups :: "nat \<Rightarrow> nat \<Rightarrow> string \<Rightarrow> nat list \<times> bool \<times> string" where
  "read_groups index 0 s = ([], False, s)"
| "read_groups index (Suc n) s =
     (case (if 0 < n then read_separator (CHR '':'') index read_ipv4_addr s else None) of
        Some (octets, rest) \<Rightarrow>
          ([of_groups 256 (take 2 octets), of_groups 256 (drop 2 octets)], True, rest)
      | None \<Rightarrow>
          (case read_separator (CHR '':'') index (read_number 16 4 True 65535) s of
             None \<Rightarrow> ([], False, s)
           | Some (g, rest) \<Rightarrow>
               (let (gs, v4, rest) = read_groups (Suc index) n rest in (g # gs, v4, rest))))"

definition read_ipv6_addr :: "nat list parser" where
  "read_ipv6_addr s =
     (let (head, head_ipv4, rest) = read_groups 0 8 s in
      if length head = 8 then Some (head, rest)
      else if head_ipv4 then None
      else if \<not> starts_with ''::'' rest then None
      else
        (let (tail, _, rest) = read_groups 0 (8 - (length head + 1)) (drop 2 rest) in
         Some (head @ replicate (8 - length head - length tail) 0 @ tail, rest)))"

definition read_ip_addr :: "IpAddr parser" where
  "read_ip_addr s =
     (case read_ipv4_addr s of
        Some (octets, rest) \<Rightarrow> Some (V4 (of_nat (of_groups 256 octets)), rest)
      | None \<Rightarrow>
          (case read_ipv6_addr s of
             Some (groups, rest) \<Rightarrow> Some (V6 (of_nat (of_groups 65536 groups)), rest)
           | None \<Rightarrow> None))"

text \<open>\<open>parse_with\<close>: the whole input must be consumed.\<close>

definition parse_all :: "'a parser \<Rightarrow> string \<Rightarrow> 'a option" where
  "parse_all p s = (case p s of Some (v, []) \<Rightarrow> Some v | _ \<Rightarrow> None)"

definition parse_ipv4 :: "string \<Rightarrow> u32 option" where
  "parse_ipv4 s =
     (if 15 < length s then None
      else map_option (\<lambda>octets. of_nat (of_groups 256 octets)) (parse_all read_ipv4_addr s))"

definition parse_ipv6 :: "string \<Rightarrow> u128 option" where
  "parse_ipv6 s = map_option (\<lambda>groups. of_nat (of_groups 65536 groups)) (parse_all read_ipv6_addr s)"

definition parse_ip :: "string \<Rightarrow> IpAddr option" where
  "parse_ip s = parse_all read_ip_addr s"

text \<open>\<open>SocketAddr::from_str\<close>: \<open>v4:port\<close>, or \<open>[v6%scope]:port\<close> with an optional decimal scope.\<close>

definition read_port :: "nat parser" where
  "read_port s =
     (case read_given_char (CHR '':'') s of
        None \<Rightarrow> None
      | Some (_, rest) \<Rightarrow>
          (let (v, n, rest) = read_digits 10 0 0 rest in
           if n = 0 \<or> 65535 < v then None else Some (v, rest)))"

definition read_scope_id :: "string \<Rightarrow> string option" where
  "read_scope_id s =
     (case s of
        CHR ''%'' # digits \<Rightarrow>
          (let (v, n, rest) = read_digits 10 0 0 digits in
           if n = 0 \<or> 4294967295 < v then None else Some rest)
      | _ \<Rightarrow> None)"

definition parse_socket_addr :: "string \<Rightarrow> (IpAddr \<times> nat) option" where
  "parse_socket_addr s =
     parse_all (\<lambda>s.
       case read_ipv4_addr s of
         Some (octets, rest) \<Rightarrow>
           (case read_port rest of
              Some (port, rest) \<Rightarrow> Some ((V4 (of_nat (of_groups 256 octets)), port), rest)
            | None \<Rightarrow> None)
       | None \<Rightarrow>
           (case read_given_char (CHR ''['') s of
              None \<Rightarrow> None
            | Some (_, rest) \<Rightarrow>
                (case read_ipv6_addr rest of
                   None \<Rightarrow> None
                 | Some (groups, rest) \<Rightarrow>
                     (let rest = (case read_scope_id rest of Some r \<Rightarrow> r | None \<Rightarrow> rest) in
                      case read_given_char (CHR '']'') rest of
                        None \<Rightarrow> None
                      | Some (_, rest) \<Rightarrow>
                          (case read_port rest of
                             Some (port, rest) \<Rightarrow>
                               Some ((V6 (of_nat (of_groups 65536 groups)), port), rest)
                           | None \<Rightarrow> None))))) s"

section \<open>Printing\<close>

definition octets_of :: "u32 \<Rightarrow> nat list" where
  "octets_of a = map (\<lambda>i. unat (drop_bit (8 * i) a) mod 256) [3, 2, 1, 0]"

definition segments_of :: "u128 \<Rightarrow> nat list" where
  "segments_of a = map (\<lambda>i. unat (drop_bit (16 * i) a) mod 65536) [7, 6, 5, 4, 3, 2, 1, 0]"

definition join :: "string \<Rightarrow> string list \<Rightarrow> string" where
  "join sep parts = (case parts of [] \<Rightarrow> [] | p # ps \<Rightarrow> p @ concat (map ((@) sep) ps))"

definition show_ipv4 :: "u32 \<Rightarrow> string" where
  "show_ipv4 a = join ''.'' (map dec (octets_of a))"

definition hex_digit :: "nat \<Rightarrow> char" where
  "hex_digit d = (if d < 10 then char_of (48 + d) else char_of (87 + d))"

fun hex :: "nat \<Rightarrow> string" where
  "hex n = (if n < 16 then [hex_digit n] else hex (n div 16) @ [hex_digit (n mod 16)])"

declare hex.simps [simp del]

text \<open>The longest run of zero segments, the first of them on a tie: start and length.\<close>

fun longest_zero_run :: "nat \<Rightarrow> nat list \<Rightarrow> nat \<times> nat \<Rightarrow> nat \<times> nat \<Rightarrow> nat \<times> nat" where
  "longest_zero_run i [] current longest = longest"
| "longest_zero_run i (g # gs) (start, len) longest =
     (if g = 0 then
        (let current = (if len = 0 then i else start, len + 1) in
         longest_zero_run (Suc i) gs current (if snd longest < snd current then current else longest))
      else longest_zero_run (Suc i) gs (0, 0) longest)"

definition show_ipv6 :: "u128 \<Rightarrow> string" where
  "show_ipv6 a =
     (case to_ipv4_mapped a of
        Some v4 \<Rightarrow> ''::ffff:'' @ show_ipv4 v4
      | None \<Rightarrow>
          (let gs = segments_of a; (start, len) = longest_zero_run 0 gs (0, 0) (0, 0) in
           if 1 < len then
             join '':'' (map hex (take start gs)) @ ''::'' @ join '':'' (map hex (drop (start + len) gs))
           else join '':'' (map hex gs)))"

definition show_ip :: "IpAddr \<Rightarrow> string" where
  "show_ip ip = (case ip of V4 a \<Rightarrow> show_ipv4 a | V6 a \<Rightarrow> show_ipv6 a)"

section \<open>Facts\<close>

lemma to_canonical_idem [simp]: "to_canonical (to_canonical ip) = to_canonical ip"
  by (auto simp: to_canonical_def split: IpAddr.splits option.splits)

lemma split_on_nonempty [simp]: "split_on sep s \<noteq> []"
  by (cases s) (auto split: list.splits)

lemma split_on_append:
  "split_on sep (s @ sep # t) = split_on sep s @ split_on sep t"
proof (induction s)
  case (Cons c s)
  then show ?case by (cases "split_on sep s") auto
qed simp

lemma split_on_no_sep: "sep \<notin> set s \<Longrightarrow> split_on sep s = [s]"
  by (induction s) auto

lemma strip_str_prefix_iff: "strip_str_prefix prefix s = Some rest \<longleftrightarrow> s = prefix @ rest"
  by (auto simp: strip_str_prefix_def starts_with_def) (metis append_take_drop_id)

lemma strip_str_suffix_iff: "strip_str_suffix suffix s = Some front \<longleftrightarrow> s = front @ suffix"
proof -
  have "starts_with (rev suffix) (rev s) \<longleftrightarrow> (\<exists>front. s = front @ suffix)"
    by (metis rev_append rev_rev_ident strip_str_prefix_def strip_str_prefix_iff option.distinct(1))
  then show ?thesis by (auto simp: strip_str_suffix_def)
qed

lemma rfind_SomeD:
  assumes "rfind c s = Some i"
  shows "i < length s" "s ! i = c" "c \<notin> set (drop (Suc i) s)"
proof -
  from assms have "c \<in> set s" by (auto simp: rfind_def split: if_splits)
  then obtain before after where s: "s = before @ c # after" "c \<notin> set after" by (meson split_list_last)
  have stop: "takeWhile (\<lambda>d. d \<noteq> c) (rev after @ c # rev before) = rev after"
    using s(2) by (subst takeWhile_append2) auto
  from assms s stop have "i = length before" by (simp add: rfind_def)
  with s show "i < length s" "s ! i = c" "c \<notin> set (drop (Suc i) s)" by auto
qed

lemma rfind_None_iff: "rfind c s = None \<longleftrightarrow> c \<notin> set s"
  by (simp add: rfind_def)

section \<open>IPv4 text round trip\<close>

lemma to_digit_digit [simp]: "d < 10 \<Longrightarrow> to_digit 10 (digit d) = Some d"
  by (simp add: to_digit_def Let_def)

lemma read_digits_append:
  "\<forall>c \<in> set ds. to_digit 10 c \<noteq> None \<Longrightarrow>
   read_digits 10 acc n (ds @ rest) =
     read_digits 10 (foldl (\<lambda>v c. v * 10 + the (to_digit 10 c)) acc ds) (n + length ds) rest"
  by (induction ds arbitrary: acc n) auto

lemma to_digit_ascii: "is_ascii_digit c \<Longrightarrow> to_digit 10 c = Some (digit_value c)"
  by (auto simp: to_digit_def is_ascii_digit_def digit_value_def Let_def)

definition stops :: "string \<Rightarrow> bool" where
  "stops rest \<longleftrightarrow> (case rest of [] \<Rightarrow> True | c # _ \<Rightarrow> to_digit 10 c = None)"

lemma read_digits_dec:
  assumes "stops rest"
  shows "read_digits 10 0 0 (dec n @ rest) = (n, length (dec n), rest)"
proof -
  have ascii: "\<forall>c \<in> set (dec n). to_digit 10 c = Some (digit_value c)"
    using dec_digits to_digit_ascii by blast
  have "foldl (\<lambda>v c. v * 10 + the (to_digit 10 c)) 0 (dec n) = dec_value (dec n)"
    unfolding dec_value_def using ascii by (intro foldl_cong) auto
  then have "read_digits 10 0 0 (dec n @ rest) = read_digits 10 n (length (dec n)) rest"
    using read_digits_append [of "dec n" 0 0 rest] ascii by (simp add: dec_value_dec)
  with assms show ?thesis by (cases rest) (auto simp: stops_def)
qed

lemma dec_length: "n < 1000 \<Longrightarrow> length (dec n) \<le> 3"
  by (simp add: dec.simps [of n] dec.simps [of "n div 10"] dec.simps [of "n div 100"] div_mult2_eq [symmetric])

lemma dec_no_leading_zero: "take 1 (dec n) = ''0'' \<Longrightarrow> n = 0"
proof (induction n rule: dec.induct)
  case (1 n)
  show ?case
  proof (cases "n < 10")
    case True
    with 1(2) have "digit n = CHR ''0''" by (simp add: dec.simps [of n])
    then have "byte_of (digit n) = byte_of (CHR ''0'')" by simp
    with True show ?thesis by (simp add: byte_of_def [of "CHR ''0''"])
  next
    case False
    then have "take 1 (dec n) = take 1 (dec (n div 10))"
      by (cases "dec (n div 10)") (simp_all add: dec.simps [of n])
    with 1 False show ?thesis by simp
  qed
qed

lemma read_number_dec:
  assumes "n \<le> 255" "stops rest"
  shows "read_number 10 3 False 255 (dec n @ rest) = Some (n, rest)"
proof -
  have "take 1 (dec n @ rest) = take 1 (dec n)" by (cases "dec n") auto
  moreover have "length (dec n) \<le> 3" using dec_length assms by simp
  moreover have "n = 0 \<Longrightarrow> length (dec n) = 1" by (simp add: dec.simps)
  ultimately show ?thesis
    using assms dec_no_leading_zero [of n] read_digits_dec [OF assms(2), of n]
    by (auto simp: read_number_def)
qed

lemma stops_dot [simp]: "stops (CHR ''.'' # r)" "stops []" "stops (CHR '':'' # r)"
  by (simp_all add: stops_def to_digit_def byte_of_def)

lemma read_octets_show:
  assumes "\<forall>g \<in> set gs. g \<le> 255" "stops rest" "case rest of [] \<Rightarrow> True | c # _ \<Rightarrow> c \<noteq> CHR ''.''"
  shows "read_octets index (length gs) ((if index = 0 then join ''.'' (map dec gs)
      else concat (map ((@) ''.'') (map dec gs))) @ rest) = Some (gs, rest)"
  using assms(1)
proof (induction gs arbitrary: index)
  case Nil
  then show ?case by (simp add: join_def)
next
  case (Cons g gs)
  let ?tail = "concat (map ((@) ''.'') (map dec gs)) @ rest"
  have stop: "stops ?tail" using assms(2) by (cases gs) auto
  have num: "read_number 10 3 False 255 (dec g @ ?tail) = Some (g, ?tail)"
    using read_number_dec [OF _ stop] Cons.prems by simp
  have rest: "read_octets (Suc index) (length gs) ?tail = Some (gs, rest)"
    using Cons.IH [of "Suc index"] Cons.prems by simp
  show ?case
    using num rest
    by (cases "index = 0") (simp_all add: read_separator_def read_given_char_def join_def)
qed

lemma base_256_digits:
  assumes "n < 256 ^ 4"
  shows "((n div 256 ^ 3 mod 256 * 256 + n div 256 ^ 2 mod 256) * 256 + n div 256 mod 256) * 256 + n mod 256 = (n :: nat)"
proof -
  have step: "m div 256 * 256 + m mod 256 = m" for m :: nat by simp
  have "n div 256 ^ 3 mod 256 = n div 256 ^ 3" using assms by (simp add: less_mult_imp_div_less)
  moreover have "n div 256 ^ 3 = n div 256 ^ 2 div 256" "n div 256 ^ 2 = n div 256 div 256"
    by (simp_all add: div_mult2_eq [symmetric])
  ultimately show ?thesis using step by metis
qed

lemma of_groups_octets: "of_groups 256 (octets_of a) = unat a"
proof -
  have "octets_of a = [unat a div 256 ^ 3 mod 256, unat a div 256 ^ 2 mod 256, unat a div 256 mod 256, unat a mod 256]"
    by (simp add: octets_of_def drop_bit_eq_div unat_div)
  moreover have "unat a < 256 ^ 4" using unsigned_less [of a] by simp
  ultimately show ?thesis using base_256_digits [of "unat a"] by (simp add: of_groups_def)
qed

lemma octets_roundtrip: "of_nat (of_groups 256 (octets_of a)) = a"
  by (simp add: of_groups_octets)

lemma octets_bound: "g \<in> set (octets_of a) \<Longrightarrow> g \<le> 255"
  by (auto simp: octets_of_def)

lemma length_octets: "length (octets_of a) = 4"
  by (simp add: octets_of_def)

lemma read_ipv4_show:
  "stops rest \<Longrightarrow> (case rest of [] \<Rightarrow> True | c # _ \<Rightarrow> c \<noteq> CHR ''.'') \<Longrightarrow>
   read_ipv4_addr (show_ipv4 a @ rest) = Some (octets_of a, rest)"
  using read_octets_show [of "octets_of a" rest 0] octets_bound
  by (simp add: read_ipv4_addr_def show_ipv4_def length_octets)

lemma parse_show_ipv4 [codec]: "parse_ip (show_ipv4 a) = Some (V4 a)"
  using read_ipv4_show [of "[]" a]
  by (simp add: parse_ip_def parse_all_def read_ip_addr_def octets_roundtrip)

lemma length_show_ipv4: "length (show_ipv4 a) \<le> 15"
proof -
  have "length (dec (n mod 256)) \<le> 3" for n :: nat
    by (intro dec_length) (simp add: less_imp_le_nat mod_less_divisor [THEN less_trans])
  from this [of "unat (drop_bit 24 a)"] this [of "unat (drop_bit 16 a)"] this [of "unat (drop_bit 8 a)"]
    this [of "unat a"]
  show ?thesis by (simp add: show_ipv4_def octets_of_def join_def)
qed

lemma parse_ipv4_show [codec]: "parse_ipv4 (show_ipv4 a) = Some a"
  using read_ipv4_show [of "[]" a] length_show_ipv4 [of a]
  by (simp add: parse_ipv4_def parse_all_def octets_roundtrip)

section \<open>Text of mapped addresses\<close>

lemma read_groups_pos:
  "0 < n \<Longrightarrow> read_groups index n s =
     (case (if 1 < n then read_separator (CHR '':'') index read_ipv4_addr s else None) of
        Some (octets, rest) \<Rightarrow>
          ([of_groups 256 (take 2 octets), of_groups 256 (drop 2 octets)], True, rest)
      | None \<Rightarrow>
          (case read_separator (CHR '':'') index (read_number 16 4 True 65535) s of
             None \<Rightarrow> ([], False, s)
           | Some (g, rest) \<Rightarrow>
               (let (gs, v4, rest) = read_groups (Suc index) (n - 1) rest in (g # gs, v4, rest))))"
  by (cases n) (simp_all cong: option.case_cong)

lemma read_ipv4_first: "read_number 10 3 False 255 s = None \<Longrightarrow> read_ipv4_addr s = None"
  using read_octets.simps(2) [of 0 3 s] by (simp add: read_ipv4_addr_def read_separator_def)

lemma no_ipv4_at_colon:
  "read_ipv4_addr (CHR '':'' # s) = None" "read_number 16 4 True 65535 (CHR '':'' # s) = None"
  by (auto intro!: read_ipv4_first simp: read_number_def to_digit_def byte_of_def)

lemma no_ipv4_at_letter: "read_ipv4_addr (CHR ''f'' # s) = None"
  by (rule read_ipv4_first) (simp add: read_number_def to_digit_def byte_of_def)

lemma read_ffff: "read_number 16 4 True 65535 (''ffff:'' @ s) = Some (65535, CHR '':'' # s)"
  by (simp add: read_number_def to_digit_def byte_of_def)

lemma parse_ipv6_mapped [codec]:
  "parse_ipv6 (''::ffff:'' @ show_ipv4 b) = Some (of_nat (0xFFFF * 2 ^ 32 + unat b))"
proof -
  let ?v4 = "show_ipv4 b"
  have v4: "read_ipv4_addr ?v4 = Some (octets_of b, [])" using read_ipv4_show [of "[]" b] by simp
  have head: "read_groups 0 8 (''::ffff:'' @ ?v4) = ([], False, ''::ffff:'' @ ?v4)"
    by (simp add: read_groups_pos read_separator_def no_ipv4_at_colon)
  have embedded: "read_groups (Suc 0) 6 (CHR '':'' # ?v4) =
      ([of_groups 256 (take 2 (octets_of b)), of_groups 256 (drop 2 (octets_of b))], True, [])"
    by (simp add: read_groups_pos read_separator_def read_given_char_def v4)
  have tail: "read_groups 0 7 (''ffff:'' @ ?v4) =
      ([0xFFFF, of_groups 256 (take 2 (octets_of b)), of_groups 256 (drop 2 (octets_of b))], True, [])"
    using embedded read_ffff [of ?v4]
    by (simp add: read_groups_pos [of 7] read_separator_def no_ipv4_at_letter)
  have "of_groups 65536 [0, 0, 0, 0, 0, 0xFFFF, of_groups 256 (take 2 (octets_of b)),
      of_groups 256 (drop 2 (octets_of b))] = 0xFFFF * 2 ^ 32 + unat b"
    using of_groups_octets [of b] by (simp add: of_groups_def octets_of_def)
  moreover have "replicate 5 (0 :: nat) = [0, 0, 0, 0, 0]" by (simp add: numeral_eq_Suc)
  ultimately show ?thesis
    using head tail by (simp add: parse_ipv6_def parse_all_def read_ipv6_addr_def starts_with_def)
qed

lemma show_ipv4_chars: "c \<in> set (show_ipv4 a) \<Longrightarrow> is_ascii_digit c \<or> c = CHR ''.''"
  using dec_digits by (auto simp: show_ipv4_def join_def octets_of_def)

end
