(* ===== verification/Cidr.thy ===== *)
theory Cidr
  imports Std_Net "HOL-Library.Product_Lexorder"
begin

unbundle bit_operations_syntax

text \<open>
  \<^verbatim>\<open>src/src/util/cidr.rs\<close>: the CIDR set behind every allow, deny and trust list of the gateway, and
  \<^verbatim>\<open>src/src/util/client_identity.rs\<close>: the folding of IPv4-mapped addresses. Networks are words and
  matching is masking, as in the source; the lemmas relate it to intervals of addresses.
\<close>

section \<open>Client identity\<close>

definition canonical_ip :: "IpAddr \<Rightarrow> IpAddr" where
  "canonical_ip ip = to_canonical ip"

definition canonical_socket_addr :: "IpAddr \<times> u16 \<Rightarrow> IpAddr \<times> u16" where
  "canonical_socket_addr addr = (canonical_ip (fst addr), snd addr)"

definition canonical_ip_string :: "IpAddr \<Rightarrow> string" where
  "canonical_ip_string ip = show_ip (canonical_ip ip)"

definition parse_client_ip_literal :: "string \<Rightarrow> IpAddr option" where
  "parse_client_ip_literal client_ip =
     (case parse_ipv4 client_ip of
        Some ipv4 \<Rightarrow> Some (V4 ipv4)
      | None \<Rightarrow>
          (let unbracketed =
                 (if client_ip \<noteq> [] \<and> hd client_ip = CHR ''['' \<and> tl client_ip \<noteq> [] \<and>
                     last (tl client_ip) = CHR '']''
                  then butlast (tl client_ip) else client_ip);
               without_zone = takeWhile (\<lambda>c. c \<noteq> CHR ''%'') unbracketed
           in map_option V6 (parse_ipv6 without_zone)))"

definition parse_canonical_client_ip :: "string \<Rightarrow> IpAddr option" where
  "parse_canonical_client_ip client_ip = map_option canonical_ip (parse_client_ip_literal client_ip)"

text \<open>The text and whether it is borrowed from the input.\<close>

definition canonical_client_ip_text :: "string \<Rightarrow> string \<times> bool" where
  "canonical_client_ip_text client_ip =
     (if CHR '':'' \<notin> set client_ip then (client_ip, True)
      else case parse_client_ip_literal client_ip of
        Some (V6 ipv6) \<Rightarrow>
          (case to_ipv4_mapped ipv6 of
             Some ipv4 \<Rightarrow> (show_ipv4 ipv4, False)
           | None \<Rightarrow> (client_ip, True))
      | _ \<Rightarrow> (client_ip, True))"

section \<open>CIDR entries\<close>

record CidrEntry =
  network :: IpAddr
  prefix_len :: u8

type_synonym CidrSet = "CidrEntry list"

definition canonicalize_ip :: "IpAddr \<Rightarrow> IpAddr" where
  "canonicalize_ip ip = canonical_ip ip"

definition canonicalize_cidr_network :: "IpAddr \<Rightarrow> u8 \<Rightarrow> (IpAddr \<times> u8) option" where
  "canonicalize_cidr_network ip plen =
     (case ip of
        V6 v6 \<Rightarrow>
          (case to_ipv4_mapped v6 of
             Some v4 \<Rightarrow> if plen < 96 then None else Some (V4 v4, plen - 96)
           | None \<Rightarrow> Some (V6 v6, plen))
      | other \<Rightarrow> Some (other, plen))"

text \<open>\<open>MAX.checked_shl(n).unwrap_or(0)\<close> on a \<open>w\<close>-bit word.\<close>

definition high_mask :: "nat \<Rightarrow> 'a::len word" where
  "high_mask n = (if n < LENGTH('a) then push_bit n (- 1) else 0)"

definition mask_network :: "IpAddr \<Rightarrow> u8 \<Rightarrow> IpAddr" where
  "mask_network net plen =
     (case net of
        V4 v4 \<Rightarrow> V4 (v4 AND (if plen = 0 then 0 else high_mask (32 - unat plen)))
      | V6 v6 \<Rightarrow> V6 (v6 AND (if plen = 0 then 0 else high_mask (128 - unat plen))))"

definition matches_ipv4 :: "u32 \<Rightarrow> u32 \<Rightarrow> u8 \<Rightarrow> bool" where
  "matches_ipv4 net addr plen =
     (if plen = 0 then True
      else (let m = high_mask (32 - unat plen) in net AND m = addr AND m))"

definition matches_ipv6 :: "u128 \<Rightarrow> u128 \<Rightarrow> u8 \<Rightarrow> bool" where
  "matches_ipv6 net addr plen =
     (if plen = 0 then True
      else (let m = high_mask (128 - unat plen) in net AND m = addr AND m))"

definition matches :: "CidrEntry \<Rightarrow> IpAddr \<Rightarrow> bool" where
  "matches entry ip =
     (case (network entry, ip) of
        (V4 net, V4 addr) \<Rightarrow> matches_ipv4 net addr (prefix_len entry)
      | (V4 net, V6 addr) \<Rightarrow>
          (case to_ipv4_mapped addr of
             Some v4 \<Rightarrow> matches_ipv4 net v4 (prefix_len entry)
           | None \<Rightarrow> False)
      | (V6 net, V6 addr) \<Rightarrow> matches_ipv6 net addr (prefix_len entry)
      | (V6 _, V4 _) \<Rightarrow> False)"

definition contains :: "CidrSet \<Rightarrow> IpAddr \<Rightarrow> bool" where
  "contains cidrs ip = list_ex (\<lambda>entry. matches entry ip) cidrs"

definition parse_entry :: "string \<Rightarrow> CidrEntry option" where
  "parse_entry entry =
     (case split_once (CHR ''/'') entry of
        Some (network_str, prefix_str) \<Rightarrow>
          (case parse_ip (trim network_str) of
             None \<Rightarrow> None
           | Some ip \<Rightarrow>
               (case parse_uint 255 (trim prefix_str) of
                  None \<Rightarrow> None
                | Some p \<Rightarrow>
                    (case canonicalize_cidr_network ip (of_nat p) of
                       None \<Rightarrow> None
                     | Some (net, plen) \<Rightarrow>
                         (let max_prefix = (case net of V4 _ \<Rightarrow> 32 | V6 _ \<Rightarrow> 128) in
                          if max_prefix < plen then None
                          else Some \<lparr>network = mask_network net plen, prefix_len = plen\<rparr>))))
      | None \<Rightarrow>
          (case parse_ip (trim entry) of
             None \<Rightarrow> None
           | Some raw_ip \<Rightarrow>
               (let ip = canonicalize_ip raw_ip in
                Some \<lparr>network = ip, prefix_len = (case ip of V4 _ \<Rightarrow> 32 | V6 _ \<Rightarrow> 128)\<rparr>)))"

fun parse_entries_from :: "bool \<Rightarrow> string list \<Rightarrow> CidrEntry list \<times> string list" where
  "parse_entries_from reject_empty [] = ([], [])"
| "parse_entries_from reject_empty (raw # rest) =
     (let entry = trim raw; (entries, invalid) = parse_entries_from reject_empty rest in
      if entry = [] then (entries, if reject_empty then ''<empty>'' # invalid else invalid)
      else case parse_entry entry of
        Some cidr \<Rightarrow> (cidr # entries, invalid)
      | None \<Rightarrow> (entries, entry # invalid))"

definition parse_entries :: "string \<Rightarrow> bool \<Rightarrow> CidrEntry list \<times> string list" where
  "parse_entries raw reject_empty = parse_entries_from reject_empty (split_on (CHR '','') raw)"

definition parse_strict :: "string \<Rightarrow> string + CidrSet" where
  "parse_strict raw =
     (if trim raw = [] then Inr []
      else
        (let (entries, invalid) = parse_entries raw True in
         if invalid \<noteq> [] then
           Inl (''Invalid CIDR/IP entries: '' @ join '', '' invalid @
                ''. Expected formats: 10.0.0.0/8, 192.168.1.1, ::1, fc00::/7'')
         else Inr entries))"

definition parse_lenient :: "string \<Rightarrow> CidrSet \<times> string list" where
  "parse_lenient raw = parse_entries raw False"

section \<open>Whether a list restricts anything\<close>

fun cover_loop :: "u128 \<Rightarrow> u128 \<Rightarrow> (u128 \<times> u128) list \<Rightarrow> bool" where
  "cover_loop highest covered [] \<longleftrightarrow> highest \<le> covered"
| "cover_loop highest covered ((start, end) # rest) \<longleftrightarrow>
     (if highest \<le> covered then True
      else if saturating_add covered 1 < start then False
      else cover_loop highest (if covered < end then end else covered) rest)"

definition ranges_cover_full :: "(u128 \<times> u128) list \<Rightarrow> u128 \<Rightarrow> bool" where
  "ranges_cover_full ranges highest =
     (case sort ranges of
        [] \<Rightarrow> False
      | (start, end) # rest \<Rightarrow> if start \<noteq> 0 then False else cover_loop highest end rest)"

definition range_of_v4 :: "u32 \<Rightarrow> u8 \<Rightarrow> u128 \<times> u128" where
  "range_of_v4 net plen =
     (let prefix = min (unat plen) 32;
          host = push_bit (32 - prefix) 1 - 1;
          start = ucast net AND NOT host
      in (start, start OR host))"

definition range_of_v6 :: "u128 \<Rightarrow> u8 \<Rightarrow> u128 \<times> u128" where
  "range_of_v6 net plen =
     (let prefix = min (unat plen) 128 in
      if prefix = 0 then (0, - 1)
      else
        (let host = push_bit (128 - prefix) 1 - 1;
             start = net AND NOT host
         in (start, start OR host)))"

definition v4_ranges :: "CidrSet \<Rightarrow> (u128 \<times> u128) list" where
  "v4_ranges cidrs =
     List.map_filter (\<lambda>entry. case network entry of
        V4 net \<Rightarrow> Some (range_of_v4 net (prefix_len entry)) | V6 _ \<Rightarrow> None) cidrs"

definition v6_ranges :: "CidrSet \<Rightarrow> (u128 \<times> u128) list" where
  "v6_ranges cidrs =
     List.map_filter (\<lambda>entry. case network entry of
        V6 net \<Rightarrow> Some (range_of_v6 net (prefix_len entry)) | V4 _ \<Rightarrow> None) cidrs"

definition permits_all_family :: "CidrSet \<Rightarrow> bool" where
  "permits_all_family cidrs \<longleftrightarrow>
     ranges_cover_full (v4_ranges cidrs) 0xFFFFFFFF \<or> ranges_cover_full (v6_ranges cidrs) (- 1)"

section \<open>Masks and intervals\<close>

lemma high_mask_NOT: "n \<le> LENGTH('a) \<Longrightarrow> (high_mask n :: 'a::len word) = NOT (mask n)"
  by (rule bit_word_eqI) (auto simp: high_mask_def bit_simps)

lemma and_not_mask_eq_iff:
  "(a AND NOT (mask n) = b AND NOT (mask n)) \<longleftrightarrow> drop_bit n a = drop_bit n (b :: 'a::len word)"
proof
  assume eq: "a AND NOT (mask n) = b AND NOT (mask n)"
  show "drop_bit n a = drop_bit n b"
  proof (rule bit_word_eqI)
    fix k
    assume "k < LENGTH('a)"
    have "bit (a AND NOT (mask n)) (n + k) = bit (b AND NOT (mask n)) (n + k)" using eq by simp
    then show "bit (drop_bit n a) k = bit (drop_bit n b) k"
      by (auto simp: bit_simps dest: bit_imp_le_length)
  qed
next
  assume eq: "drop_bit n a = drop_bit n b"
  show "a AND NOT (mask n) = b AND NOT (mask n)"
  proof (rule bit_word_eqI)
    fix k
    assume "k < LENGTH('a)"
    have "bit (drop_bit n a) (k - n) = bit (drop_bit n b) (k - n)" using eq by simp
    then show "bit (a AND NOT (mask n)) k = bit (b AND NOT (mask n)) k"
      by (cases "k < n") (auto simp: bit_simps)
  qed
qed

lemma uint_drop_bit: "drop_bit n a = drop_bit n b \<longleftrightarrow> uint a div 2 ^ n = uint (b :: 'a::len word) div 2 ^ n"
  unfolding word_uint_eq_iff unsigned_drop_bit_eq
  by (simp add: drop_bit_eq_div take_bit_int_eq_self)

lemma uint_and_not_mask: "uint (w AND NOT (mask k) :: 'a::len word) = uint w div 2 ^ k * 2 ^ k"
proof -
  have "uint (w AND NOT (mask k)) = push_bit k (drop_bit k (uint w))"
    by (rule bit_eqI) (auto simp: bit_simps dest: bit_imp_le_length)
  then show ?thesis by (simp add: push_bit_eq_mult drop_bit_eq_div)
qed

lemma uint_or_mask:
  assumes "k \<le> LENGTH('a)"
  shows "uint (w AND NOT (mask k) OR mask k :: 'a::len word) = uint w div 2 ^ k * 2 ^ k + (2 ^ k - 1)"
proof -
  have "uint (w AND NOT (mask k) OR mask k) = push_bit k (drop_bit k (uint w)) OR mask k"
    using assms by (intro bit_eqI) (auto simp: bit_simps dest: bit_imp_le_length)
  also have "\<dots> = push_bit k (drop_bit k (uint w)) + mask k"
    by (rule disjunctive_add [symmetric]) (auto simp: bit_simps)
  finally show ?thesis by (simp add: push_bit_eq_mult drop_bit_eq_div mask_eq_exp_minus_1)
qed

lemma interval_div:
  assumes "0 < d"
  shows "n div d * d \<le> x \<and> x \<le> n div d * d + (d - 1) \<longleftrightarrow> x div d = n div (d :: int)"
proof
  assume "n div d * d \<le> x \<and> x \<le> n div d * d + (d - 1)"
  then show "x div d = n div d"
    by (intro int_div_pos_eq [of x d _ "x - n div d * d"]) (auto simp: algebra_simps)
next
  assume "x div d = n div d"
  then have "n div d * d = x - x mod d" by (metis minus_mod_eq_div_mult)
  with assms pos_mod_bound [OF assms, of x] show "n div d * d \<le> x \<and> x \<le> n div d * d + (d - 1)"
    by simp
qed

text \<open>A word lies between the masked network and its last address iff the prefixes agree.\<close>

lemma mask_interval:
  assumes "k \<le> LENGTH('a)"
  shows "(w AND NOT (mask k) \<le> x \<and> x \<le> w AND NOT (mask k) OR mask k) \<longleftrightarrow>
    drop_bit k x = drop_bit k (w :: 'a::len word)"
  unfolding word_le_def uint_drop_bit uint_and_not_mask uint_or_mask [OF assms]
  by (rule interval_div) simp

lemma host_mask: "push_bit k 1 - 1 = (mask k :: 'a::len word)"
  by (simp add: mask_eq_decr_exp push_bit_of_1)

lemma matches_ipv4_drop:
  assumes "unat p \<le> 32"
  shows "matches_ipv4 net a p \<longleftrightarrow> drop_bit (32 - unat p) a = drop_bit (32 - unat p) net"
proof (cases "p = 0")
  case True
  have "drop_bit 32 w = 0" for w :: u32 by (rule bit_word_eqI) (simp add: bit_simps)
  with True show ?thesis by (simp add: matches_ipv4_def)
next
  case False
  then show ?thesis
    by (auto simp: matches_ipv4_def high_mask_NOT and_not_mask_eq_iff)
qed

lemma matches_ipv6_drop:
  assumes "unat p \<le> 128"
  shows "matches_ipv6 net a p \<longleftrightarrow> drop_bit (128 - unat p) a = drop_bit (128 - unat p) net"
proof (cases "p = 0")
  case True
  have "drop_bit 128 w = 0" for w :: u128 by (rule bit_word_eqI) (simp add: bit_simps)
  with True show ?thesis by (simp add: matches_ipv6_def)
next
  case False
  then show ?thesis
    by (auto simp: matches_ipv6_def high_mask_NOT and_not_mask_eq_iff)
qed

lemma uint_ucast_u32: "uint (ucast (w :: u32) :: u128) = uint w"
proof -
  have "uint w < 2 ^ 32" using unsigned_less [of w] by simp
  then have "uint w < 2 ^ 128" by (rule less_le_trans) simp
  then show ?thesis by (simp add: unsigned_ucast_eq take_bit_int_eq_self)
qed

lemma ucast_drop_eq:
  "drop_bit k (ucast a :: u128) = drop_bit k (ucast b) \<longleftrightarrow> drop_bit k a = drop_bit k (b :: u32)"
  unfolding uint_drop_bit uint_ucast_u32 ..

lemma range_of_v4_iff:
  assumes "unat p \<le> 32"
  shows "fst (range_of_v4 net p) \<le> ucast a \<and> ucast a \<le> snd (range_of_v4 net p) \<longleftrightarrow> matches_ipv4 net a p"
proof -
  have "min (unat p) 32 = unat p" using assms by simp
  then show ?thesis
    using mask_interval [of "32 - unat p" "ucast net :: u128" "ucast a"]
    unfolding range_of_v4_def Let_def host_mask matches_ipv4_drop [OF assms] by (simp add: ucast_drop_eq)
qed

lemma range_of_v6_iff:
  assumes "unat p \<le> 128"
  shows "fst (range_of_v6 net p) \<le> a \<and> a \<le> snd (range_of_v6 net p) \<longleftrightarrow> matches_ipv6 net a p"
proof (cases "unat p = 0")
  case True
  then have "p = 0" by (simp add: unat_eq_0)
  with True show ?thesis by (simp add: range_of_v6_def matches_ipv6_def)
next
  case False
  moreover have "min (unat p) 128 = unat p" using assms by simp
  ultimately show ?thesis
    using mask_interval [of "128 - unat p" net a]
    unfolding range_of_v6_def Let_def host_mask matches_ipv6_drop [OF assms] by simp
qed

section \<open>The merge of the ranges\<close>

text \<open>One range of the merge: everything up to its end is covered afterwards.\<close>

lemma cover_step:
  fixes covered :: u128
  assumes succ: "\<And>x. x \<le> covered \<or> covered + 1 \<le> x" and gap: "s \<le> covered + 1"
  shows "(\<forall>x. (if covered < e then e else covered) < x \<and> x \<le> highest \<longrightarrow> P x) \<longleftrightarrow>
    (\<forall>x. covered < x \<and> x \<le> highest \<longrightarrow> (s \<le> x \<and> x \<le> e) \<or> P x)"
proof (intro iffI allI impI)
  fix x
  assume above: "\<forall>x. (if covered < e then e else covered) < x \<and> x \<le> highest \<longrightarrow> P x"
    and x: "covered < x \<and> x \<le> highest"
  from x succ [of x] gap have "s \<le> x" by (meson linorder_not_le order_trans)
  with x above show "(s \<le> x \<and> x \<le> e) \<or> P x" by (cases "x \<le> e") (auto split: if_splits)
next
  fix x
  assume all: "\<forall>x. covered < x \<and> x \<le> highest \<longrightarrow> (s \<le> x \<and> x \<le> e) \<or> P x"
    and x: "(if covered < e then e else covered) < x \<and> x \<le> highest"
  then have "covered < x" "\<not> x \<le> e" by (auto split: if_splits)
  with all x show "P x" by blast
qed

lemma cover_loop_iff:
  assumes "sorted (map fst rs)"
  shows "cover_loop highest covered rs \<longleftrightarrow>
    (\<forall>x. covered < x \<and> x \<le> highest \<longrightarrow> (\<exists>r \<in> set rs. fst r \<le> x \<and> x \<le> snd r))"
  using assms
proof (induction rs arbitrary: covered)
  case Nil
  have "highest \<le> covered \<longleftrightarrow> \<not> (covered < highest \<and> highest \<le> highest)" by auto
  then show ?case unfolding cover_loop.simps by (metis empty_iff leD less_le_trans list.set(1))
next
  case (Cons r rs)
  obtain s e where r: "r = (s, e)" by fastforce
  show ?case
  proof (cases "highest \<le> covered")
    case True
    then have "\<not> (covered < x \<and> x \<le> highest)" for x by auto
    with True show ?thesis by (simp add: r) blast
  next
    case False
    then have less: "covered < highest" by simp
    have unat_succ: "unat (covered + 1) = Suc (unat covered)" using less by (rule unat_Suc_less)
    have "unat (covered + 1) < 2 ^ LENGTH(128)" by (rule unsigned_less)
    with unat_succ have sat: "saturating_add covered 1 = covered + 1"
      by (simp add: saturating_add_def)
    from unat_succ have succ: "x \<le> covered \<or> covered + 1 \<le> x" for x
      by (simp only: word_le_nat_alt) linarith
    from unat_succ have up: "covered < covered + 1" by (simp only: word_less_nat_alt)
    show ?thesis
    proof (cases "covered + 1 < s")
      case True
      have "\<not> (\<exists>q \<in> set (r # rs). fst q \<le> covered + 1 \<and> covered + 1 \<le> snd q)"
      proof
        assume "\<exists>q \<in> set (r # rs). fst q \<le> covered + 1 \<and> covered + 1 \<le> snd q"
        then obtain q where q: "q \<in> set (r # rs)" "fst q \<le> covered + 1" by blast
        from q(1) Cons.prems have "s \<le> fst q" by (auto simp: r)
        with q(2) True show False by simp
      qed
      moreover have "covered + 1 \<le> highest" using succ [of highest] less by (metis linorder_not_le)
      moreover have "\<not> cover_loop highest covered (r # rs)" using True False sat by (simp add: r)
      ultimately show ?thesis using up by blast
    next
      case gap: False
      have "cover_loop highest covered (r # rs) \<longleftrightarrow>
          cover_loop highest (if covered < e then e else covered) rs"
        using False gap sat by (simp add: r)
      also have "\<dots> \<longleftrightarrow> (\<forall>x. (if covered < e then e else covered) < x \<and> x \<le> highest \<longrightarrow>
          (\<exists>r \<in> set rs. fst r \<le> x \<and> x \<le> snd r))"
        using Cons by (simp del: if_split)
      finally show ?thesis
        unfolding cover_step [OF succ leI [OF gap]] by (simp add: r)
    qed
  qed
qed

text \<open>Sorting pairs sorts their starts, so the first range is the one that may begin at zero.\<close>

lemma sorted_starts: "sorted (map fst (sort (rs :: (u128 \<times> u128) list)))"
proof -
  have "sorted (map fst xs)" if "sorted xs" for xs :: "(u128 \<times> u128) list"
    using that by (induction xs) (auto simp: less_eq_prod_def)
  then show ?thesis by simp
qed

lemma ranges_cover_full_iff:
  "ranges_cover_full rs highest \<longleftrightarrow>
    rs \<noteq> [] \<and> (\<forall>x \<le> highest. \<exists>r \<in> set rs. fst r \<le> x \<and> x \<le> snd r)"
proof (cases "sort rs")
  case Nil
  then have "rs = []" by (metis length_0_conv length_sort)
  then show ?thesis by (simp add: ranges_cover_full_def)
next
  case (Cons r rest)
  obtain s e where r: "r = (s, e)" by fastforce
  have set: "set rs = insert (s, e) (set rest)" using Cons r by (metis list.simps(15) set_sort)
  have sorted: "sorted (s # map fst rest)" using sorted_starts [of rs] Cons r by simp
  have rest: "cover_loop highest e rest \<longleftrightarrow>
      (\<forall>x. e < x \<and> x \<le> highest \<longrightarrow> (\<exists>r \<in> set rest. fst r \<le> x \<and> x \<le> snd r))"
    using sorted by (intro cover_loop_iff) simp
  show ?thesis
  proof (cases "s = 0")
    case True
    have "(\<forall>x. e < x \<and> x \<le> highest \<longrightarrow> (\<exists>r \<in> set rest. fst r \<le> x \<and> x \<le> snd r)) \<longleftrightarrow>
        (\<forall>x \<le> highest. \<exists>r \<in> set rs. fst r \<le> x \<and> x \<le> snd r)"
      unfolding set using True by (auto simp: not_le)
    with True rest set show ?thesis by (auto simp: ranges_cover_full_def Cons r)
  next
    case False
    have "\<not> (\<exists>r \<in> set rs. fst r \<le> 0 \<and> 0 \<le> snd r)"
      using sorted False unfolding set by (auto simp: word_le_0_iff)
    moreover have "(0 :: u128) \<le> highest" by simp
    ultimately have "\<not> (\<forall>x \<le> highest. \<exists>r \<in> set rs. fst r \<le> x \<and> x \<le> snd r)" by blast
    then show ?thesis using False by (simp add: ranges_cover_full_def Cons r)
  qed
qed

section \<open>What the parser produces\<close>

text \<open>Prefixes fit the family, and no IPv6 block lies inside the IPv4-mapped range: an IPv6 entry
  covers all of it or nothing of it.\<close>

definition wf_entry :: "CidrEntry \<Rightarrow> bool" where
  "wf_entry e \<longleftrightarrow>
     (case network e of
        V4 _ \<Rightarrow> prefix_len e \<le> 32
      | V6 net \<Rightarrow> prefix_len e \<le> 128 \<and> (96 \<le> prefix_len e \<longrightarrow> to_ipv4_mapped net = None))"

lemma drop_masked:
  assumes "k \<le> 32"
  shows "drop_bit 32 (a AND NOT (mask k)) = drop_bit 32 (a :: u128)"
  using assms by (intro bit_word_eqI) (auto simp: bit_simps dest: bit_imp_le_length)

lemma to_ipv4_mapped_masked:
  assumes "96 \<le> p" "p \<le> 128"
  shows "to_ipv4_mapped (a AND high_mask (128 - unat (p :: u8))) = None \<longleftrightarrow> to_ipv4_mapped a = None"
proof -
  have "128 - unat p \<le> 32" using assms by (simp add: word_le_nat_alt)
  moreover from this have "high_mask (128 - unat p) = NOT (mask (128 - unat p) :: u128)"
    by (intro high_mask_NOT) simp
  ultimately show ?thesis by (simp add: to_ipv4_mapped_def drop_masked del: drop_bit_and)
qed

lemma parse_entry_wf: "parse_entry s = Some e \<Longrightarrow> wf_entry e"
proof -
  have masked: "wf_entry \<lparr>network = mask_network net p, prefix_len = p\<rparr>"
    if "canonicalize_cidr_network ip q = Some (net, p)" "p \<le> (case net of V4 _ \<Rightarrow> 32 | V6 _ \<Rightarrow> 128)"
    for ip q net p
    using that
    by (auto simp: wf_entry_def mask_network_def canonicalize_cidr_network_def to_ipv4_mapped_masked
        split: IpAddr.splits option.splits if_splits)
  have bare: "wf_entry \<lparr>network = canonical_ip ip,
      prefix_len = (case canonical_ip ip of V4 _ \<Rightarrow> 32 | V6 _ \<Rightarrow> 128)\<rparr>" for ip
    by (auto simp: wf_entry_def canonical_ip_def to_canonical_def split: IpAddr.splits option.splits)
  assume "parse_entry s = Some e"
  then show ?thesis
    using masked bare
    by (auto simp: parse_entry_def Let_def canonicalize_ip_def not_less
        split: option.splits prod.splits if_splits)
qed

lemma parse_entries_wf: "e \<in> set (fst (parse_entries raw reject_empty)) \<Longrightarrow> wf_entry e"
proof -
  have "e \<in> set (fst (parse_entries_from reject_empty segments)) \<Longrightarrow> wf_entry e" for segments
    by (induction segments)
      (auto simp: Let_def split: prod.splits if_splits option.splits dest: parse_entry_wf)
  then show "e \<in> set (fst (parse_entries raw reject_empty)) \<Longrightarrow> wf_entry e"
    by (simp add: parse_entries_def)
qed

section \<open>Parsed lists: what they match\<close>

lemma matches_V4: "matches e (V4 a) \<longleftrightarrow> (\<exists>net. network e = V4 net \<and> matches_ipv4 net a (prefix_len e))"
  by (cases "network e") (auto simp: matches_def)

lemma matches_V6: "matches e (V6 a) \<longleftrightarrow>
    (\<exists>net. network e = V6 net \<and> matches_ipv6 net a (prefix_len e)) \<or>
    (\<exists>v4. to_ipv4_mapped a = Some v4 \<and> matches e (V4 v4))"
  by (cases "network e") (auto simp: matches_def split: option.splits)

lemma contains_V4: "contains S (V4 a) \<longleftrightarrow>
    (\<exists>e \<in> set S. \<exists>net. network e = V4 net \<and> matches_ipv4 net a (prefix_len e))"
  by (simp add: contains_def list_ex_iff matches_V4)

lemma contains_V6: "contains S (V6 a) \<longleftrightarrow>
    (\<exists>e \<in> set S. \<exists>net. network e = V6 net \<and> matches_ipv6 net a (prefix_len e)) \<or>
    (\<exists>v4. to_ipv4_mapped a = Some v4 \<and> contains S (V4 v4))"
  unfolding contains_def list_ex_iff matches_V6 by blast

lemma set_map_filter: "set (List.map_filter f xs) = {y. \<exists>x \<in> set xs. f x = Some y}"
  by (force simp: List.map_filter_def)

lemma v4_ranges_covers: "(\<exists>r \<in> set (v4_ranges S). P r) \<longleftrightarrow>
    (\<exists>e \<in> set S. \<exists>net. network e = V4 net \<and> P (range_of_v4 net (prefix_len e)))"
proof -
  have of_family: "(case network e of V4 net \<Rightarrow> Some (f net) | V6 _ \<Rightarrow> None) = Some y \<longleftrightarrow>
      (\<exists>net. network e = V4 net \<and> y = f net)" for e y and f :: "u32 \<Rightarrow> u128 \<times> u128"
    by (cases "network e") auto
  show ?thesis unfolding v4_ranges_def set_map_filter of_family by blast
qed

lemma v6_ranges_covers: "(\<exists>r \<in> set (v6_ranges S). P r) \<longleftrightarrow>
    (\<exists>e \<in> set S. \<exists>net. network e = V6 net \<and> P (range_of_v6 net (prefix_len e)))"
proof -
  have of_family: "(case network e of V6 net \<Rightarrow> Some (f net) | V4 _ \<Rightarrow> None) = Some y \<longleftrightarrow>
      (\<exists>net. network e = V6 net \<and> y = f net)" for e y and f :: "u128 \<Rightarrow> u128 \<times> u128"
    by (cases "network e") auto
  show ?thesis unfolding v6_ranges_def set_map_filter of_family by blast
qed

lemma wf_entry_V4: "wf_entry e \<Longrightarrow> network e = V4 net \<Longrightarrow> unat (prefix_len e) \<le> 32"
  by (simp add: wf_entry_def word_le_nat_alt)

lemma wf_entry_V6: "wf_entry e \<Longrightarrow> network e = V6 net \<Longrightarrow> unat (prefix_len e) \<le> 128"
  by (simp add: wf_entry_def word_le_nat_alt)

lemma v4_full_iff:
  assumes wf: "\<And>e. e \<in> set S \<Longrightarrow> wf_entry e"
  shows "ranges_cover_full (v4_ranges S) 0xFFFFFFFF \<longleftrightarrow> (\<forall>a. contains S (V4 a))"
proof -
  have covered: "(\<exists>r \<in> set (v4_ranges S). fst r \<le> ucast a \<and> ucast a \<le> snd r) \<longleftrightarrow> contains S (V4 a)" for a
    unfolding v4_ranges_covers contains_V4 using range_of_v4_iff wf_entry_V4 [OF wf] by blast
  have widened: "(\<forall>x \<le> 0xFFFFFFFF. P x) \<longleftrightarrow> (\<forall>a :: u32. P (ucast a))" for P :: "u128 \<Rightarrow> bool"
  proof (intro iffI allI impI)
    fix x :: u128
    assume P: "\<forall>a :: u32. P (ucast a)" and "x \<le> 0xFFFFFFFF"
    then have "uint x < 2 ^ 32" by (simp add: word_le_def)
    then have "uint (ucast (ucast x :: u32) :: u128) = uint x"
      by (simp add: unsigned_ucast_eq unsigned_take_bit_eq take_bit_int_eq_self)
    then have "ucast (ucast x :: u32) = x" by (simp add: word_uint_eq_iff)
    with P show "P x" by metis
  next
    fix a :: u32
    assume P: "\<forall>x \<le> 0xFFFFFFFF. P x"
    have "uint a < 2 ^ 32" using unsigned_less [of a] by simp
    then have "(ucast a :: u128) \<le> 0xFFFFFFFF" by (simp add: word_le_def uint_ucast_u32)
    with P show "P (ucast a)" by blast
  qed
  have "(\<forall>x \<le> 0xFFFFFFFF. \<exists>r \<in> set (v4_ranges S). fst r \<le> x \<and> x \<le> snd r) \<longleftrightarrow>
      (\<forall>a. contains S (V4 a))" unfolding widened covered ..
  moreover have "\<not> contains S (V4 0)" if "v4_ranges S = []" using covered [of 0] that by simp
  ultimately show ?thesis unfolding ranges_cover_full_iff by blast
qed

lemma v6_full_iff:
  assumes wf: "\<And>e. e \<in> set S \<Longrightarrow> wf_entry e"
  shows "ranges_cover_full (v6_ranges S) (- 1) \<longleftrightarrow>
    (\<forall>a. \<exists>e \<in> set S. \<exists>net. network e = V6 net \<and> matches_ipv6 net a (prefix_len e))"
proof -
  have covered: "(\<exists>r \<in> set (v6_ranges S). fst r \<le> a \<and> a \<le> snd r) \<longleftrightarrow>
      (\<exists>e \<in> set S. \<exists>net. network e = V6 net \<and> matches_ipv6 net a (prefix_len e))" for a
    unfolding v6_ranges_covers using range_of_v6_iff wf_entry_V6 [OF wf] by blast
  then show ?thesis by (auto simp: ranges_cover_full_iff)
qed

lemma mapped_of_v4:
  obtains y :: u128 where "drop_bit 32 y = 0xFFFF" "ucast y = (b :: u32)"
proof
  have low: "ucast (push_bit 32 c OR ucast b :: u128) = b" for c
    by (rule bit_word_eqI) (auto simp: bit_simps)
  let ?y = "push_bit 32 0xFFFF OR ucast b :: u128"
  show "drop_bit 32 ?y = 0xFFFF"
    by (rule bit_word_eqI) (auto simp: bit_simps dest: bit_imp_le_length)
  show "ucast ?y = b" by (rule low)
qed

text \<open>An IPv6 entry that matches one address of the mapped range matches all of it.\<close>

lemma mapped_all_or_nothing:
  assumes wf: "wf_entry e" and net: "network e = V6 net"
    and y: "drop_bit 32 y = 0xFFFF" and x: "drop_bit 32 x = 0xFFFF"
    and match: "matches_ipv6 net y (prefix_len e)"
  shows "matches_ipv6 net x (prefix_len e)"
proof -
  let ?k = "128 - unat (prefix_len e)"
  have drop: "matches_ipv6 net a (prefix_len e) \<longleftrightarrow> drop_bit ?k a = drop_bit ?k net" for a
    by (rule matches_ipv6_drop [OF wf_entry_V6 [OF wf net]])
  have "32 \<le> ?k"
  proof (rule ccontr)
    assume "\<not> 32 \<le> ?k"
    then have "drop_bit (32 - ?k) (drop_bit ?k net) = 0xFFFF \<longleftrightarrow> drop_bit 32 net = 0xFFFF"
      and "drop_bit (32 - ?k) (drop_bit ?k y) = drop_bit 32 y" by (simp_all add: drop_bit_drop_bit)
    with match y have "drop_bit 32 net = 0xFFFF" unfolding drop by simp
    moreover have "96 \<le> prefix_len e" using \<open>\<not> 32 \<le> ?k\<close> by (simp add: word_le_nat_alt)
    ultimately show False using wf net by (simp add: wf_entry_def to_ipv4_mapped_def)
  qed
  then have "drop_bit ?k a = drop_bit (?k - 32) (drop_bit 32 a)" for a :: u128
    by (simp add: drop_bit_drop_bit)
  from this [of x] this [of y] have "drop_bit ?k x = drop_bit ?k y" unfolding x y by (simp only:)
  with match show ?thesis unfolding drop by (simp only:)
qed

section \<open>Correctness\<close>

text \<open>
  C10. The "restricts nothing" check is exact. For every allow list the parser produces, strict or
  lenient, \<^verbatim>\<open>permits_all_family\<close> answers true exactly when the list admits every IPv4
  address or every IPv6 address (IPv4-mapped ones included): sorting and merging the ranges finds
  a union of blocks that covers a family without any \<^verbatim>\<open>/0\<close> entry, and reports no list that leaves
  an address of both families out.
\<close>

theorem permits_all_family_exact:
  "permits_all_family (fst (parse_entries raw reject_empty)) \<longleftrightarrow>
    (\<forall>a. contains (fst (parse_entries raw reject_empty)) (V4 a)) \<or>
    (\<forall>a. contains (fst (parse_entries raw reject_empty)) (V6 a))"
proof -
  let ?S = "fst (parse_entries raw reject_empty)"
  let ?v6 = "\<lambda>a. \<exists>e \<in> set ?S. \<exists>net. network e = V6 net \<and> matches_ipv6 net a (prefix_len e)"
  have wf: "wf_entry e" if "e \<in> set ?S" for e using that by (rule parse_entries_wf)
  have "\<forall>b. contains ?S (V4 b)" if all: "\<forall>a. contains ?S (V6 a)" and x: "\<not> ?v6 x" for x
  proof
    fix b :: u32
    from all x have "drop_bit 32 x = 0xFFFF"
      unfolding contains_V6 by (metis option.distinct(1) to_ipv4_mapped_def)
    moreover obtain y :: u128 where y: "drop_bit 32 y = 0xFFFF" "ucast y = b" by (rule mapped_of_v4 [of b])
    ultimately have "\<not> ?v6 y" using x wf mapped_all_or_nothing by blast
    moreover from all have "contains ?S (V6 y)" ..
    ultimately show "contains ?S (V4 b)"
      using y unfolding contains_V6 by (auto simp: to_ipv4_mapped_def)
  qed
  moreover have "contains ?S (V6 a)" if "?v6 a" for a using that unfolding contains_V6 by blast
  moreover have "ranges_cover_full (v4_ranges ?S) 0xFFFFFFFF \<longleftrightarrow> (\<forall>a. contains ?S (V4 a))"
    using wf by (rule v4_full_iff)
  moreover have "ranges_cover_full (v6_ranges ?S) (- 1) \<longleftrightarrow> (\<forall>a. ?v6 a)"
    using wf by (rule v6_full_iff)
  ultimately show ?thesis unfolding permits_all_family_def by blast
qed

text \<open>What the two parsers accept, segment by segment.\<close>

lemma parse_entries_strict_clean:
  "snd (parse_entries_from True segments) = [] \<longleftrightarrow> (\<forall>s \<in> set segments. parse_entry (trim s) \<noteq> None \<and> trim s \<noteq> [])"
  by (induction segments) (auto simp: Let_def split: prod.splits option.splits)

lemma parse_entries_from_fst:
  "fst (parse_entries_from r segments) =
    List.map_filter (\<lambda>s. if trim s = [] then None else parse_entry (trim s)) segments"
  by (induction segments) (auto simp: Let_def List.map_filter_simps split: prod.splits option.splits)

text \<open>
  Strict parsing is all or nothing. A strict list of networks is accepted iff it is blank or
  every comma-separated segment, the empty ones included, is a network; the accepted set then has
  one entry per segment in order, and it is the set the lenient parser builds. A typing error can
  therefore neither shrink nor widen a configured allow list: it fails the configuration.
\<close>

theorem parse_strict_all_or_nothing:
  "parse_strict raw = Inr S \<longleftrightarrow>
    (if trim raw = [] then S = []
     else map Some S = map (\<lambda>s. if trim s = [] then None else parse_entry (trim s)) (split_on (CHR '','') raw) \<and>
       fst (parse_lenient raw) = S \<and> snd (parse_lenient raw) = [])"
proof (cases "trim raw = []")
  case True
  then show ?thesis by (auto simp: parse_strict_def)
next
  case False
  let ?f = "\<lambda>s. if trim s = [] then None else parse_entry (trim s)"
  let ?segs = "split_on (CHR '','') raw"
  have total: "map Some (List.map_filter g xs) = map g xs \<longleftrightarrow> (\<forall>x \<in> set xs. g x \<noteq> None)"
    for g :: "string \<Rightarrow> CidrEntry option" and xs
  proof (induction xs)
    case (Cons x xs)
    show ?case
    proof (cases "g x")
      case None
      then have "None \<in> set (map g (x # xs))" by simp
      with None show ?thesis by (metis (no_types, lifting) imageE list.set_intros(1) list.set_map option.distinct(1))
    next
      case (Some y)
      with Cons show ?thesis by (simp add: List.map_filter_simps)
    qed
  qed (simp add: List.map_filter_simps)
  have clean: "snd (parse_entries_from True ?segs) = [] \<longleftrightarrow> (\<forall>s \<in> set ?segs. ?f s \<noteq> None)"
    unfolding parse_entries_strict_clean by (auto split: if_splits)
  have lenient: "\<forall>s \<in> set segs. ?f s \<noteq> None \<Longrightarrow> snd (parse_entries_from False segs) = []" for segs
    by (induction segs) (auto simp: Let_def split: prod.splits option.splits)
  have "parse_strict raw = Inr S \<longleftrightarrow> (\<forall>s \<in> set ?segs. ?f s \<noteq> None) \<and> List.map_filter ?f ?segs = S"
    unfolding clean [symmetric] parse_entries_from_fst [of True ?segs, symmetric]
    using False by (simp add: parse_strict_def parse_entries_def split: prod.split)
  also have "\<dots> \<longleftrightarrow> map Some S = map ?f ?segs \<and> List.map_filter ?f ?segs = S \<and>
      snd (parse_entries_from False ?segs) = []"
    using total [of ?f ?segs] lenient by blast
  finally show ?thesis
    using False by (simp add: parse_lenient_def parse_entries_def parse_entries_from_fst)
qed

end
