(* ===== verification/Client_Ip.thy ===== *)
theory Client_Ip
  imports Cidr Policy_Path
begin

text \<open>
  \<^verbatim>\<open>src/src/proxy/client_ip.rs\<close>: which address and which scheme the gateway believes a request came
  from, given the socket peer, the forwarding headers and the configured trusted proxies. Header
  values are byte strings.
\<close>

section \<open>Trusted proxies\<close>

record TrustedProxies =
  cidrs :: CidrSet

definition trusted_parse_strict :: "string \<Rightarrow> string \<Rightarrow> string + TrustedProxies" where
  "trusted_parse_strict raw boundary =
     (case parse_strict raw of Inl e \<Rightarrow> Inl e | Inr entries \<Rightarrow> Inr \<lparr>cidrs = entries\<rparr>)"

definition trusted_none :: TrustedProxies where
  "trusted_none = \<lparr>cidrs = []\<rparr>"

definition trusted_len :: "TrustedProxies \<Rightarrow> nat" where
  "trusted_len tp = length (cidrs tp)"

definition trusted_is_empty :: "TrustedProxies \<Rightarrow> bool" where
  "trusted_is_empty tp \<longleftrightarrow> cidrs tp = []"

definition trusted_contains :: "TrustedProxies \<Rightarrow> IpAddr \<Rightarrow> bool" where
  "trusted_contains tp ip \<longleftrightarrow> contains (cidrs tp) ip"

definition cidr_list_permits_all :: "string \<Rightarrow> bool" where
  "cidr_list_permits_all raw \<longleftrightarrow> permits_all_family (fst (parse_lenient raw))"

section \<open>The forwarded scheme\<close>

definition is_ows :: "char \<Rightarrow> bool" where
  "is_ows c \<longleftrightarrow> c = CHR '' '' \<or> c = CHR 0x09"

definition trim_header_ows :: "string \<Rightarrow> string" where
  "trim_header_ows value = rev (dropWhile is_ows (rev (dropWhile is_ows value)))"

definition recognized_forwarded_proto :: "string \<Rightarrow> string option" where
  "recognized_forwarded_proto value =
     (if eq_ignore_ascii_case value ''http'' then Some ''http''
      else if eq_ignore_ascii_case value ''https'' then Some ''https''
      else None)"

text \<open>The bytes of one list entry as an address: valid UTF-8 that parses.\<close>

definition entry_ip :: "string \<Rightarrow> IpAddr option" where
  "entry_ip entry = (if valid_utf8 entry then parse_ip entry else None)"

definition comma_entries :: "string list \<Rightarrow> string list" where
  "comma_entries values = concat (map (split_on (CHR '','')) values)"

text \<open>First loop: the count of entries and the index of the client boundary.\<close>

fun boundary_loop :: "TrustedProxies \<Rightarrow> nat \<Rightarrow> nat option \<Rightarrow> string list \<Rightarrow> nat \<times> nat option" where
  "boundary_loop tp count boundary [] = (count, boundary)"
| "boundary_loop tp count boundary (entry # rest) =
     boundary_loop tp (Suc count)
       (case entry_ip (trim_header_ows entry) of
          Some ip \<Rightarrow> if trusted_contains tp ip then boundary else Some count
        | None \<Rightarrow> None) rest"

record proto_scan =
  forwarded_proto_count :: nat
  singleton_proto :: "string option"
  boundary_proto :: "string option"
  trusted_proto_suffix_valid :: bool

text \<open>Second loop, over the protocol entries.\<close>

fun proto_loop :: "nat option \<Rightarrow> proto_scan \<Rightarrow> string list \<Rightarrow> proto_scan" where
  "proto_loop boundary st [] = st"
| "proto_loop boundary st (entry # rest) =
     (let index = forwarded_proto_count st;
          proto = recognized_forwarded_proto (trim_header_ows entry)
      in proto_loop boundary
        \<lparr>forwarded_proto_count = Suc index,
         singleton_proto = (if index = 0 then proto else singleton_proto st),
         boundary_proto = (if boundary = Some index then proto else boundary_proto st),
         trusted_proto_suffix_valid =
           (if (case boundary of Some b \<Rightarrow> b \<le> index | None \<Rightarrow> False) \<and> proto = None then False
            else trusted_proto_suffix_valid st)\<rparr> rest)"

definition trusted_forwarded_request_scheme ::
  "IpAddr \<Rightarrow> string list \<Rightarrow> string list \<Rightarrow> TrustedProxies \<Rightarrow> string option" where
  "trusted_forwarded_request_scheme socket_addr forwarded_for_values forwarded_proto_values tp =
     (if \<not> trusted_contains tp socket_addr then None
      else
        (let (forwarded_for_count, client_boundary) =
               boundary_loop tp 0 None (comma_entries forwarded_for_values);
             scan = proto_loop client_boundary
               \<lparr>forwarded_proto_count = 0, singleton_proto = None, boundary_proto = None,
                trusted_proto_suffix_valid = True\<rparr> (comma_entries forwarded_proto_values)
         in if forwarded_proto_count scan = 1 then singleton_proto scan
            else if forwarded_proto_count scan = forwarded_for_count \<and> trusted_proto_suffix_valid scan
            then boundary_proto scan
            else None))"

section \<open>The client address\<close>

text \<open>The right-to-left walk; \<open>None\<close> when it ends without an untrusted address.\<close>

fun xff_walk :: "TrustedProxies \<Rightarrow> string list \<Rightarrow> IpAddr option" where
  "xff_walk tp [] = None"
| "xff_walk tp (raw # left) =
     (let entry = trim raw in
      if entry = [] then xff_walk tp left
      else case parse_ip entry of
        Some ip \<Rightarrow> if trusted_contains tp ip then xff_walk tp left else Some ip
      | None \<Rightarrow> None)"

definition resolve_client_ip_parsed ::
  "string \<Rightarrow> IpAddr \<Rightarrow> string option \<Rightarrow> TrustedProxies \<Rightarrow> string" where
  "resolve_client_ip_parsed socket_ip socket_addr xff_header tp =
     (case xff_header of
        None \<Rightarrow> canonical_ip_string socket_addr
      | Some xff \<Rightarrow>
          if trim xff = [] then canonical_ip_string socket_addr
          else if \<not> trusted_contains tp socket_addr then canonical_ip_string socket_addr
          else case xff_walk tp (rev (split_on (CHR '','') xff)) of
            Some ip \<Rightarrow> canonical_ip_string ip
          | None \<Rightarrow> canonical_ip_string socket_addr)"

definition resolve_client_ip :: "string \<Rightarrow> string option \<Rightarrow> TrustedProxies \<Rightarrow> string" where
  "resolve_client_ip socket_ip xff_header tp =
     (case parse_ip socket_ip of
        None \<Rightarrow> socket_ip
      | Some socket_addr \<Rightarrow>
          if trusted_is_empty tp then canonical_ip_string socket_addr
          else resolve_client_ip_parsed socket_ip socket_addr xff_header tp)"

datatype RealIpHeaderOutcome = Absent | Accepted string | Rejected

definition parse_single_real_ip_value :: "string \<Rightarrow> IpAddr option" where
  "parse_single_real_ip_value value =
     (case parse_ip value of
        Some ip \<Rightarrow> Some ip
      | None \<Rightarrow> map_option fst (parse_socket_addr value))"

definition parse_single_real_ip_field_line :: "string \<Rightarrow> IpAddr option" where
  "parse_single_real_ip_field_line field_line =
     (if \<not> valid_utf8 field_line then None
      else
        (let value = trim field_line in
         if value = [] \<or> CHR '','' \<in> set value then None
         else parse_single_real_ip_value value))"

definition resolve_real_ip_header_field_lines ::
  "string \<Rightarrow> IpAddr \<Rightarrow> string list \<Rightarrow> TrustedProxies \<Rightarrow> RealIpHeaderOutcome" where
  "resolve_real_ip_header_field_lines socket_ip socket_addr field_lines tp =
     (case field_lines of
        [] \<Rightarrow> Absent
      | first # rest \<Rightarrow>
          if \<not> trusted_contains tp socket_addr then Rejected
          else if rest \<noteq> [] then Rejected
          else case parse_single_real_ip_field_line first of
            Some ip \<Rightarrow> Accepted (canonical_ip_string ip)
          | None \<Rightarrow> Rejected)"

definition resolve_forwarded_client_ip ::
  "string \<Rightarrow> IpAddr \<Rightarrow> string list \<Rightarrow> string option \<Rightarrow> TrustedProxies \<Rightarrow> string option" where
  "resolve_forwarded_client_ip socket_ip socket_addr real_ip_field_lines xff_header tp =
     (if trusted_is_empty tp then None
      else case resolve_real_ip_header_field_lines socket_ip socket_addr real_ip_field_lines tp of
        Accepted ip \<Rightarrow> Some ip
      | Rejected \<Rightarrow> None
      | Absent \<Rightarrow>
          (let resolved = resolve_client_ip_parsed socket_ip socket_addr xff_header tp in
           if resolved = socket_ip then None else Some resolved))"

section \<open>The walk\<close>

text \<open>An entry at which the walk stops: neither blank nor a trusted proxy.\<close>

definition stops_walk :: "TrustedProxies \<Rightarrow> string \<Rightarrow> bool" where
  "stops_walk tp raw \<longleftrightarrow>
     trim raw \<noteq> [] \<and> (case parse_ip (trim raw) of Some ip \<Rightarrow> \<not> trusted_contains tp ip | None \<Rightarrow> True)"

lemma xff_walk_append:
  "xff_walk tp (right @ left) = (if \<exists>e \<in> set right. stops_walk tp e then xff_walk tp right else xff_walk tp left)"
  by (induction right) (auto simp: stops_walk_def Let_def split: option.splits)

lemma xff_walk_untrusted:
  "xff_walk tp entries = Some ip \<Longrightarrow>
   \<not> trusted_contains tp ip \<and> (\<exists>e \<in> set entries. parse_ip (trim e) = Some ip)"
  by (induction entries) (auto simp: Let_def split: option.splits if_splits)

text \<open>Trimming never removes a comma.\<close>

lemma strip_all_keeps:
  assumes "\<forall>w \<in> set ws. c \<notin> set w" "c \<in> set s"
  shows "c \<in> set (strip_all ws s)"
  using assms
proof (induction ws s rule: strip_all.induct)
  case (1 ws s)
  show ?case
  proof (cases "find (\<lambda>w. w \<noteq> [] \<and> starts_with w s) ws")
    case None
    with 1 show ?thesis by (simp add: strip_all.simps [of ws s])
  next
    case (Some w)
    then have w: "w \<in> set ws" "take (length w) s = w"
      by (auto simp: find_Some_iff starts_with_def in_set_conv_nth)
    have "c \<in> set (take (length w) s) \<union> set (drop (length w) s)"
      using 1(3) by (metis append_take_drop_id set_append)
    with w 1(2) have "c \<in> set (drop (length w) s)" by auto
    with 1(1) [OF Some] 1(2) Some show ?thesis by (simp add: strip_all.simps [of ws s])
  qed
qed

lemma trim_comma: "CHR '','' \<in> set s \<Longrightarrow> trim s \<noteq> []"
proof -
  assume "CHR '','' \<in> set s"
  moreover have "\<forall>w \<in> set white_space. CHR '','' \<notin> set w"
    by (simp add: white_space_def char_of_def bit_Suc_0_iff)
  ultimately have "CHR '','' \<in> set (trim s)"
    by (simp add: trim_def strip_all_keeps)
  then show ?thesis by auto
qed

lemma blank_has_no_stop: "stops_walk tp e \<Longrightarrow> e \<in> set (split_on (CHR '','') s) \<Longrightarrow> trim s \<noteq> []"
  by (cases "CHR '','' \<in> set s") (auto simp: trim_comma split_on_no_sep stops_walk_def)

section \<open>The two scheme loops\<close>

text \<open>The boundary the canonical walk reaches first: the last entry that is not a trusted proxy.\<close>

fun last_untrusted :: "TrustedProxies \<Rightarrow> string list \<Rightarrow> nat option" where
  "last_untrusted tp [] = None"
| "last_untrusted tp (entry # left) =
     (case entry_ip (trim_header_ows entry) of
        Some ip \<Rightarrow> if trusted_contains tp ip then last_untrusted tp left else Some (length left)
      | None \<Rightarrow> None)"

lemma boundary_loop_append:
  "boundary_loop tp n b (xs @ ys) = (let (m, c) = boundary_loop tp n b xs in boundary_loop tp m c ys)"
  by (induction xs arbitrary: n b) (auto simp: Let_def)

lemma boundary_loop_eq: "boundary_loop tp 0 None entries = (length entries, last_untrusted tp (rev entries))"
  by (induction entries rule: rev_induct) (auto simp: boundary_loop_append split: option.splits)

abbreviation protos :: "string list \<Rightarrow> string option list" where
  "protos entries \<equiv> map (\<lambda>e. recognized_forwarded_proto (trim_header_ows e)) entries"

lemma proto_loop_append: "proto_loop b st (xs @ ys) = proto_loop b (proto_loop b st xs) ys"
  by (induction xs arbitrary: st) (auto simp: Let_def)

lemma proto_loop_eq:
  "proto_loop b \<lparr>forwarded_proto_count = 0, singleton_proto = None, boundary_proto = None,
      trusted_proto_suffix_valid = True\<rparr> entries =
    \<lparr>forwarded_proto_count = length entries,
     singleton_proto = (if entries = [] then None else hd (protos entries)),
     boundary_proto = (case b of Some i \<Rightarrow> if i < length entries then protos entries ! i else None | None \<Rightarrow> None),
     trusted_proto_suffix_valid =
       (case b of Some i \<Rightarrow> None \<notin> set (drop i (protos entries)) | None \<Rightarrow> True)\<rparr>"
proof (induction entries rule: rev_induct)
  case (snoc e entries)
  then show ?case
    by (auto simp: proto_loop_append Let_def nth_append hd_append not_less split: option.splits)
qed (simp split: option.splits)

section \<open>One address, one principal\<close>

lemma to_ipv4_mapped_value: "to_ipv4_mapped (0xFFFF00000000 + ucast b) = Some b"
proof -
  have b: "unat b < 2 ^ 32" using unsigned_less [of b] by simp
  have "(0xFFFF00000000 + ucast b :: u128) = of_nat (0xFFFF00000000 + unat b)" by simp
  then have n: "unat (0xFFFF00000000 + ucast b :: u128) = 0xFFFF00000000 + unat b"
    using b by (simp only: unat_of_nat) (simp add: take_bit_nat_eq_self)
  have "unat (drop_bit 32 (0xFFFF00000000 + ucast b :: u128)) = 0xFFFF"
    using b by (simp only: unsigned_drop_bit_eq n) (simp add: drop_bit_eq_div take_bit_eq_mod)
  moreover
  have "(0xFFFF00000000 + unat b) mod 0x100000000 = unat b"
    using b mod_mult_self2 [of "unat b" "0x100000000" 65535] by (simp add: add.commute)
  then have "unat (ucast (0xFFFF00000000 + ucast b :: u128) :: u32) = unat b"
    by (simp only: unsigned_ucast_eq unsigned_take_bit_eq n) (simp add: take_bit_eq_mod)
  ultimately show ?thesis by (simp add: to_ipv4_mapped_def word_unat_eq_iff)
qed

lemma show_ipv4_plain: "c \<in> set (show_ipv4 a) \<Longrightarrow> c \<noteq> CHR '':'' \<and> c \<noteq> CHR ''%''"
  using show_ipv4_chars [of c a] by (auto simp: is_ascii_digit_def byte_of_def)

lemma parse_literal_mapped:
  "parse_client_ip_literal (''::ffff:'' @ show_ipv4 b) = Some (V6 (0xFFFF00000000 + ucast b))"
proof -
  have "parse_ipv4 (''::ffff:'' @ show_ipv4 b) = None"
    by (simp add: parse_ipv4_def parse_all_def no_ipv4_at_colon)
  moreover have no_zone: "takeWhile (\<lambda>c. c \<noteq> CHR ''%'') (show_ipv4 b) = show_ipv4 b"
    using show_ipv4_plain by (intro takeWhile_eq_all_conv [THEN iffD2]) auto
  ultimately show ?thesis
    using parse_ipv6_mapped [of b] by (simp add: parse_client_ip_literal_def no_zone)
qed

text \<open>
  An IPv4 host is one principal. Whatever representation the accepting socket gave it (native
  IPv4, or the IPv4-mapped IPv6 address of a dual-stack listener), printing the raw address and
  parsing it back yields the one canonical IPv4 address, the text helper folds the printed form to
  the canonical text, and that text is a fixed point: budgets, logs and policies keyed by either
  see one client.
\<close>

theorem mapped_is_one_principal:
  assumes "canonical_ip ip = V4 a"
  shows "parse_canonical_client_ip (show_ip ip) = Some (V4 a) \<and>
    fst (canonical_client_ip_text (show_ip ip)) = canonical_ip_string ip \<and>
    canonical_client_ip_text (canonical_ip_string ip) = (canonical_ip_string ip, True)"
proof -
  have shown: "canonical_ip_string ip = show_ipv4 a" using assms by (simp add: canonical_ip_string_def show_ip_def)
  have plain: "CHR '':'' \<notin> set (show_ipv4 a)" using show_ipv4_plain by blast
  then have fixed: "canonical_client_ip_text (canonical_ip_string ip) = (canonical_ip_string ip, True)"
    unfolding shown by (simp add: canonical_client_ip_text_def)
  consider "ip = V4 a" | x where "ip = V6 x" "to_ipv4_mapped x = Some a"
    using assms by (cases ip) (auto simp: canonical_ip_def to_canonical_def split: option.splits)
  then have "parse_canonical_client_ip (show_ip ip) = Some (V4 a) \<and>
      fst (canonical_client_ip_text (show_ip ip)) = show_ipv4 a"
  proof cases
    case 1
    then show ?thesis
      using plain by (simp add: show_ip_def parse_canonical_client_ip_def parse_client_ip_literal_def
          parse_ipv4_show canonical_ip_def to_canonical_def canonical_client_ip_text_def)
  next
    case 2
    then have "show_ip ip = ''::ffff:'' @ show_ipv4 a" by (simp add: show_ip_def show_ipv6_def)
    with parse_literal_mapped [of a] to_ipv4_mapped_value [of a] show ?thesis
      by (simp add: parse_canonical_client_ip_def canonical_ip_def to_canonical_def canonical_client_ip_text_def)
  qed
  with fixed show ?thesis unfolding shown by blast
qed

theorem mapped_is_one_principal_witness:
  "canonical_ip (V6 0xFFFF0A000001) = V4 0x0A000001 \<and>
   parse_canonical_client_ip (show_ip (V6 0xFFFF0A000001)) = Some (V4 0x0A000001)"
proof -
  have "canonical_ip (V6 0xFFFF0A000001) = V4 0x0A000001"
    by (simp add: canonical_ip_def to_canonical_def to_ipv4_mapped_def)
  with mapped_is_one_principal [OF this] show ?thesis by simp
qed

section \<open>Correctness\<close>

text \<open>
  C5. A peer that is not a trusted proxy decides nothing. Whatever forwarding headers it sends, the
  client address stays the canonical socket address, no forwarded address overrides it, and no
  forwarded scheme is believed.
\<close>

theorem untrusted_peer_cannot_spoof:
  assumes "\<not> trusted_contains tp peer" and "socket_ip = canonical_ip_string peer"
  shows "resolve_client_ip_parsed socket_ip peer xff tp = socket_ip \<and>
    resolve_forwarded_client_ip socket_ip peer real_ip_lines xff tp = None \<and>
    trusted_forwarded_request_scheme peer forwarded_for forwarded_proto tp = None"
proof -
  have "resolve_client_ip_parsed socket_ip peer xff tp = socket_ip"
    using assms by (simp add: resolve_client_ip_parsed_def split: option.split)
  with assms show ?thesis
    by (simp add: resolve_forwarded_client_ip_def resolve_real_ip_header_field_lines_def
        trusted_forwarded_request_scheme_def split: list.split)
qed

theorem untrusted_peer_cannot_spoof_witness:
  "\<not> trusted_contains trusted_none (V4 7) \<and>
   resolve_client_ip_parsed (canonical_ip_string (V4 7)) (V4 7) (Some ''10.0.0.1'') trusted_none
     = canonical_ip_string (V4 7)"
proof -
  have "\<not> trusted_contains trusted_none (V4 7)"
    by (simp add: trusted_contains_def trusted_none_def contains_def)
  with untrusted_peer_cannot_spoof [OF this refl] show ?thesis by blast
qed



text \<open>
  The resolved address is always justified. It is the canonical text of the socket peer, or the
  peer is a trusted proxy and it is the canonical text of an address that is listed in the header
  and is not itself a trusted proxy.
\<close>

theorem resolved_address_justified:
  "\<exists>ip. resolve_client_ip_parsed socket_ip peer xff tp = canonical_ip_string ip \<and>
    (ip = peer \<or>
     trusted_contains tp peer \<and> \<not> trusted_contains tp ip \<and>
     (\<exists>header e. xff = Some header \<and> e \<in> set (split_on (CHR '','') header) \<and> parse_ip (trim e) = Some ip))"
proof (cases "\<exists>header ip. xff = Some header \<and> trim header \<noteq> [] \<and> trusted_contains tp peer \<and>
    xff_walk tp (rev (split_on (CHR '','') header)) = Some ip")
  case True
  then obtain header ip where found: "xff = Some header" "trim header \<noteq> []" "trusted_contains tp peer"
    "xff_walk tp (rev (split_on (CHR '','') header)) = Some ip" by blast
  from xff_walk_untrusted [OF found(4)] found show ?thesis
    by (intro exI [of _ ip]) (auto simp: resolve_client_ip_parsed_def)
next
  case False
  then have "resolve_client_ip_parsed socket_ip peer xff tp = canonical_ip_string peer"
    by (auto simp: resolve_client_ip_parsed_def split: option.splits)
  then show ?thesis by blast
qed

text \<open>
  The single-pass scheme selection is the documented one. From a trusted peer, a singleton
  \<^verbatim>\<open>X-Forwarded-Proto\<close> is taken as is; a list counts only if it has as many entries as the
  \<^verbatim>\<open>X-Forwarded-For\<close> list, the right-to-left walk over the addresses reaches an untrusted one
  before a malformed one, and every protocol from that position on is recognised: then the
  protocol at that position is the answer. The forward pass with its running candidate computes
  the same position as the backward walk.
\<close>

theorem forwarded_scheme_exact:
  assumes "trusted_contains tp peer"
  shows "trusted_forwarded_request_scheme peer forwarded_for forwarded_proto tp =
    (let addrs = comma_entries forwarded_for; ps = protos (comma_entries forwarded_proto) in
     if length ps = 1 then hd ps
     else case last_untrusted tp (rev addrs) of
       None \<Rightarrow> None
     | Some i \<Rightarrow> if length ps = length addrs \<and> None \<notin> set (drop i ps) then ps ! i else None)"
proof -
  have bound: "last_untrusted tp (rev xs) = Some i \<Longrightarrow> i < length xs" for xs i
    by (induction xs rule: rev_induct) (auto split: option.splits if_splits)
  show ?thesis
    using assms bound [of "comma_entries forwarded_for"]
    by (auto simp: trusted_forwarded_request_scheme_def boundary_loop_eq proto_loop_eq Let_def
        split: option.splits)
qed

definition demo_proxies :: TrustedProxies where
  "demo_proxies = \<lparr>cidrs = [\<lparr>network = V4 0x0A000001, prefix_len = 32\<rparr>]\<rparr>"

theorem forwarded_scheme_exact_witness:
  "trusted_contains demo_proxies (V4 0x0A000001) \<and>
   trusted_forwarded_request_scheme (V4 0x0A000001) [] [''https''] demo_proxies = Some ''https''"
proof -
  have "trusted_contains demo_proxies (V4 0x0A000001)"
    by (simp add: trusted_contains_def demo_proxies_def contains_def matches_def matches_ipv4_def high_mask_def
        Let_def)
  with forwarded_scheme_exact [OF this, of "[]" "[''https'']"] show ?thesis
    by (simp add: comma_entries_def recognized_forwarded_proto_def trim_header_ows_def is_ows_def
        eq_ignore_ascii_case_def to_ascii_lowercase_def)
qed

end
