(* ===== verification/Route_Match.thy ===== *)
theory Route_Match
  imports Std_Net
begin

text \<open>
  \<^verbatim>\<open>src/src/router_cache.rs\<close>, first part: the route candidates with their listener scope, and the
  three indexes a host tier is searched with: exact paths, path prefixes and regular expressions.
  A proxy is the part of \<^verbatim>\<open>config/types.rs\<close>'s \<^verbatim>\<open>Proxy\<close> that routing reads. A \<^verbatim>\<open>HashMap\<close> from keys to
  vectors is an association list with distinct keys. The \<^verbatim>\<open>regex\<close> crate is the parameter
  \<open>lib\<close>: a compiled expression is its pattern text.
\<close>

section \<open>Proxies and listeners\<close>

record Proxy =
  proxy_id :: string
  namespace :: string
  hosts :: "string list"
  listen_path :: "string option"
  listen_port :: "u16 option"
  backend_port :: u16
  is_stream :: bool

record RouteMatch =
  proxy :: Proxy
  path_params :: "(string \<times> string) list"
  matched_prefix_len :: nat

record GatewayListenerAdmission =
  pending :: bool
  refused_ports :: "u16 list"

definition admission_pending :: GatewayListenerAdmission where
  "admission_pending = \<lparr>pending = True, refused_ports = []\<rparr>"

definition admission_decided :: "u16 list \<Rightarrow> GatewayListenerAdmission" where
  "admission_decided ports = \<lparr>pending = False, refused_ports = ports\<rparr>"

definition allows :: "GatewayListenerAdmission \<Rightarrow> u16 \<Rightarrow> bool" where
  "allows a port \<longleftrightarrow> \<not> pending a \<and> port \<notin> set (refused_ports a)"

definition explicitly_refuses :: "GatewayListenerAdmission \<Rightarrow> u16 \<Rightarrow> bool" where
  "explicitly_refuses a port \<longleftrightarrow> port \<in> set (refused_ports a)"

record HttpPortMatchContext =
  frontend_port :: "u16 option"
  frontend_is_tls :: bool
  ctx_single_nontls :: "u16 option"
  ctx_single_tls :: "u16 option"
  listener_admission :: GatewayListenerAdmission

record PortScopedProxy =
  scoped_proxy :: Proxy
  scoped_port :: "u16 option"
  listen_port_tls :: bool
  allow_service_remap :: bool

definition MESH_INGRESS_BIND_PROXY_ID_PREFIX :: string where
  "MESH_INGRESS_BIND_PROXY_ID_PREFIX = ''__mesh-ingress-bind:''"

definition is_mesh_ingress_bind_route_id :: "string \<Rightarrow> bool" where
  "is_mesh_ingress_bind_route_id pid = starts_with MESH_INGRESS_BIND_PROXY_ID_PREFIX pid"

definition new_PortScopedProxy :: "Proxy \<Rightarrow> (string \<times> u16) list \<Rightarrow> PortScopedProxy" where
  "new_PortScopedProxy p tls_listen_ports =
     (let port = (if is_stream p then None else listen_port p) in
      \<lparr>scoped_proxy = p, scoped_port = port,
       listen_port_tls = (case port of Some n \<Rightarrow> (namespace p, n) \<in> set tls_listen_ports | None \<Rightarrow> False),
       allow_service_remap = (\<not> is_mesh_ingress_bind_route_id (proxy_id p))\<rparr>)"

definition port_match_priority :: "u16 option \<Rightarrow> bool \<Rightarrow> bool \<Rightarrow> HttpPortMatchContext \<Rightarrow> nat option" where
  "port_match_priority port_opt port_tls service_remap ctx =
     (case port_opt of
        None \<Rightarrow> Some 2
      | Some port \<Rightarrow>
          if \<not> allows (listener_admission ctx) port then None
          else if port_tls \<noteq> frontend_is_tls ctx then None
          else if frontend_port ctx = Some port then Some 0
          else if \<not> service_remap then None
          else
            (let single_for_class =
                   (if frontend_is_tls ctx then ctx_single_tls ctx else ctx_single_nontls ctx)
             in if single_for_class = Some port then Some 1 else None))"

definition match_priority :: "PortScopedProxy \<Rightarrow> HttpPortMatchContext \<Rightarrow> nat option" where
  "match_priority c ctx =
     port_match_priority (scoped_port c) (listen_port_tls c) (allow_service_remap c) ctx"

fun select_loop :: "HttpPortMatchContext \<Rightarrow> (Proxy \<times> nat) option \<Rightarrow> PortScopedProxy list \<Rightarrow> (Proxy \<times> nat) option" where
  "select_loop ctx best [] = best"
| "select_loop ctx best (c # cs) =
     (case match_priority c ctx of
        None \<Rightarrow> select_loop ctx best cs
      | Some prio \<Rightarrow>
          if (case best of None \<Rightarrow> True | Some (_, best_prio) \<Rightarrow> prio < best_prio) then
            (if prio = 0 then Some (scoped_proxy c, prio)
             else select_loop ctx (Some (scoped_proxy c, prio)) cs)
          else select_loop ctx best cs)"

definition select_port_aware_proxy :: "PortScopedProxy list \<Rightarrow> HttpPortMatchContext \<Rightarrow> Proxy option" where
  "select_port_aware_proxy candidates ctx = map_option fst (select_loop ctx None candidates)"

section \<open>Indexes\<close>

record RouteEntry =
  entry_path :: string
  candidate :: PortScopedProxy

type_synonym path_index = "(string \<times> PortScopedProxy list) list"

text \<open>\<open>entry(key).or_default().push(value)\<close>.\<close>

fun push_entry :: "'k \<Rightarrow> 'v \<Rightarrow> ('k \<times> 'v list) list \<Rightarrow> ('k \<times> 'v list) list" where
  "push_entry k v [] = [(k, [v])]"
| "push_entry k v ((k', vs) # rest) =
     (if k = k' then (k', vs @ [v]) # rest else (k', vs) # push_entry k v rest)"

definition from_entries :: "RouteEntry list \<Rightarrow> path_index" where
  "from_entries entries = fold (\<lambda>e. push_entry (entry_path e) (candidate e)) entries []"

definition from_sorted :: "RouteEntry list \<Rightarrow> path_index" where
  "from_sorted routes = fold (\<lambda>e. push_entry (entry_path e) (candidate e)) routes []"

definition strip_query :: "string \<Rightarrow> string" where
  "strip_query path = takeWhile (\<lambda>c. c \<noteq> CHR ''?'') path"

definition find_exact_path_match_indexed :: "path_index \<Rightarrow> string \<Rightarrow> HttpPortMatchContext \<Rightarrow> RouteMatch option" where
  "find_exact_path_match_indexed routes path ctx =
     (if routes = [] then None
      else
        (let match_path = strip_query path in
         case map_of routes match_path of
           None \<Rightarrow> None
         | Some candidates \<Rightarrow>
             (case select_port_aware_proxy candidates ctx of
                None \<Rightarrow> None
              | Some p \<Rightarrow>
                  Some \<lparr>proxy = p, path_params = [], matched_prefix_len = length match_path\<rparr>)))"

definition pick :: "path_index \<Rightarrow> HttpPortMatchContext \<Rightarrow> string \<Rightarrow> RouteMatch option" where
  "pick routes ctx key =
     (case map_of routes key of
        None \<Rightarrow> None
      | Some candidates \<Rightarrow>
          map_option (\<lambda>p. \<lparr>proxy = p, path_params = [], matched_prefix_len = length key\<rparr>)
            (select_port_aware_proxy candidates ctx))"

text \<open>The backward walk over the slashes of the path.\<close>

function prefix_walk :: "path_index \<Rightarrow> HttpPortMatchContext \<Rightarrow> string \<Rightarrow> nat \<Rightarrow> RouteMatch option" where
  "prefix_walk routes ctx match_path search_end =
     (case rfind (CHR ''/'') (take search_end match_path) of
        None \<Rightarrow> None
      | Some slash_pos \<Rightarrow>
          if slash_pos = 0 then pick routes ctx ''/''
          else
            (case pick routes ctx (take (Suc slash_pos) match_path) of
               Some m \<Rightarrow> Some m
             | None \<Rightarrow>
                 (case pick routes ctx (take slash_pos match_path) of
                    Some m \<Rightarrow> Some m
                  | None \<Rightarrow> prefix_walk routes ctx match_path slash_pos)))"
  by pat_completeness auto
termination
  by (relation "measure (\<lambda>(routes, ctx, p, n). n)") (auto dest!: rfind_SomeD(1))

declare prefix_walk.simps [simp del]

definition find_prefix_match_indexed :: "path_index \<Rightarrow> string \<Rightarrow> HttpPortMatchContext \<Rightarrow> RouteMatch option" where
  "find_prefix_match_indexed routes path ctx =
     (if routes = [] then None
      else
        (let match_path = strip_query path in
         case pick routes ctx match_path of
           Some m \<Rightarrow> Some m
         | None \<Rightarrow> prefix_walk routes ctx match_path (length match_path)))"

section \<open>Regular expressions\<close>

record regex_lib =
  regex_ok :: "string \<Rightarrow> bool"
  regex_is_match :: "string \<Rightarrow> string \<Rightarrow> bool"
  regex_captures :: "string \<Rightarrow> string \<Rightarrow> (nat \<times> (string \<times> string) list) option"
  regex_capture_names :: "string \<Rightarrow> string list"
  regex_set_ok :: "string list \<Rightarrow> bool"
  regex_set_matches :: "string list \<Rightarrow> string \<Rightarrow> nat list"

text \<open>What the crate documents: a match is a capture of the whole expression, and the set lists the
  indices of the matching patterns in order.\<close>

definition regex_contract :: "regex_lib \<Rightarrow> bool" where
  "regex_contract lib \<longleftrightarrow>
     (\<forall>r s. regex_captures lib r s \<noteq> None \<longleftrightarrow> regex_is_match lib r s) \<and>
     (\<forall>rs s. regex_set_matches lib rs s = filter (\<lambda>i. regex_is_match lib (rs ! i) s) [0..<length rs])"

record RegexRouteEntry =
  pattern :: string
  capture_names :: "string list"
  regex_candidate :: PortScopedProxy

record IndexedRegexRoutes =
  entries :: "RegexRouteEntry list"
  regex_set :: "string list option"

definition new_IndexedRegexRoutes :: "regex_lib \<Rightarrow> RegexRouteEntry list \<Rightarrow> IndexedRegexRoutes" where
  "new_IndexedRegexRoutes lib es =
     (let patterns = map pattern es in
      \<lparr>entries = es, regex_set = (if regex_set_ok lib patterns then Some patterns else None)\<rparr>)"

text \<open>One admitted entry against the running best: the new best and whether the loop stops.\<close>

definition regex_better :: "(RegexRouteEntry \<times> nat) option \<Rightarrow> RegexRouteEntry \<Rightarrow> nat \<Rightarrow> bool" where
  "regex_better best e prio =
     (case best of None \<Rightarrow> True | Some (b, current) \<Rightarrow> pattern b = pattern e \<and> prio < current)"

fun regex_set_loop ::
  "HttpPortMatchContext \<Rightarrow> RegexRouteEntry list \<Rightarrow> (RegexRouteEntry \<times> nat) option \<Rightarrow> nat list \<Rightarrow>
   (RegexRouteEntry \<times> nat) option" where
  "regex_set_loop ctx es best [] = best"
| "regex_set_loop ctx es best (idx # rest) =
     (let e = es ! idx in
      case match_priority (regex_candidate e) ctx of
        None \<Rightarrow> regex_set_loop ctx es best rest
      | Some prio \<Rightarrow>
          if regex_better best e prio then
            (if prio = 0 then Some (e, prio) else regex_set_loop ctx es (Some (e, prio)) rest)
          else regex_set_loop ctx es best rest)"

fun regex_linear_loop ::
  "regex_lib \<Rightarrow> HttpPortMatchContext \<Rightarrow> string \<Rightarrow> (RegexRouteEntry \<times> nat) option \<Rightarrow> RegexRouteEntry list \<Rightarrow>
   (RegexRouteEntry \<times> nat) option" where
  "regex_linear_loop lib ctx path best [] = best"
| "regex_linear_loop lib ctx path best (e # rest) =
     (case match_priority (regex_candidate e) ctx of
        None \<Rightarrow> regex_linear_loop lib ctx path best rest
      | Some prio \<Rightarrow>
          if \<not> regex_is_match lib (pattern e) path then regex_linear_loop lib ctx path best rest
          else if regex_better best e prio then
            (if prio = 0 then Some (e, prio) else regex_linear_loop lib ctx path (Some (e, prio)) rest)
          else regex_linear_loop lib ctx path best rest)"

definition find_regex_match_indexed ::
  "regex_lib \<Rightarrow> IndexedRegexRoutes \<Rightarrow> string \<Rightarrow> HttpPortMatchContext \<Rightarrow> RouteMatch option" where
  "find_regex_match_indexed lib routes path ctx =
     (if entries routes = [] then None
      else
        (case (case regex_set routes of
                 Some patterns \<Rightarrow>
                   regex_set_loop ctx (entries routes) None (regex_set_matches lib patterns path)
               | None \<Rightarrow> regex_linear_loop lib ctx path None (entries routes)) of
           None \<Rightarrow> None
         | Some (e, _) \<Rightarrow>
             (case regex_captures lib (pattern e) path of
                None \<Rightarrow> None
              | Some (matched_end, groups) \<Rightarrow>
                  Some \<lparr>proxy = scoped_proxy (regex_candidate e),
                        path_params = List.map_filter
                          (\<lambda>name. map_option (Pair name) (map_of groups name)) (capture_names e),
                        matched_prefix_len = matched_end\<rparr>)))"

section \<open>Selection among listener-scoped candidates\<close>

lemma select_loop_mem:
  "select_loop ctx best cs = Some (p, prio) \<Longrightarrow>
   best = Some (p, prio) \<or> (\<exists>c \<in> set cs. scoped_proxy c = p \<and> match_priority c ctx = Some prio)"
  by (induction cs arbitrary: best) (force split: option.splits if_splits prod.splits)+

lemma select_loop_Some: "select_loop ctx (Some b) cs \<noteq> None"
  by (induction cs arbitrary: b) (auto split: option.splits)

lemma select_loop_None_iff:
  "select_loop ctx best cs = None \<longleftrightarrow> best = None \<and> (\<forall>c \<in> set cs. match_priority c ctx = None)"
  using select_loop_Some
  by (induction cs arbitrary: best) (auto split: option.splits simp del: not_None_eq)

lemma select_None_iff: "select_port_aware_proxy cs ctx = None \<longleftrightarrow> (\<forall>c \<in> set cs. match_priority c ctx = None)"
  by (simp add: select_port_aware_proxy_def select_loop_None_iff)

lemma select_SomeD:
  "select_port_aware_proxy cs ctx = Some p \<Longrightarrow>
   \<exists>c \<in> set cs. scoped_proxy c = p \<and> match_priority c ctx \<noteq> None"
  unfolding select_port_aware_proxy_def by (auto dest!: select_loop_mem)

section \<open>The regex loops\<close>

text \<open>Both loops are one loop over the entries that match.\<close>

fun best_regex ::
  "HttpPortMatchContext \<Rightarrow> (RegexRouteEntry \<times> nat) option \<Rightarrow> RegexRouteEntry list \<Rightarrow> (RegexRouteEntry \<times> nat) option" where
  "best_regex ctx best [] = best"
| "best_regex ctx best (e # rest) =
     (case match_priority (regex_candidate e) ctx of
        None \<Rightarrow> best_regex ctx best rest
      | Some prio \<Rightarrow>
          if regex_better best e prio then
            (if prio = 0 then Some (e, prio) else best_regex ctx (Some (e, prio)) rest)
          else best_regex ctx best rest)"

lemma set_loop_best: "regex_set_loop ctx es best idxs = best_regex ctx best (map ((!) es) idxs)"
  by (induction idxs arbitrary: best) (auto simp: Let_def split: option.split)

lemma linear_loop_best:
  "regex_linear_loop lib ctx path best es =
     best_regex ctx best (filter (\<lambda>e. regex_is_match lib (pattern e) path) es)"
  by (induction es arbitrary: best) (auto split: option.split)

lemma map_nth_filter: "map ((!) xs) (filter (\<lambda>i. P (xs ! i)) [0..<length xs]) = filter P xs"
  by (metis (no_types, lifting) comp_apply filter_cong filter_map map_nth)

lemma find_regex_best:
  assumes "regex_contract lib"
  shows "find_regex_match_indexed lib (new_IndexedRegexRoutes lib es) path ctx =
     (case best_regex ctx None (filter (\<lambda>e. regex_is_match lib (pattern e) path) es) of
        None \<Rightarrow> None
      | Some (e, _) \<Rightarrow>
          (case regex_captures lib (pattern e) path of
             None \<Rightarrow> None
           | Some (matched_end, groups) \<Rightarrow>
               Some \<lparr>proxy = scoped_proxy (regex_candidate e),
                     path_params = List.map_filter
                       (\<lambda>name. map_option (Pair name) (map_of groups name)) (capture_names e),
                     matched_prefix_len = matched_end\<rparr>))"
proof -
  have "regex_set_matches lib (map pattern es) path =
      filter (\<lambda>i. regex_is_match lib (pattern (es ! i)) path) [0..<length es]"
    using assms by (auto simp: regex_contract_def intro!: filter_cong)
  then show ?thesis
    by (cases "es = []")
      (simp_all add: find_regex_match_indexed_def new_IndexedRegexRoutes_def Let_def set_loop_best
        linear_loop_best map_nth_filter [of es "\<lambda>e. regex_is_match lib (pattern e) path"])
qed

lemma best_regex_mem:
  "best_regex ctx best es = Some (e, prio) \<Longrightarrow>
   best = Some (e, prio) \<or> (e \<in> set es \<and> match_priority (regex_candidate e) ctx = Some prio)"
  by (induction es arbitrary: best) (fastforce split: option.splits if_splits)+

lemma best_regex_Some: "best_regex ctx (Some b) es \<noteq> None"
  by (induction es arbitrary: b) (auto split: option.splits)

lemma best_regex_None_iff:
  "best_regex ctx best es = None \<longleftrightarrow> best = None \<and> (\<forall>e \<in> set es. match_priority (regex_candidate e) ctx = None)"
  using best_regex_Some
  by (induction es arbitrary: best) (auto simp: regex_better_def split: option.splits simp del: not_None_eq)

lemma find_regex_SomeD:
  assumes "regex_contract lib"
    and "find_regex_match_indexed lib (new_IndexedRegexRoutes lib es) path ctx = Some m"
  shows "\<exists>e \<in> set es. (regex_is_match lib (pattern e) path \<and> match_priority (regex_candidate e) ctx \<noteq> None) \<and>
           scoped_proxy (regex_candidate e) = proxy m"
  using assms(2) unfolding find_regex_best [OF assms(1)]
  by (fastforce dest!: best_regex_mem split: option.splits)

lemma find_regex_None_iff:
  assumes "regex_contract lib"
  shows "find_regex_match_indexed lib (new_IndexedRegexRoutes lib es) path ctx = None \<longleftrightarrow>
     (\<forall>e \<in> set es. \<not> (regex_is_match lib (pattern e) path \<and> match_priority (regex_candidate e) ctx \<noteq> None))"
    (is "?l = None \<longleftrightarrow> ?r")
proof
  let ?es = "filter (\<lambda>e. regex_is_match lib (pattern e) path) es"
  show "?l = None" if ?r
  proof -
    from that have "best_regex ctx None ?es = None" by (auto simp: best_regex_None_iff)
    then show ?thesis unfolding find_regex_best [OF assms] by simp
  qed
  show ?r if "?l = None"
  proof (cases "best_regex ctx None ?es")
    case None
    then show ?thesis by (auto simp: best_regex_None_iff)
  next
    case (Some b)
    obtain e prio where b: "b = (e, prio)" by force
    have "regex_captures lib (pattern e) path \<noteq> None"
      using best_regex_mem [OF Some [unfolded b]] assms by (simp add: regex_contract_def)
    with that Some b show ?thesis unfolding find_regex_best [OF assms] by (auto split: option.splits)
  qed
qed

section \<open>The boundary prefixes of a path\<close>

text \<open>The listen paths a request path may match: itself, and what ends at or before one of its slashes.\<close>

definition boundary_prefix :: "string \<Rightarrow> string \<Rightarrow> bool" where
  "boundary_prefix p k \<longleftrightarrow>
     k = p \<or> (\<exists>i < length p. p ! i = CHR ''/'' \<and> (k = take (Suc i) p \<or> 0 < i \<and> k = take i p))"

text \<open>The prefixes the walk from \<open>search_end\<close> still visits.\<close>

definition walk_prefix :: "string \<Rightarrow> nat \<Rightarrow> string \<Rightarrow> bool" where
  "walk_prefix p n k \<longleftrightarrow>
     (\<exists>i < length p. i < n \<and> p ! i = CHR ''/'' \<and> (k = take (Suc i) p \<or> 0 < i \<and> k = take i p))"

lemma boundary_prefix_walk: "boundary_prefix p k \<longleftrightarrow> k = p \<or> walk_prefix p (length p) k"
  by (auto simp: boundary_prefix_def walk_prefix_def)

lemma walk_prefix_step:
  assumes "rfind (CHR ''/'') (take n p) = Some i"
  shows "i < n" "i < length p" "p ! i = CHR ''/''"
    and "walk_prefix p n k \<longleftrightarrow> k = take (Suc i) p \<or> (0 < i \<and> (k = take i p \<or> walk_prefix p i k))"
proof -
  from rfind_SomeD [OF assms] show i: "i < n" "i < length p" "p ! i = CHR ''/''" by auto
  have later: "j \<le> i" if "j < n" "j < length p" "p ! j = CHR ''/''" for j
  proof (rule ccontr)
    assume "\<not> j \<le> i"
    then have "take n p ! j \<in> set (drop (Suc i) (take n p))"
      using that by (auto simp: in_set_conv_nth intro!: exI [of _ "j - Suc i"])
    with that rfind_SomeD(3) [OF assms] show False by simp
  qed
  show "walk_prefix p n k \<longleftrightarrow> k = take (Suc i) p \<or> (0 < i \<and> (k = take i p \<or> walk_prefix p i k))"
  proof
    assume "walk_prefix p n k"
    then obtain j where j: "j < length p" "j < n" "p ! j = CHR ''/''" "k = take (Suc j) p \<or> 0 < j \<and> k = take j p"
      by (auto simp: walk_prefix_def)
    show "k = take (Suc i) p \<or> (0 < i \<and> (k = take i p \<or> walk_prefix p i k))"
    proof (cases "j = i")
      case True
      with j show ?thesis by auto
    next
      case False
      with later j have "j < i" by (simp add: le_neq_implies_less)
      with j show ?thesis by (auto simp: walk_prefix_def)
    qed
  next
    assume "k = take (Suc i) p \<or> (0 < i \<and> (k = take i p \<or> walk_prefix p i k))"
    with i show "walk_prefix p n k" by (auto simp: walk_prefix_def)
  qed
qed

lemma walk_prefix_none: "rfind (CHR ''/'') (take n p) = None \<Longrightarrow> \<not> walk_prefix p n k"
  by (auto simp: rfind_None_iff walk_prefix_def in_set_conv_nth)

text \<open>The keys the walk tries, in its order: from the longest to the shortest.\<close>

function walk_keys :: "string \<Rightarrow> nat \<Rightarrow> string list" where
  "walk_keys p n =
     (case rfind (CHR ''/'') (take n p) of
        None \<Rightarrow> []
      | Some i \<Rightarrow> if i = 0 then [''/''] else take (Suc i) p # take i p # walk_keys p i)"
  by pat_completeness auto
termination
  by (relation "measure (\<lambda>(p, n). n)") (auto dest!: rfind_SomeD(1))

declare walk_keys.simps [simp del]

fun first_some :: "('a \<Rightarrow> 'b option) \<Rightarrow> 'a list \<Rightarrow> 'b option" where
  "first_some f [] = None"
| "first_some f (x # xs) = (case f x of Some y \<Rightarrow> Some y | None \<Rightarrow> first_some f xs)"

lemma first_some_None: "first_some f xs = None \<longleftrightarrow> (\<forall>x \<in> set xs. f x = None)"
  by (induction xs) (auto split: option.splits)

lemma first_some_SomeD: "first_some f xs = Some y \<Longrightarrow> \<exists>x \<in> set xs. f x = Some y"
  by (induction xs) (auto split: option.splits)

lemma first_some_sorted:
  "first_some f xs = Some y \<Longrightarrow> sorted_wrt r xs \<Longrightarrow>
   \<exists>x \<in> set xs. f x = Some y \<and> (\<forall>x' \<in> set xs. x' = x \<or> r x x' \<or> f x' = None)"
  by (induction xs) (auto split: option.splits)

lemma prefix_walk_keys: "prefix_walk routes ctx p n = first_some (pick routes ctx) (walk_keys p n)"
proof (induction p n rule: walk_keys.induct)
  case (1 p n)
  show ?case
  proof (cases "rfind (CHR ''/'') (take n p)")
    case (Some i)
    with 1 show ?thesis
      by (cases "i = 0")
        (simp_all add: prefix_walk.simps [of routes ctx p n] walk_keys.simps [of p n] split: option.split)
  qed (simp add: prefix_walk.simps [of routes ctx p n] walk_keys.simps [of p n])
qed

lemma set_walk_keys: "k \<in> set (walk_keys p n) \<longleftrightarrow> walk_prefix p n k"
proof (induction p n rule: walk_keys.induct)
  case (1 p n)
  show ?case
  proof (cases "rfind (CHR ''/'') (take n p)")
    case (Some i)
    note step = walk_prefix_step [OF Some]
    have "i = 0 \<Longrightarrow> take (Suc i) p = ''/''" using step(2,3) by (cases p) auto
    with 1 [OF Some] step(4) [of k] Some show ?thesis by (auto simp: walk_keys.simps [of p n])
  qed (simp add: walk_keys.simps [of p n] walk_prefix_none)
qed

lemma walk_keys_length: "k \<in> set (walk_keys p n) \<Longrightarrow> length k \<le> n \<and> length k \<le> length p"
  by (auto simp: set_walk_keys walk_prefix_def)

lemma sorted_walk_keys: "sorted_wrt (\<lambda>a b. length b \<le> length a) (walk_keys p n)"
proof (induction p n rule: walk_keys.induct)
  case (1 p n)
  show ?case
  proof (cases "rfind (CHR ''/'') (take n p)")
    case (Some i)
    with 1 [OF Some] walk_prefix_step(2) [OF Some] walk_keys_length [of _ p i] show ?thesis
      by (cases "i = 0") (auto simp: walk_keys.simps [of p n] le_SucI)
  qed (simp add: walk_keys.simps [of p n])
qed

lemma find_prefix_keys:
  "find_prefix_match_indexed routes path ctx =
     first_some (pick routes ctx) (strip_query path # walk_keys (strip_query path) (length (strip_query path)))"
proof (cases "routes = []")
  case True
  then have "first_some (pick routes ctx) ks = None" for ks
    unfolding first_some_None by (simp add: pick_def)
  then show ?thesis using True by (simp add: find_prefix_match_indexed_def del: first_some.simps)
next
  case False
  then show ?thesis by (simp add: find_prefix_match_indexed_def prefix_walk_keys Let_def cong: option.case_cong)
qed

text \<open>
  Prefix routing finds the longest match. The index lookup at the slashes of the request path,
  from the right, returns a route exactly when some configured listen path is a boundary prefix of
  the path (the query left out) with a candidate for this listener; it then returns the longest
  such listen path. A listen path never matches inside a path segment.
\<close>

theorem prefix_lookup_longest:
  "case find_prefix_match_indexed routes path ctx of
     None \<Rightarrow> \<not> (\<exists>k. boundary_prefix (strip_query path) k \<and> pick routes ctx k \<noteq> None)
   | Some m \<Rightarrow> \<exists>k. boundary_prefix (strip_query path) k \<and> pick routes ctx k = Some m \<and>
       matched_prefix_len m = length k \<and>
       \<not> (\<exists>k'. boundary_prefix (strip_query path) k' \<and> length k < length k' \<and> pick routes ctx k' \<noteq> None)"
proof -
  let ?p = "strip_query path"
  let ?keys = "?p # walk_keys ?p (length ?p)"
  have keys: "k \<in> set ?keys \<longleftrightarrow> boundary_prefix ?p k" for k
    by (auto simp: boundary_prefix_walk set_walk_keys)
  have sorted: "sorted_wrt (\<lambda>a b. length b \<le> length a) ?keys"
    using sorted_walk_keys walk_keys_length by simp
  show ?thesis
  proof (cases "find_prefix_match_indexed routes path ctx")
    case None
    then have "\<forall>k \<in> set ?keys. pick routes ctx k = None" unfolding find_prefix_keys first_some_None .
    then have "\<not> (\<exists>k. boundary_prefix ?p k \<and> pick routes ctx k \<noteq> None)"
      unfolding keys [symmetric] by auto
    with None show ?thesis by simp
  next
    case (Some m)
    with first_some_sorted [OF _ sorted, of "pick routes ctx" m] obtain k where k: "k \<in> set ?keys"
      "pick routes ctx k = Some m" "\<forall>k' \<in> set ?keys. k' = k \<or> length k' \<le> length k \<or> pick routes ctx k' = None"
      unfolding find_prefix_keys by blast
    from k(2) have "matched_prefix_len m = length k" by (auto simp: pick_def split: option.splits)
    moreover have "\<not> (\<exists>k'. boundary_prefix ?p k' \<and> length k < length k' \<and> pick routes ctx k' \<noteq> None)"
      using k(3) keys by (metis leD less_irrefl)
    ultimately show ?thesis using Some k(1,2) keys by auto
  qed
qed

end
