(* ===== verification/Mesh_Groups.thy ===== *)
theory Mesh_Groups
  imports Std_Net
begin

text \<open>
  \<^verbatim>\<open>src/src/modes/mesh/mod.rs\<close> and \<^verbatim>\<open>src/src/modes/mesh/config.rs\<close>: the mesh services, the identity of
  the routes materialized for their ports, and the groups of per-port sibling routes that the route
  table and the port selection work with. A \<^verbatim>\<open>HashMap\<close> of protocol overrides is an association list.
\<close>

section \<open>Services\<close>

datatype AppProtocol = Http | Http2 | Grpc | Tcp | Tls | Udp | Dtls | Mongo | Redis | Mysql | Postgres | Unknown

record ServicePort =
  sp_port :: u16
  sp_protocol :: AppProtocol

record MeshService =
  service_name :: string
  service_namespace :: string
  service_ports :: "ServicePort list"
  protocol_overrides :: "(u16 \<times> AppProtocol) list"

record ResolvedIngressListener =
  listener_port :: u16
  listener_protocol :: AppProtocol
  owner_namespace :: string
  owner_service :: string

record MeshConfig =
  services :: "MeshService list"
  local_inbound_services :: "MeshService list option"
  local_ingress_listeners :: "ResolvedIngressListener list"
  declared_ingress_http_ports :: nat

definition is_http_family_mesh_protocol :: "AppProtocol \<Rightarrow> bool" where
  "is_http_family_mesh_protocol p \<longleftrightarrow> p \<in> {Http, Http2, Grpc, Unknown}"

definition is_http_family_app_protocol :: "AppProtocol \<Rightarrow> bool" where
  "is_http_family_app_protocol p \<longleftrightarrow> p \<in> {Http, Http2, Grpc}"

definition is_udp_mesh_protocol :: "AppProtocol \<Rightarrow> bool" where
  "is_udp_mesh_protocol p \<longleftrightarrow> p \<in> {Udp, Dtls}"

definition effective_protocol :: "MeshService \<Rightarrow> ServicePort \<Rightarrow> AppProtocol" where
  "effective_protocol s sp =
     (case map_of (protocol_overrides s) (sp_port sp) of Some p \<Rightarrow> p | None \<Rightarrow> sp_protocol sp)"

definition service_http_family_ports :: "MeshService \<Rightarrow> ServicePort list" where
  "service_http_family_ports s =
     filter (\<lambda>sp. is_http_family_mesh_protocol (effective_protocol s sp)) (service_ports s)"

definition service_tcp_stream_ports :: "MeshService \<Rightarrow> ServicePort list" where
  "service_tcp_stream_ports s =
     filter (\<lambda>sp. \<not> is_http_family_mesh_protocol (effective_protocol s sp) \<and>
                  \<not> is_udp_mesh_protocol (effective_protocol s sp)) (service_ports s)"

definition service_udp_stream_ports :: "MeshService \<Rightarrow> ServicePort list" where
  "service_udp_stream_ports s =
     filter (\<lambda>sp. is_udp_mesh_protocol (effective_protocol s sp)) (service_ports s)"

section \<open>Route identities\<close>

definition MESH_INBOUND_PROXY_ID_PREFIX :: string where
  "MESH_INBOUND_PROXY_ID_PREFIX = ''__mesh-inbound-''"

definition MESH_INGRESS_PROXY_ID_PREFIX :: string where
  "MESH_INGRESS_PROXY_ID_PREFIX = ''__mesh-ingress-''"

definition MESH_OUTBOUND_PROXY_ID_PREFIX :: string where
  "MESH_OUTBOUND_PROXY_ID_PREFIX = ''__mesh-outbound-''"

definition MESH_OUTBOUND_HTTP_BYWL_PROXY_ID_PREFIX :: string where
  "MESH_OUTBOUND_HTTP_BYWL_PROXY_ID_PREFIX = ''__mesh-outbound-http-bywl-''"

definition is_mesh_inbound_route_id :: "string \<Rightarrow> bool" where
  "is_mesh_inbound_route_id pid \<longleftrightarrow>
     starts_with MESH_INBOUND_PROXY_ID_PREFIX pid \<or> starts_with MESH_INGRESS_PROXY_ID_PREFIX pid"

definition is_mesh_ingress_route_id :: "string \<Rightarrow> bool" where
  "is_mesh_ingress_route_id pid = starts_with MESH_INGRESS_PROXY_ID_PREFIX pid"

definition is_mesh_outbound_route_id :: "string \<Rightarrow> bool" where
  "is_mesh_outbound_route_id pid = starts_with MESH_OUTBOUND_PROXY_ID_PREFIX pid"

definition is_mesh_outbound_http_bywl_route_id :: "string \<Rightarrow> bool" where
  "is_mesh_outbound_http_bywl_route_id pid = starts_with MESH_OUTBOUND_HTTP_BYWL_PROXY_ID_PREFIX pid"

datatype MeshTrafficDirection = Inbound | Outbound

definition mesh_route_direction :: "string \<Rightarrow> MeshTrafficDirection option" where
  "mesh_route_direction pid =
     (if is_mesh_inbound_route_id pid then Some Inbound
      else if is_mesh_outbound_route_id pid then Some Outbound
      else None)"

text \<open>\<open>str::replace\<close> with a set of characters.\<close>

definition replace_chars :: "char list \<Rightarrow> string \<Rightarrow> string" where
  "replace_chars cs s = map (\<lambda>c. if c \<in> set cs then CHR ''-'' else c) s"

definition port_route_id :: "string \<Rightarrow> string \<Rightarrow> string \<Rightarrow> u16 \<Rightarrow> string" where
  "port_route_id prefix ns name port = prefix @ ns @ ''-'' @ name @ ''-'' @ dec (unat port)"

definition mesh_inbound_proxy_id :: "string \<Rightarrow> string \<Rightarrow> u16 \<Rightarrow> string" where
  "mesh_inbound_proxy_id ns name port =
     replace_chars [CHR ''/'', CHR ''.''] (port_route_id MESH_INBOUND_PROXY_ID_PREFIX ns name port)"

definition mesh_ingress_proxy_id :: "string \<Rightarrow> string \<Rightarrow> u16 \<Rightarrow> string" where
  "mesh_ingress_proxy_id ns name port =
     replace_chars [CHR ''/'', CHR ''.'', CHR '':''] (port_route_id MESH_INGRESS_PROXY_ID_PREFIX ns name port)"

definition mesh_outbound_proxy_id :: "string \<Rightarrow> string \<Rightarrow> u16 \<Rightarrow> string" where
  "mesh_outbound_proxy_id ns name port =
     replace_chars [CHR ''/'', CHR ''.''] (port_route_id MESH_OUTBOUND_PROXY_ID_PREFIX ns name port)"

section \<open>Sibling groups\<close>

record MeshOutboundServiceGroup =
  group_namespace :: string
  declared_http_ports :: nat
  siblings :: "(u16 \<times> string) list"

definition service_group ::
  "(string \<Rightarrow> string \<Rightarrow> u16 \<Rightarrow> string) \<Rightarrow> MeshService \<Rightarrow> MeshOutboundServiceGroup option" where
  "service_group proxy_id_of s =
     (let http_ports = service_http_family_ports s in
      if http_ports = [] then None
      else Some \<lparr>group_namespace = service_namespace s, declared_http_ports = length http_ports,
             siblings = map (\<lambda>sp. (sp_port sp, proxy_id_of (service_namespace s) (service_name s) (sp_port sp))) http_ports\<rparr>)"

definition mesh_outbound_service_groups :: "MeshConfig \<Rightarrow> MeshOutboundServiceGroup list" where
  "mesh_outbound_service_groups m = List.map_filter (service_group mesh_outbound_proxy_id) (services m)"

definition mesh_inbound_service_groups :: "MeshConfig \<Rightarrow> MeshOutboundServiceGroup list" where
  "mesh_inbound_service_groups m =
     (let ss = (case local_inbound_services m of Some ss \<Rightarrow> ss | None \<Rightarrow> services m) in
      List.map_filter (service_group mesh_inbound_proxy_id) ss)"

definition mesh_ingress_listener_groups :: "MeshConfig \<Rightarrow> MeshOutboundServiceGroup list" where
  "mesh_ingress_listener_groups m =
     (let http_listeners =
            filter (\<lambda>l. is_http_family_app_protocol (listener_protocol l)) (local_ingress_listeners m)
      in case http_listeners of
           [] \<Rightarrow> []
         | first_listener # _ \<Rightarrow>
             (let sibs = map (\<lambda>l. (listener_port l,
                    mesh_ingress_proxy_id (owner_namespace l) (owner_service l) (listener_port l))) http_listeners
              in [\<lparr>group_namespace = owner_namespace first_listener,
                   declared_http_ports = max (declared_ingress_http_ports m) (length sibs),
                   siblings = sibs\<rparr>]))"

section \<open>Facts about groups and identities\<close>

lemma in_map_filter: "y \<in> set (List.map_filter f xs) \<longleftrightarrow> (\<exists>x \<in> set xs. f x = Some y)"
  by (force simp: map_filter_def)

text \<open>Every port of a service is HTTP, raw TCP or UDP, and only one of the three.\<close>

lemma port_families_partition:
  "sp \<in> set (service_ports s) \<Longrightarrow>
   of_bool (sp \<in> set (service_http_family_ports s)) + of_bool (sp \<in> set (service_tcp_stream_ports s)) +
   of_bool (sp \<in> set (service_udp_stream_ports s)) = (1 :: nat)"
  by (cases "effective_protocol s sp")
    (simp_all add: service_http_family_ports_def service_tcp_stream_ports_def service_udp_stream_ports_def
      is_http_family_mesh_protocol_def is_udp_mesh_protocol_def)

text \<open>A group never declares fewer ports than it lists siblings.\<close>

lemma group_declares_siblings:
  "g \<in> set (mesh_outbound_service_groups m) \<union> set (mesh_inbound_service_groups m) \<union>
     set (mesh_ingress_listener_groups m) \<Longrightarrow>
   length (siblings g) \<le> declared_http_ports g"
  by (auto simp: mesh_outbound_service_groups_def mesh_inbound_service_groups_def mesh_ingress_listener_groups_def
      service_group_def in_map_filter Let_def split: if_splits list.splits)

lemma replace_chars_append [simp]: "replace_chars cs (s @ t) = replace_chars cs s @ replace_chars cs t"
  by (simp add: replace_chars_def)

lemma starts_with_append: "starts_with p (p @ s)"
  by (simp add: starts_with_def)

text \<open>The ids of each direction are recognised as that direction.\<close>

lemma route_id_directions:
  "mesh_route_direction (mesh_inbound_proxy_id ns name port) = Some Inbound"
  "mesh_route_direction (mesh_ingress_proxy_id ns name port) = Some Inbound"
  "mesh_route_direction (mesh_outbound_proxy_id ns name port) = Some Outbound"
  by (simp_all add: mesh_route_direction_def is_mesh_inbound_route_id_def is_mesh_outbound_route_id_def
      mesh_inbound_proxy_id_def mesh_ingress_proxy_id_def mesh_outbound_proxy_id_def port_route_id_def
      MESH_INBOUND_PROXY_ID_PREFIX_def MESH_INGRESS_PROXY_ID_PREFIX_def MESH_OUTBOUND_PROXY_ID_PREFIX_def
      starts_with_def replace_chars_def)

end
