(* ===== verification/Route_Table.thy ===== *)
theory Route_Table
  imports Route_Match Mesh_Groups "HOL-Library.AList"
begin

text \<open>
  \<^verbatim>\<open>src/src/router_cache.rs\<close>, second part: the host route table, how it is built from the
  configuration, and how it is searched. A \<^verbatim>\<open>HashMap\<close> is an association list in insertion order;
  its iteration order is only used to list wildcard patterns before they are sorted by length.
\<close>

section \<open>Helpers of \<^verbatim>\<open>config/types.rs\<close>\<close>

definition wildcard_matches :: "string \<Rightarrow> string \<Rightarrow> bool" where
  "wildcard_matches pat hostname =
     (case strip_str_prefix ''*.'' pat of
        Some suffix \<Rightarrow>
          if hostname = suffix then False
          else
            (case strip_str_suffix suffix hostname of
               None \<Rightarrow> False
             | Some front \<Rightarrow> front \<noteq> [] \<and> last front = CHR ''.'' \<and> 1 < length front)
      | None \<Rightarrow> pat = hostname)"

definition has_unescaped_trailing_dollar :: "string \<Rightarrow> bool" where
  "has_unescaped_trailing_dollar pat =
     (case strip_str_suffix ''$'' pat of
        None \<Rightarrow> False
      | Some before_dollar \<Rightarrow>
          even (length (takeWhile (\<lambda>c. c = CHR 0x5C) (rev before_dollar))))"

definition anchor_regex_pattern :: "regex_lib \<Rightarrow> string \<Rightarrow> string" where
  "anchor_regex_pattern lib pat =
     (let core = (case strip_str_prefix ''^'' pat of Some stripped \<Rightarrow> stripped | None \<Rightarrow> pat);
          core = (if has_unescaped_trailing_dollar core then butlast core else core);
          wrapped = ''^(?:'' @ core @ '')$''
      in if \<not> regex_ok lib wrapped then
           (let newline_wrapped = ''^(?:'' @ core @ [CHR 0x0A] @ '')$'' in
            if regex_ok lib newline_wrapped then newline_wrapped else wrapped)
         else wrapped)"

section \<open>Mesh port groups\<close>

record MeshOutboundPortGroup =
  out_declared_http_ports :: nat
  out_ports :: "(u16 \<times> Proxy) list"

record MeshInboundSibling =
  authority_port :: u16
  orig_dst_match_port :: u16
  route :: Proxy

record MeshInboundPortGroup =
  in_declared_http_ports :: nat
  in_ports :: "MeshInboundSibling list"
  is_ingress :: bool

record GatewayConfig =
  proxies :: "Proxy list"
  http_tls_listen_ports :: "(string \<times> u16) list"
  mesh :: "MeshConfig option"

record mesh_tables =
  outbound_table :: "((string \<times> string) \<times> MeshOutboundPortGroup) list"
  inbound_table :: "((string \<times> string) \<times> MeshInboundPortGroup) list"
  sibling_skip_ids :: "(string \<times> string) list"

text \<open>The proxy an id names among those of one kind; a later one replaces an earlier one.\<close>

definition proxy_of_kind :: "(string \<Rightarrow> bool) \<Rightarrow> Proxy list \<Rightarrow> string \<Rightarrow> string \<Rightarrow> Proxy option" where
  "proxy_of_kind kind ps ns pid =
     find (\<lambda>p. \<not> is_stream p \<and> kind (proxy_id p) \<and> namespace p = ns \<and> proxy_id p = pid) (rev ps)"

definition group_members :: "Proxy list \<Rightarrow> MeshOutboundServiceGroup \<Rightarrow> (u16 \<times> Proxy) list" where
  "group_members ps g =
     sort_key fst (List.map_filter
       (\<lambda>(port, pid). map_option (Pair port)
          (proxy_of_kind is_mesh_outbound_route_id ps (group_namespace g) pid)) (siblings g))"

definition add_outbound_group :: "Proxy list \<Rightarrow> MeshOutboundServiceGroup \<Rightarrow> mesh_tables \<Rightarrow> mesh_tables" where
  "add_outbound_group ps g t =
     (case group_members ps g of
        [] \<Rightarrow> t
      | (port, rep) # others \<Rightarrow>
          t\<lparr>outbound_table := AList.update (group_namespace g, proxy_id rep)
               \<lparr>out_declared_http_ports = declared_http_ports g, out_ports = (port, rep) # others\<rparr>
               (outbound_table t),
            sibling_skip_ids := sibling_skip_ids t @ map (\<lambda>(_, p). (namespace p, proxy_id p)) others\<rparr>)"

definition inbound_members :: "bool \<Rightarrow> Proxy list \<Rightarrow> MeshOutboundServiceGroup \<Rightarrow> MeshInboundSibling list" where
  "inbound_members ingress ps g =
     sort_key authority_port (List.map_filter
       (\<lambda>(port, pid). map_option
          (\<lambda>p. \<lparr>authority_port = port,
                orig_dst_match_port = (if ingress then port else backend_port p), route = p\<rparr>)
          (proxy_of_kind (if ingress then is_mesh_ingress_route_id else is_mesh_inbound_route_id)
             ps (group_namespace g) pid)) (siblings g))"

definition add_inbound_group :: "bool \<Rightarrow> Proxy list \<Rightarrow> MeshOutboundServiceGroup \<Rightarrow> mesh_tables \<Rightarrow> mesh_tables" where
  "add_inbound_group ingress ps g t =
     (case inbound_members ingress ps g of
        [] \<Rightarrow> t
      | rep # others \<Rightarrow>
          t\<lparr>inbound_table := AList.update (group_namespace g, proxy_id (route rep))
               \<lparr>in_declared_http_ports = declared_http_ports g, in_ports = rep # others, is_ingress = ingress\<rparr>
               (inbound_table t),
            sibling_skip_ids := sibling_skip_ids t @
              map (\<lambda>s. (namespace (route s), proxy_id (route s))) others\<rparr>)"

definition build_mesh_tables :: "GatewayConfig \<Rightarrow> mesh_tables" where
  "build_mesh_tables cfg =
     (let t = \<lparr>outbound_table = [], inbound_table = [], sibling_skip_ids = []\<rparr>;
          t = (case mesh cfg of
                 None \<Rightarrow> t
               | Some m \<Rightarrow>
                   fold (add_inbound_group True (proxies cfg)) (mesh_ingress_listener_groups m)
                     (fold (add_inbound_group False (proxies cfg)) (mesh_inbound_service_groups m)
                       (fold (add_outbound_group (proxies cfg)) (mesh_outbound_service_groups m) t)))
      in t\<lparr>sibling_skip_ids := sibling_skip_ids t @
             map (\<lambda>p. (namespace p, proxy_id p))
               (filter (\<lambda>p. is_mesh_outbound_http_bywl_route_id (proxy_id p)) (proxies cfg))\<rparr>)"

section \<open>Building the host tiers\<close>

record 'e host_tier =
  by_host :: "(string \<times> 'e list) list"
  by_wildcard :: "(string \<times> 'e list) list"
  for_any :: "'e list"

definition empty_tier :: "'e host_tier" where
  "empty_tier = \<lparr>by_host = [], by_wildcard = [], for_any = []\<rparr>"

definition is_wildcard :: "string \<Rightarrow> bool" where
  "is_wildcard host = starts_with ''*.'' host"

definition push_host :: "'e \<Rightarrow> string \<Rightarrow> 'e host_tier \<Rightarrow> 'e host_tier" where
  "push_host e host t =
     (if is_wildcard host then t\<lparr>by_wildcard := push_entry host e (by_wildcard t)\<rparr>
      else t\<lparr>by_host := push_entry host e (by_host t)\<rparr>)"

definition push_route :: "string list \<Rightarrow> 'e \<Rightarrow> 'e host_tier \<Rightarrow> 'e host_tier" where
  "push_route hs e t = (if hs = [] then t\<lparr>for_any := for_any t @ [e]\<rparr> else fold (push_host e) hs t)"

record route_builder =
  exact_path_tier :: "RouteEntry host_tier"
  prefix_tier :: "RouteEntry host_tier"
  regex_tier :: "RegexRouteEntry host_tier"
  host_only_tier :: "PortScopedProxy host_tier"

definition empty_builder :: route_builder where
  "empty_builder =
     \<lparr>exact_path_tier = empty_tier, prefix_tier = empty_tier, regex_tier = empty_tier,
      host_only_tier = empty_tier\<rparr>"

definition add_proxy ::
  "regex_lib \<Rightarrow> (string \<times> u16) list \<Rightarrow> (string \<times> string) list \<Rightarrow> Proxy \<Rightarrow> route_builder \<Rightarrow> route_builder" where
  "add_proxy lib tls skip p b =
     (if is_stream p then b
      else if (namespace p, proxy_id p) \<in> set skip then b
      else
        (let scoped = new_PortScopedProxy p tls in
         case listen_path p of
           None \<Rightarrow>
             if hosts p = [] then b
             else b\<lparr>host_only_tier := push_route (hosts p) scoped (host_only_tier b)\<rparr>
         | Some lp \<Rightarrow>
             (case strip_str_prefix ''~'' lp of
                Some pattern_str \<Rightarrow>
                  (let anchored = anchor_regex_pattern lib pattern_str in
                   if \<not> regex_ok lib anchored then b
                   else b\<lparr>regex_tier := push_route (hosts p)
                          \<lparr>pattern = anchored, capture_names = regex_capture_names lib anchored,
                           regex_candidate = scoped\<rparr> (regex_tier b)\<rparr>)
              | None \<Rightarrow>
                  (case strip_str_prefix ''='' lp of
                     Some exact_path \<Rightarrow>
                       b\<lparr>exact_path_tier := push_route (hosts p)
                          \<lparr>entry_path = exact_path, candidate = scoped\<rparr> (exact_path_tier b)\<rparr>
                   | None \<Rightarrow>
                       b\<lparr>prefix_tier := push_route (hosts p)
                          \<lparr>entry_path = lp, candidate = scoped\<rparr> (prefix_tier b)\<rparr>))))"

record HostRouteTable =
  exact_hosts_exact_paths :: "(string \<times> path_index) list"
  exact_hosts :: "(string \<times> path_index) list"
  wildcard_hosts_exact_paths :: "(string \<times> path_index) list"
  wildcard_hosts :: "(string \<times> path_index) list"
  catch_all_exact_paths :: path_index
  catch_all :: path_index
  exact_hosts_regex :: "(string \<times> IndexedRegexRoutes) list"
  wildcard_hosts_regex :: "(string \<times> IndexedRegexRoutes) list"
  catch_all_regex :: IndexedRegexRoutes
  exact_hosts_host_only :: "(string \<times> PortScopedProxy list) list"
  wildcard_hosts_host_only :: "(string \<times> PortScopedProxy list) list"
  has_exact_path_routes :: bool
  has_regex_routes :: bool
  has_host_only_routes :: bool
  single_nontls_listen_port :: "u16 option"
  single_tls_listen_port :: "u16 option"
  mesh_outbound_ports :: "((string \<times> string) \<times> MeshOutboundPortGroup) list"
  mesh_inbound_ports :: "((string \<times> string) \<times> MeshInboundPortGroup) list"

definition longest_first :: "RouteEntry list \<Rightarrow> RouteEntry list" where
  "longest_first routes = sort_key (\<lambda>e. - int (length (entry_path e))) routes"

definition longest_pattern_first :: "(string \<times> 'a) list \<Rightarrow> (string \<times> 'a) list" where
  "longest_pattern_first xs = sort_key (\<lambda>(pat, _). - int (length pat)) xs"

definition index_hosts :: "('a \<Rightarrow> 'b) \<Rightarrow> (string \<times> 'a) list \<Rightarrow> (string \<times> 'b) list" where
  "index_hosts f xs = map (\<lambda>(host, routes). (host, f routes)) xs"

text \<open>The one listen port of a class, if there is exactly one.\<close>

definition class_ports :: "GatewayConfig \<Rightarrow> bool \<Rightarrow> u16 list" where
  "class_ports cfg tls =
     remdups (List.map_filter
       (\<lambda>p. case listen_port p of
              Some port \<Rightarrow> if ((namespace p, port) \<in> set (http_tls_listen_ports cfg)) = tls then Some port else None
            | None \<Rightarrow> None)
       (filter (\<lambda>p. \<not> is_stream p \<and> \<not> is_mesh_ingress_bind_route_id (proxy_id p)) (proxies cfg)))"

definition single_listen_port :: "GatewayConfig \<Rightarrow> bool \<Rightarrow> u16 option" where
  "single_listen_port cfg tls = (case class_ports cfg tls of [port] \<Rightarrow> Some port | _ \<Rightarrow> None)"

definition build_route_table :: "regex_lib \<Rightarrow> GatewayConfig \<Rightarrow> HostRouteTable" where
  "build_route_table lib cfg =
     (let m = build_mesh_tables cfg;
          b = fold (add_proxy lib (http_tls_listen_ports cfg) (sibling_skip_ids m)) (proxies cfg) empty_builder;
          prefix_index = (\<lambda>es. from_sorted (longest_first es));
          exact_regex = index_hosts (new_IndexedRegexRoutes lib) (by_host (regex_tier b));
          wildcard_regex = index_hosts (new_IndexedRegexRoutes lib) (longest_pattern_first (by_wildcard (regex_tier b)));
          any_regex = new_IndexedRegexRoutes lib (for_any (regex_tier b));
          exact_exact = index_hosts from_entries (by_host (exact_path_tier b));
          wildcard_exact = index_hosts from_entries (longest_pattern_first (by_wildcard (exact_path_tier b)));
          any_exact = from_entries (for_any (exact_path_tier b));
          wildcard_host_only = longest_pattern_first (by_wildcard (host_only_tier b))
      in \<lparr>exact_hosts_exact_paths = exact_exact,
          exact_hosts = index_hosts prefix_index (by_host (prefix_tier b)),
          wildcard_hosts_exact_paths = wildcard_exact,
          wildcard_hosts = index_hosts prefix_index (longest_pattern_first (by_wildcard (prefix_tier b))),
          catch_all_exact_paths = any_exact,
          catch_all = prefix_index (for_any (prefix_tier b)),
          exact_hosts_regex = exact_regex,
          wildcard_hosts_regex = wildcard_regex,
          catch_all_regex = any_regex,
          exact_hosts_host_only = by_host (host_only_tier b),
          wildcard_hosts_host_only = wildcard_host_only,
          has_exact_path_routes = (exact_exact \<noteq> [] \<or> wildcard_exact \<noteq> [] \<or> any_exact \<noteq> []),
          has_regex_routes = (exact_regex \<noteq> [] \<or> wildcard_regex \<noteq> [] \<or> entries any_regex \<noteq> []),
          has_host_only_routes = (by_host (host_only_tier b) \<noteq> [] \<or> wildcard_host_only \<noteq> []),
          single_nontls_listen_port = single_listen_port cfg False,
          single_tls_listen_port = single_listen_port cfg True,
          mesh_outbound_ports = outbound_table m,
          mesh_inbound_ports = inbound_table m\<rparr>)"

section \<open>Searching\<close>

datatype MeshRouteDirectionFilter = Unfiltered | MatchingDirection "MeshTrafficDirection option"

definition admits :: "MeshRouteDirectionFilter \<Rightarrow> RouteMatch \<Rightarrow> bool" where
  "admits f m =
     (case f of
        Unfiltered \<Rightarrow> True
      | MatchingDirection req_dir \<Rightarrow>
          (case mesh_route_direction (proxy_id (proxy m)) of
             None \<Rightarrow> True
           | Some route_dir \<Rightarrow> req_dir = Some route_dir))"

definition admitted :: "MeshRouteDirectionFilter \<Rightarrow> RouteMatch option \<Rightarrow> RouteMatch option" where
  "admitted f r = (case r of Some m \<Rightarrow> if admits f m then Some m else None | None \<Rightarrow> None)"

definition host_only_match :: "PortScopedProxy list \<Rightarrow> HttpPortMatchContext \<Rightarrow> RouteMatch option" where
  "host_only_match candidates ctx =
     map_option (\<lambda>p. \<lparr>proxy = p, path_params = [], matched_prefix_len = 0\<rparr>)
       (select_port_aware_proxy candidates ctx)"

definition or_else :: "'a option \<Rightarrow> 'a option \<Rightarrow> 'a option" where
  "or_else r s = (case r of Some m \<Rightarrow> Some m | None \<Rightarrow> s)"

text \<open>\<open>HashMap::get\<close> on the host, and the loop over the wildcard patterns.\<close>

definition at_host :: "(string \<times> 'a) list \<Rightarrow> string \<Rightarrow> ('a \<Rightarrow> RouteMatch option) \<Rightarrow> RouteMatch option" where
  "at_host xs host f = (case map_of xs host of Some routes \<Rightarrow> f routes | None \<Rightarrow> None)"

fun at_wildcards :: "(string \<times> 'a) list \<Rightarrow> string \<Rightarrow> ('a \<Rightarrow> RouteMatch option) \<Rightarrow> RouteMatch option" where
  "at_wildcards [] host f = None"
| "at_wildcards ((pat, routes) # rest) host f =
     (if wildcard_matches pat host
      then (case f routes of Some m \<Rightarrow> Some m | None \<Rightarrow> at_wildcards rest host f)
      else at_wildcards rest host f)"

definition search_route_table ::
  "regex_lib \<Rightarrow> HostRouteTable \<Rightarrow> string option \<Rightarrow> string \<Rightarrow> MeshRouteDirectionFilter \<Rightarrow>
   HttpPortMatchContext \<Rightarrow> RouteMatch option" where
  "search_route_table lib t host_opt path f ctx =
     (let exact_path = (\<lambda>routes. admitted f (find_exact_path_match_indexed routes path ctx));
          prefix = (\<lambda>routes. admitted f (find_prefix_match_indexed routes path ctx));
          regex = (\<lambda>routes. admitted f (find_regex_match_indexed lib routes path ctx));
          host_only = (\<lambda>candidates. host_only_match candidates ctx);
          hosted = (case host_opt of
              None \<Rightarrow> None
            | Some host \<Rightarrow>
                or_else (if has_exact_path_routes t then at_host (exact_hosts_exact_paths t) host exact_path else None)
               (or_else (at_host (exact_hosts t) host prefix)
               (or_else (if has_regex_routes t then at_host (exact_hosts_regex t) host regex else None)
               (or_else (if has_host_only_routes t then at_host (exact_hosts_host_only t) host host_only else None)
               (or_else (if has_exact_path_routes t then at_wildcards (wildcard_hosts_exact_paths t) host exact_path else None)
               (or_else (at_wildcards (wildcard_hosts t) host prefix)
               (or_else (if has_regex_routes t then at_wildcards (wildcard_hosts_regex t) host regex else None)
                        (if has_host_only_routes t then at_wildcards (wildcard_hosts_host_only t) host host_only else None))))))))
      in or_else hosted
        (or_else (if has_exact_path_routes t then exact_path (catch_all_exact_paths t) else None)
        (or_else (prefix (catch_all t))
                 (if has_regex_routes t then regex (catch_all_regex t) else None))))"

section \<open>Which proxies serve a request\<close>

datatype host_class = ExactHost | WildcardHost | AnyHost

datatype path_class = ExactPath | PrefixPath | RegexPath | HostOnly

definition host_serves :: "host_class \<Rightarrow> Proxy \<Rightarrow> string option \<Rightarrow> bool" where
  "host_serves hc p host_opt =
     (case hc of
        AnyHost \<Rightarrow> hosts p = []
      | ExactHost \<Rightarrow> (case host_opt of None \<Rightarrow> False | Some host \<Rightarrow> \<not> is_wildcard host \<and> host \<in> set (hosts p))
      | WildcardHost \<Rightarrow>
          (case host_opt of
             None \<Rightarrow> False
           | Some host \<Rightarrow> \<exists>pat \<in> set (hosts p). is_wildcard pat \<and> wildcard_matches pat host))"

definition path_serves :: "regex_lib \<Rightarrow> path_class \<Rightarrow> Proxy \<Rightarrow> string \<Rightarrow> bool" where
  "path_serves lib pc p path =
     (case listen_path p of
        None \<Rightarrow> pc = HostOnly \<and> hosts p \<noteq> []
      | Some lp \<Rightarrow>
          (case strip_str_prefix ''~'' lp of
             Some r \<Rightarrow>
               pc = RegexPath \<and> regex_ok lib (anchor_regex_pattern lib r) \<and>
               regex_is_match lib (anchor_regex_pattern lib r) path
           | None \<Rightarrow>
               (case strip_str_prefix ''='' lp of
                  Some exact \<Rightarrow> pc = ExactPath \<and> strip_query path = exact
                | None \<Rightarrow> pc = PrefixPath \<and> boundary_prefix (strip_query path) lp)))"

definition listens :: "GatewayConfig \<Rightarrow> HttpPortMatchContext \<Rightarrow> Proxy \<Rightarrow> bool" where
  "listens cfg ctx p \<longleftrightarrow> match_priority (new_PortScopedProxy p (http_tls_listen_ports cfg)) ctx \<noteq> None"

definition routed :: "GatewayConfig \<Rightarrow> Proxy \<Rightarrow> bool" where
  "routed cfg p \<longleftrightarrow>
     p \<in> set (proxies cfg) \<and> \<not> is_stream p \<and>
     (namespace p, proxy_id p) \<notin> set (sibling_skip_ids (build_mesh_tables cfg))"

definition serves ::
  "regex_lib \<Rightarrow> GatewayConfig \<Rightarrow> string option \<Rightarrow> string \<Rightarrow> HttpPortMatchContext \<Rightarrow>
   host_class \<times> path_class \<Rightarrow> Proxy \<Rightarrow> bool" where
  "serves lib cfg host_opt path ctx stage p \<longleftrightarrow>
     routed cfg p \<and> listens cfg ctx p \<and>
     host_serves (fst stage) p host_opt \<and> path_serves lib (snd stage) p path"

definition stages :: "(host_class \<times> path_class) list" where
  "stages =
     [(ExactHost, ExactPath), (ExactHost, PrefixPath), (ExactHost, RegexPath), (ExactHost, HostOnly),
      (WildcardHost, ExactPath), (WildcardHost, PrefixPath), (WildcardHost, RegexPath), (WildcardHost, HostOnly),
      (AnyHost, ExactPath), (AnyHost, PrefixPath), (AnyHost, RegexPath)]"

section \<open>What the builder puts where\<close>

definition lookup_all :: "('k \<times> 'v list) list \<Rightarrow> 'k \<Rightarrow> 'v list" where
  "lookup_all xs k = (case map_of xs k of Some vs \<Rightarrow> vs | None \<Rightarrow> [])"

lemma map_of_push_entry: "map_of (push_entry k v xs) = (map_of xs)(k \<mapsto> lookup_all xs k @ [v])"
  by (induction k v xs rule: push_entry.induct) (auto simp: lookup_all_def fun_eq_iff)

lemma lookup_all_push_entry:
  "lookup_all (push_entry k v xs) k' = (if k' = k then lookup_all xs k @ [v] else lookup_all xs k')"
  by (simp add: lookup_all_def [of "push_entry k v xs"] map_of_push_entry) (simp add: lookup_all_def)

lemma keys_push_entry: "fst ` set (push_entry k v xs) = insert k (fst ` set xs)"
  by (induction k v xs rule: push_entry.induct) auto

lemma distinct_push_entry: "distinct (map fst xs) \<Longrightarrow> distinct (map fst (push_entry k v xs))"
  by (induction k v xs rule: push_entry.induct) (auto simp: keys_push_entry image_iff)

definition wf_tier :: "'e host_tier \<Rightarrow> bool" where
  "wf_tier t \<longleftrightarrow>
     distinct (map fst (by_wildcard t)) \<and>
     (\<forall>k \<in> fst ` set (by_host t). \<not> is_wildcard k) \<and> (\<forall>k \<in> fst ` set (by_wildcard t). is_wildcard k)"

text \<open>The entries a tier holds for a host, a pattern, or any host.\<close>

definition tier_at :: "'e host_tier \<Rightarrow> string option \<Rightarrow> 'e set" where
  "tier_at t k =
     (case k of
        None \<Rightarrow> set (for_any t)
      | Some h \<Rightarrow> set (if is_wildcard h then lookup_all (by_wildcard t) h else lookup_all (by_host t) h))"

lemma wf_push_host: "wf_tier t \<Longrightarrow> wf_tier (push_host e h t)"
  by (auto simp: wf_tier_def push_host_def distinct_push_entry keys_push_entry
      simp del: ball_simps(9))

lemma tier_at_push_host:
  "tier_at (push_host e h t) k = (if k = Some h then insert e (tier_at t k) else tier_at t k)"
  by (auto simp: tier_at_def push_host_def lookup_all_push_entry split: option.splits)

lemma push_hosts:
  "wf_tier t \<Longrightarrow> wf_tier (fold (push_host e) hs t)"
  "tier_at (fold (push_host e) hs t) k = (if k \<in> Some ` set hs then insert e (tier_at t k) else tier_at t k)"
  by (induction hs arbitrary: t) (auto simp: wf_push_host tier_at_push_host)

lemma push_route_wf: "wf_tier t \<Longrightarrow> wf_tier (push_route hs e t)"
  by (simp add: push_route_def push_hosts) (simp add: wf_tier_def)

definition host_keys :: "string list \<Rightarrow> string option set" where
  "host_keys hs = (if hs = [] then {None} else Some ` set hs)"

lemma push_route_at:
  "tier_at (push_route hs e t) k = (if k \<in> host_keys hs then insert e (tier_at t k) else tier_at t k)"
  by (auto simp: push_route_def push_hosts host_keys_def) (auto simp: tier_at_def split: option.splits)

text \<open>A tier built by pushing the entry each proxy has for it.\<close>

definition push_optional :: "(Proxy \<Rightarrow> 'e option) \<Rightarrow> Proxy \<Rightarrow> 'e host_tier \<Rightarrow> 'e host_tier" where
  "push_optional g p t = (case g p of None \<Rightarrow> t | Some e \<Rightarrow> push_route (hosts p) e t)"

lemma push_all_wf: "wf_tier t \<Longrightarrow> wf_tier (fold (push_optional g) ps t)"
  by (induction ps arbitrary: t) (auto simp: push_optional_def push_route_wf split: option.splits)

lemma push_all_at:
  "e \<in> tier_at (fold (push_optional g) ps t) k \<longleftrightarrow>
   e \<in> tier_at t k \<or> (\<exists>p \<in> set ps. g p = Some e \<and> k \<in> host_keys (hosts p))"
  by (induction ps arbitrary: t) (auto simp: push_optional_def push_route_at split: option.splits)

definition tier_of :: "(Proxy \<Rightarrow> 'e option) \<Rightarrow> GatewayConfig \<Rightarrow> 'e host_tier" where
  "tier_of g cfg = fold (push_optional g) (proxies cfg) empty_tier"

lemma wf_tier_of: "wf_tier (tier_of g cfg)"
  unfolding tier_of_def by (rule push_all_wf) (simp add: wf_tier_def empty_tier_def)

lemma in_tier_of:
  "e \<in> tier_at (tier_of g cfg) k \<longleftrightarrow> (\<exists>p \<in> set (proxies cfg). g p = Some e \<and> k \<in> host_keys (hosts p))"
  unfolding tier_of_def push_all_at by (auto simp: tier_at_def empty_tier_def lookup_all_def split: option.splits)

text \<open>The entry a proxy has in each of the four tiers.\<close>

definition in_tiers :: "(string \<times> string) list \<Rightarrow> Proxy \<Rightarrow> bool" where
  "in_tiers skip p \<longleftrightarrow> \<not> is_stream p \<and> (namespace p, proxy_id p) \<notin> set skip"

definition host_only_entry :: "(string \<times> u16) list \<Rightarrow> (string \<times> string) list \<Rightarrow> Proxy \<Rightarrow> PortScopedProxy option" where
  "host_only_entry tls skip p =
     (if in_tiers skip p \<and> listen_path p = None \<and> hosts p \<noteq> [] then Some (new_PortScopedProxy p tls) else None)"

definition regex_entry ::
  "regex_lib \<Rightarrow> (string \<times> u16) list \<Rightarrow> (string \<times> string) list \<Rightarrow> Proxy \<Rightarrow> RegexRouteEntry option" where
  "regex_entry lib tls skip p =
     (case Option.bind (listen_path p) (strip_str_prefix ''~'') of
        Some r \<Rightarrow>
          (let anchored = anchor_regex_pattern lib r in
           if in_tiers skip p \<and> regex_ok lib anchored
           then Some \<lparr>pattern = anchored, capture_names = regex_capture_names lib anchored,
                      regex_candidate = new_PortScopedProxy p tls\<rparr>
           else None)
      | None \<Rightarrow> None)"

definition path_entry ::
  "bool \<Rightarrow> (string \<times> u16) list \<Rightarrow> (string \<times> string) list \<Rightarrow> Proxy \<Rightarrow> RouteEntry option" where
  "path_entry exact tls skip p =
     (case listen_path p of
        None \<Rightarrow> None
      | Some lp \<Rightarrow>
          if \<not> in_tiers skip p \<or> strip_str_prefix ''~'' lp \<noteq> None then None
          else
            (case strip_str_prefix ''='' lp of
               Some e \<Rightarrow> if exact then Some \<lparr>entry_path = e, candidate = new_PortScopedProxy p tls\<rparr> else None
             | None \<Rightarrow> if exact then None else Some \<lparr>entry_path = lp, candidate = new_PortScopedProxy p tls\<rparr>))"

lemma add_proxy_tiers:
  "exact_path_tier (add_proxy lib tls skip p b) = push_optional (path_entry True tls skip) p (exact_path_tier b)"
  "prefix_tier (add_proxy lib tls skip p b) = push_optional (path_entry False tls skip) p (prefix_tier b)"
  "regex_tier (add_proxy lib tls skip p b) = push_optional (regex_entry lib tls skip) p (regex_tier b)"
  "host_only_tier (add_proxy lib tls skip p b) = push_optional (host_only_entry tls skip) p (host_only_tier b)"
  by (auto simp: add_proxy_def push_optional_def path_entry_def regex_entry_def host_only_entry_def in_tiers_def
      Let_def split: option.split)

lemma fold_add_proxy_tiers:
  "exact_path_tier (fold (add_proxy lib tls skip) ps b) = fold (push_optional (path_entry True tls skip)) ps (exact_path_tier b)"
  "prefix_tier (fold (add_proxy lib tls skip) ps b) = fold (push_optional (path_entry False tls skip)) ps (prefix_tier b)"
  "regex_tier (fold (add_proxy lib tls skip) ps b) = fold (push_optional (regex_entry lib tls skip)) ps (regex_tier b)"
  "host_only_tier (fold (add_proxy lib tls skip) ps b) = fold (push_optional (host_only_entry tls skip)) ps (host_only_tier b)"
  by (induction ps arbitrary: b) (simp_all add: add_proxy_tiers)

definition tls_of :: "GatewayConfig \<Rightarrow> (string \<times> u16) list" where
  "tls_of cfg = http_tls_listen_ports cfg"

definition skip_of :: "GatewayConfig \<Rightarrow> (string \<times> string) list" where
  "skip_of cfg = sibling_skip_ids (build_mesh_tables cfg)"

abbreviation "exact_tier cfg \<equiv> tier_of (path_entry True (tls_of cfg) (skip_of cfg)) cfg"
abbreviation "path_tier cfg \<equiv> tier_of (path_entry False (tls_of cfg) (skip_of cfg)) cfg"
abbreviation "pattern_tier lib cfg \<equiv> tier_of (regex_entry lib (tls_of cfg) (skip_of cfg)) cfg"
abbreviation "hosts_tier cfg \<equiv> tier_of (host_only_entry (tls_of cfg) (skip_of cfg)) cfg"

abbreviation "prefix_index es \<equiv> from_sorted (longest_first es)"

lemma build_fields:
  "exact_hosts_exact_paths (build_route_table lib cfg) = index_hosts from_entries (by_host (exact_tier cfg))"
  "exact_hosts (build_route_table lib cfg) = index_hosts (\<lambda>es. prefix_index es) (by_host (path_tier cfg))"
  "wildcard_hosts_exact_paths (build_route_table lib cfg) =
     index_hosts from_entries (longest_pattern_first (by_wildcard (exact_tier cfg)))"
  "wildcard_hosts (build_route_table lib cfg) =
     index_hosts (\<lambda>es. prefix_index es) (longest_pattern_first (by_wildcard (path_tier cfg)))"
  "catch_all_exact_paths (build_route_table lib cfg) = from_entries (for_any (exact_tier cfg))"
  "catch_all (build_route_table lib cfg) = prefix_index (for_any (path_tier cfg))"
  "exact_hosts_regex (build_route_table lib cfg) =
     index_hosts (new_IndexedRegexRoutes lib) (by_host (pattern_tier lib cfg))"
  "wildcard_hosts_regex (build_route_table lib cfg) =
     index_hosts (new_IndexedRegexRoutes lib) (longest_pattern_first (by_wildcard (pattern_tier lib cfg)))"
  "catch_all_regex (build_route_table lib cfg) = new_IndexedRegexRoutes lib (for_any (pattern_tier lib cfg))"
  "exact_hosts_host_only (build_route_table lib cfg) = by_host (hosts_tier cfg)"
  "wildcard_hosts_host_only (build_route_table lib cfg) = longest_pattern_first (by_wildcard (hosts_tier cfg))"
  by (simp_all add: build_route_table_def fold_add_proxy_tiers empty_builder_def tier_of_def tls_of_def
      skip_of_def Let_def)

section \<open>What the finders promise\<close>

text \<open>A finder looks entries up in an index built from a list of them. It is sound when what it returns
  is an entry of the list that hits and the parameters and length it reports fit the entry, and exact when it also misses only if no entry hits.\<close>

locale route_finder =
  fixes lib_ok :: bool
    and find_in :: "'r \<Rightarrow> RouteMatch option"
    and mk_index :: "'e list \<Rightarrow> 'r"
    and hits :: "'e \<Rightarrow> bool"
    and proxy_of :: "'e \<Rightarrow> Proxy"
    and fits :: "'e \<Rightarrow> RouteMatch \<Rightarrow> bool"
  assumes find_SomeD: "lib_ok \<Longrightarrow> find_in (mk_index es) = Some m \<Longrightarrow>
    \<exists>e \<in> set es. hits e \<and> proxy_of e = proxy m \<and> fits e m"

locale exact_route_finder = route_finder +
  assumes find_None_iff: "lib_ok \<Longrightarrow> find_in (mk_index es) = None \<longleftrightarrow> (\<forall>e \<in> set es. \<not> hits e)"

lemma map_of_index_hosts: "map_of (index_hosts f xs) h = map_option f (map_of xs h)"
  by (simp add: index_hosts_def map_of_map)

lemma at_wildcards_first_some:
  "at_wildcards xs host f = first_some (\<lambda>(pat, routes). if wildcard_matches pat host then f routes else None) xs"
  by (induction xs host f rule: at_wildcards.induct) (auto split: option.split)

lemma set_longest_pattern_first: "set (longest_pattern_first xs) = set xs"
  by (simp add: longest_pattern_first_def)

lemma wildcard_entry:
  assumes "wf_tier t"
  shows "(pat, es) \<in> set (by_wildcard t) \<Longrightarrow> is_wildcard pat \<and> set es = tier_at t (Some pat)"
    and "is_wildcard pat \<Longrightarrow> e \<in> tier_at t (Some pat) \<Longrightarrow> \<exists>es. (pat, es) \<in> set (by_wildcard t) \<and> e \<in> set es"
  using assms by (force simp: wf_tier_def tier_at_def lookup_all_def map_of_eq_Some_iff)
    (cases "map_of (by_wildcard t) pat", auto simp: tier_at_def lookup_all_def dest: map_of_SomeD)

lemma exact_entry:
  assumes "wf_tier t"
  shows "map_of (by_host t) h = Some es \<Longrightarrow> \<not> is_wildcard h \<and> set es = tier_at t (Some h)"
    and "map_of (by_host t) h = None \<Longrightarrow> \<not> is_wildcard h \<Longrightarrow> tier_at t (Some h) = {}"
  using assms by (force simp: wf_tier_def tier_at_def lookup_all_def dest: map_of_SomeD)
    (simp add: tier_at_def lookup_all_def)

context route_finder
begin

lemma at_host_SomeD:
  assumes "lib_ok" "wf_tier t" "at_host (index_hosts mk_index (by_host t)) h find_in = Some m"
  shows "\<not> is_wildcard h \<and> (\<exists>e \<in> tier_at t (Some h). hits e \<and> proxy_of e = proxy m \<and> fits e m)"
proof -
  from assms(3) obtain es where es: "map_of (by_host t) h = Some es" "find_in (mk_index es) = Some m"
    by (auto simp: at_host_def map_of_index_hosts split: option.splits)
  from exact_entry(1) [OF assms(2) es(1)] find_SomeD [OF assms(1) es(2)] show ?thesis by auto
qed

lemma at_wildcards_SomeD:
  assumes "lib_ok" "wf_tier t"
    "at_wildcards (index_hosts mk_index (longest_pattern_first (by_wildcard t))) h find_in = Some m"
  shows "\<exists>pat. is_wildcard pat \<and> wildcard_matches pat h \<and> (\<exists>e \<in> tier_at t (Some pat). hits e \<and> proxy_of e = proxy m \<and> fits e m)"
proof -
  from assms(3) obtain pat es where es: "(pat, es) \<in> set (by_wildcard t)" "wildcard_matches pat h"
    "find_in (mk_index es) = Some m"
    unfolding at_wildcards_first_some
    by (auto simp: index_hosts_def set_longest_pattern_first dest!: first_some_SomeD split: if_splits)
  from wildcard_entry(1) [OF assms(2) es(1)] find_SomeD [OF assms(1) es(3)] es(2) show ?thesis by auto
qed

lemma at_any_SomeD:
  "lib_ok \<Longrightarrow> find_in (mk_index (for_any t)) = Some m \<Longrightarrow> \<exists>e \<in> tier_at t None. hits e \<and> proxy_of e = proxy m \<and> fits e m"
  using find_SomeD by (simp add: tier_at_def)

end

context exact_route_finder
begin

lemma at_host_NoneD:
  assumes "lib_ok" "wf_tier t" "at_host (index_hosts mk_index (by_host t)) h find_in = None"
    "\<not> is_wildcard h" "e \<in> tier_at t (Some h)"
  shows "\<not> hits e"
proof -
  from exact_entry(2) [OF assms(2) _ assms(4)] assms(5) obtain es where es: "map_of (by_host t) h = Some es"
    by (cases "map_of (by_host t) h") auto
  with assms(3) have "find_in (mk_index es) = None" by (simp add: at_host_def map_of_index_hosts)
  with find_None_iff [OF assms(1)] exact_entry(1) [OF assms(2) es] assms(5) show ?thesis by auto
qed

lemma at_wildcards_NoneD:
  assumes "lib_ok" "wf_tier t"
    "at_wildcards (index_hosts mk_index (longest_pattern_first (by_wildcard t))) h find_in = None"
    "is_wildcard pat" "wildcard_matches pat h" "e \<in> tier_at t (Some pat)"
  shows "\<not> hits e"
proof -
  from wildcard_entry(2) [OF assms(2,4,6)] obtain es where es: "(pat, es) \<in> set (by_wildcard t)" "e \<in> set es"
    by blast
  with assms(3,5) have "find_in (mk_index es) = None"
    unfolding at_wildcards_first_some first_some_None
    by (force simp: index_hosts_def set_longest_pattern_first)
  with find_None_iff [OF assms(1)] es(2) show ?thesis by auto
qed

lemma at_any_NoneD: "lib_ok \<Longrightarrow> find_in (mk_index (for_any t)) = None \<Longrightarrow> e \<in> tier_at t None \<Longrightarrow> \<not> hits e"
  using find_None_iff by (simp add: tier_at_def)

end

definition tier_search ::
  "host_class \<Rightarrow> string option \<Rightarrow> 'e host_tier \<Rightarrow> ('e list \<Rightarrow> 'r) \<Rightarrow> ('r \<Rightarrow> RouteMatch option) \<Rightarrow> RouteMatch option" where
  "tier_search hc host_opt t mk find_in =
     (case hc of
        AnyHost \<Rightarrow> find_in (mk (for_any t))
      | ExactHost \<Rightarrow>
          (case host_opt of None \<Rightarrow> None | Some h \<Rightarrow> at_host (index_hosts mk (by_host t)) h find_in)
      | WildcardHost \<Rightarrow>
          (case host_opt of
             None \<Rightarrow> None
           | Some h \<Rightarrow> at_wildcards (index_hosts mk (longest_pattern_first (by_wildcard t))) h find_in))"

lemma in_host_keys [simp]: "Some h \<in> host_keys hs \<longleftrightarrow> h \<in> set hs" "None \<in> host_keys hs \<longleftrightarrow> hs = []"
  by (auto simp: host_keys_def)

context route_finder
begin

lemma tier_search_SomeD:
  assumes "lib_ok" and "tier_search hc host_opt (tier_of g cfg) mk_index find_in = Some m"
    and own: "\<And>p e. g p = Some e \<Longrightarrow> proxy_of e = p"
  shows "\<exists>e. g (proxy m) = Some e \<and> hits e \<and> fits e m \<and> proxy m \<in> set (proxies cfg) \<and> host_serves hc (proxy m) host_opt"
proof -
  have "\<exists>k e. e \<in> tier_at (tier_of g cfg) k \<and> hits e \<and> proxy_of e = proxy m \<and> fits e m \<and>
      (\<forall>p. k \<in> host_keys (hosts p) \<longrightarrow> host_serves hc p host_opt)"
  proof (cases hc)
    case ExactHost
    with assms(2) obtain h where h: "host_opt = Some h"
      "at_host (index_hosts mk_index (by_host (tier_of g cfg))) h find_in = Some m"
      by (auto simp: tier_search_def split: option.splits)
    from at_host_SomeD [OF assms(1) wf_tier_of h(2)] ExactHost h(1) show ?thesis
      by (intro exI [of _ "Some h"]) (auto simp: host_serves_def)
  next
    case WildcardHost
    with assms(2) obtain h where h: "host_opt = Some h"
      "at_wildcards (index_hosts mk_index (longest_pattern_first (by_wildcard (tier_of g cfg)))) h find_in = Some m"
      by (auto simp: tier_search_def split: option.splits)
    from at_wildcards_SomeD [OF assms(1) wf_tier_of h(2)] obtain pat e where
      "is_wildcard pat" "wildcard_matches pat h" "e \<in> tier_at (tier_of g cfg) (Some pat)" "hits e" "proxy_of e = proxy m" "fits e m"
      by blast
    with WildcardHost h(1) show ?thesis
      by (intro exI [of _ "Some pat"] exI [of _ e]) (auto simp: host_serves_def)
  next
    case AnyHost
    with assms(2) at_any_SomeD [OF assms(1), of "tier_of g cfg" m] show ?thesis
      by (intro exI [of _ None]) (auto simp: tier_search_def host_serves_def)
  qed
  then obtain k e where e: "e \<in> tier_at (tier_of g cfg) k" "hits e" "proxy_of e = proxy m" "fits e m"
    "\<And>p. k \<in> host_keys (hosts p) \<Longrightarrow> host_serves hc p host_opt"
    by auto
  from e(1) obtain p where "p \<in> set (proxies cfg)" "g p = Some e" "k \<in> host_keys (hosts p)"
    by (auto simp: in_tier_of)
  with e own [of p e] show ?thesis by auto
qed

end

context exact_route_finder
begin

lemma tier_search_NoneD:
  assumes "lib_ok" and "tier_search hc host_opt (tier_of g cfg) mk_index find_in = None"
    and "p \<in> set (proxies cfg)" "host_serves hc p host_opt" "g p = Some e"
  shows "\<not> hits e"
proof -
  have mem: "e \<in> tier_at (tier_of g cfg) k" if "k \<in> host_keys (hosts p)" for k
    using that assms(3,5) by (auto simp: in_tier_of)
  show ?thesis
  proof (cases hc)
    case ExactHost
    with assms(4) obtain h where h: "host_opt = Some h" "\<not> is_wildcard h" "h \<in> set (hosts p)"
      by (auto simp: host_serves_def split: option.splits)
    with ExactHost assms(2) have "at_host (index_hosts mk_index (by_host (tier_of g cfg))) h find_in = None"
      by (simp add: tier_search_def)
    from at_host_NoneD [OF assms(1) wf_tier_of this h(2) mem] h(3) show ?thesis by simp
  next
    case WildcardHost
    with assms(4) obtain h pat where
      h: "host_opt = Some h" "is_wildcard pat" "wildcard_matches pat h" "pat \<in> set (hosts p)"
      by (auto simp: host_serves_def split: option.splits)
    with WildcardHost assms(2) have
      "at_wildcards (index_hosts mk_index (longest_pattern_first (by_wildcard (tier_of g cfg)))) h find_in = None"
      by (simp add: tier_search_def)
    from at_wildcards_NoneD [OF assms(1) wf_tier_of this h(2,3) mem] h(4) show ?thesis by simp
  next
    case AnyHost
    with assms(2,4) have "find_in (mk_index (for_any (tier_of g cfg))) = None" "hosts p = []"
      by (simp_all add: tier_search_def host_serves_def)
    with at_any_NoneD [OF assms(1) _ mem] show ?thesis by simp
  qed
qed

end

section \<open>The four finders\<close>

lemma admit_SomeD: "admitted f r = Some m \<Longrightarrow> r = Some m \<and> admits f m"
  by (auto simp: admitted_def split: option.splits if_splits)

lemma admit_Unfiltered [simp]: "admitted Unfiltered r = r"
  by (simp add: admitted_def admits_def split: option.split)

lemma in_from_entries:
  "c \<in> set (lookup_all (from_entries es) k) \<longleftrightarrow> (\<exists>e \<in> set es. entry_path e = k \<and> candidate e = c)"
proof -
  have "c \<in> set (lookup_all (fold (\<lambda>e. push_entry (entry_path e) (candidate e)) es xs) k) \<longleftrightarrow>
      c \<in> set (lookup_all xs k) \<or> (\<exists>e \<in> set es. entry_path e = k \<and> candidate e = c)" for xs
    by (induction es arbitrary: xs) (auto simp: lookup_all_push_entry)
  then show ?thesis by (simp add: from_entries_def lookup_all_def)
qed

lemma in_prefix_index:
  "c \<in> set (lookup_all (prefix_index es) k) \<longleftrightarrow> (\<exists>e \<in> set es. entry_path e = k \<and> candidate e = c)"
  using in_from_entries [of c "longest_first es" k]
  by (simp add: from_entries_def from_sorted_def longest_first_def)

lemma pick_lookup:
  "pick routes ctx k =
     map_option (\<lambda>p. \<lparr>proxy = p, path_params = [], matched_prefix_len = length k\<rparr>)
       (select_port_aware_proxy (lookup_all routes k) ctx)"
  by (auto simp: pick_def lookup_all_def select_port_aware_proxy_def split: option.split)

lemma find_exact_pick: "find_exact_path_match_indexed routes path ctx = pick routes ctx (strip_query path)"
  by (auto simp: find_exact_path_match_indexed_def pick_def Let_def split: option.split)

lemma pick_SomeD:
  "pick routes ctx k = Some m \<Longrightarrow>
   \<exists>c \<in> set (lookup_all routes k). match_priority c ctx \<noteq> None \<and> scoped_proxy c = proxy m \<and>
     path_params m = [] \<and> matched_prefix_len m = length k"
  unfolding pick_lookup by (auto dest!: select_SomeD)

lemma pick_None_iff: "pick routes ctx k = None \<longleftrightarrow> (\<forall>c \<in> set (lookup_all routes k). match_priority c ctx = None)"
  unfolding pick_lookup by (simp add: select_None_iff)

lemma pick_indexed:
  assumes "\<And>c. c \<in> set (lookup_all routes k) \<longleftrightarrow> (\<exists>e \<in> set es. entry_path e = k \<and> candidate e = c)"
  shows "pick routes ctx k = Some m \<Longrightarrow>
      \<exists>e \<in> set es. (k = entry_path e \<and> match_priority (candidate e) ctx \<noteq> None) \<and> scoped_proxy (candidate e) = proxy m \<and>
        path_params m = [] \<and> matched_prefix_len m = length (entry_path e)"
    and "pick routes ctx k = None \<longleftrightarrow>
      (\<forall>e \<in> set es. \<not> (k = entry_path e \<and> match_priority (candidate e) ctx \<noteq> None))"
proof -
  show "\<exists>e \<in> set es. (k = entry_path e \<and> match_priority (candidate e) ctx \<noteq> None) \<and> scoped_proxy (candidate e) = proxy m \<and>
        path_params m = [] \<and> matched_prefix_len m = length (entry_path e)"
    if "pick routes ctx k = Some m"
    using pick_SomeD [OF that] by (fastforce simp: assms)
  show "pick routes ctx k = None \<longleftrightarrow>
      (\<forall>e \<in> set es. \<not> (k = entry_path e \<and> match_priority (candidate e) ctx \<noteq> None))"
    unfolding pick_None_iff using assms by auto
qed

lemmas pick_from_entries = pick_indexed [OF in_from_entries]

lemmas pick_prefix_index = pick_indexed [OF in_prefix_index]

lemma find_prefix_SomeD:
  "find_prefix_match_indexed routes path ctx = Some m \<Longrightarrow>
   \<exists>k. boundary_prefix (strip_query path) k \<and> pick routes ctx k = Some m"
  unfolding find_prefix_keys by (drule first_some_SomeD) (auto simp: boundary_prefix_walk set_walk_keys)

lemma find_prefix_None_iff:
  "find_prefix_match_indexed routes path ctx = None \<longleftrightarrow>
   (\<forall>k. boundary_prefix (strip_query path) k \<longrightarrow> pick routes ctx k = None)"
  unfolding find_prefix_keys first_some_None by (auto simp: boundary_prefix_walk set_walk_keys)

interpretation exact_paths: route_finder True "\<lambda>routes. admitted f (find_exact_path_match_indexed routes path ctx)"
  from_entries "\<lambda>e. strip_query path = entry_path e \<and> match_priority (candidate e) ctx \<noteq> None"
  "\<lambda>e. scoped_proxy (candidate e)"
  "\<lambda>e m. path_params m = [] \<and> matched_prefix_len m = length (entry_path e)" for f path ctx
  by unfold_locales (auto simp: find_exact_pick dest!: admit_SomeD pick_from_entries(1))

interpretation prefixes: route_finder True "\<lambda>routes. admitted f (find_prefix_match_indexed routes path ctx)"
  "\<lambda>es. prefix_index es" "\<lambda>e. boundary_prefix (strip_query path) (entry_path e) \<and> match_priority (candidate e) ctx \<noteq> None"
  "\<lambda>e. scoped_proxy (candidate e)"
  "\<lambda>e m. path_params m = [] \<and> matched_prefix_len m = length (entry_path e)" for f path ctx
  by unfold_locales (auto dest!: admit_SomeD find_prefix_SomeD pick_prefix_index(1))

interpretation regexes: route_finder "regex_contract lib" "\<lambda>routes. admitted f (find_regex_match_indexed lib routes path ctx)"
  "new_IndexedRegexRoutes lib"
  "\<lambda>e. regex_is_match lib (pattern e) path \<and> match_priority (regex_candidate e) ctx \<noteq> None"
  "\<lambda>e. scoped_proxy (regex_candidate e)" "\<lambda>e m. True" for lib f path ctx
  by unfold_locales (auto dest!: admit_SomeD find_regex_SomeD)

interpretation host_onlys: route_finder True "\<lambda>candidates. host_only_match candidates ctx" "\<lambda>cs. cs"
  "\<lambda>c. match_priority c ctx \<noteq> None" scoped_proxy "\<lambda>e m. path_params m = [] \<and> matched_prefix_len m = 0" for ctx
  by unfold_locales (auto simp: host_only_match_def dest!: select_SomeD)

interpretation all_exact_paths: exact_route_finder True "\<lambda>routes. admitted Unfiltered (find_exact_path_match_indexed routes path ctx)"
  from_entries "\<lambda>e. strip_query path = entry_path e \<and> match_priority (candidate e) ctx \<noteq> None"
  "\<lambda>e. scoped_proxy (candidate e)"
  "\<lambda>e m. path_params m = [] \<and> matched_prefix_len m = length (entry_path e)" for path ctx
  by unfold_locales (auto simp: find_exact_pick pick_from_entries(2))

interpretation all_prefixes: exact_route_finder True "\<lambda>routes. admitted Unfiltered (find_prefix_match_indexed routes path ctx)"
  "\<lambda>es. prefix_index es" "\<lambda>e. boundary_prefix (strip_query path) (entry_path e) \<and> match_priority (candidate e) ctx \<noteq> None"
  "\<lambda>e. scoped_proxy (candidate e)"
  "\<lambda>e m. path_params m = [] \<and> matched_prefix_len m = length (entry_path e)" for path ctx
  by unfold_locales (auto simp: find_prefix_None_iff pick_prefix_index(2))

interpretation all_regexes: exact_route_finder "regex_contract lib"
  "\<lambda>routes. admitted Unfiltered (find_regex_match_indexed lib routes path ctx)" "new_IndexedRegexRoutes lib"
  "\<lambda>e. regex_is_match lib (pattern e) path \<and> match_priority (regex_candidate e) ctx \<noteq> None"
  "\<lambda>e. scoped_proxy (regex_candidate e)" "\<lambda>e m. True" for lib path ctx
  by unfold_locales (simp add: find_regex_None_iff)

interpretation all_host_onlys: exact_route_finder True "\<lambda>candidates. host_only_match candidates ctx" "\<lambda>cs. cs"
  "\<lambda>c. match_priority c ctx \<noteq> None" scoped_proxy "\<lambda>e m. path_params m = [] \<and> matched_prefix_len m = 0" for ctx
  by unfold_locales (simp add: host_only_match_def select_None_iff)

section \<open>The search is the first stage with a result\<close>

definition stage_search ::
  "regex_lib \<Rightarrow> GatewayConfig \<Rightarrow> string option \<Rightarrow> string \<Rightarrow> MeshRouteDirectionFilter \<Rightarrow>
   HttpPortMatchContext \<Rightarrow> host_class \<times> path_class \<Rightarrow> RouteMatch option" where
  "stage_search lib cfg host_opt path f ctx stage =
     (case snd stage of
        ExactPath \<Rightarrow> tier_search (fst stage) host_opt (exact_tier cfg) from_entries
          (\<lambda>routes. admitted f (find_exact_path_match_indexed routes path ctx))
      | PrefixPath \<Rightarrow> tier_search (fst stage) host_opt (path_tier cfg) (\<lambda>es. prefix_index es)
          (\<lambda>routes. admitted f (find_prefix_match_indexed routes path ctx))
      | RegexPath \<Rightarrow> tier_search (fst stage) host_opt (pattern_tier lib cfg) (new_IndexedRegexRoutes lib)
          (\<lambda>routes. admitted f (find_regex_match_indexed lib routes path ctx))
      | HostOnly \<Rightarrow> tier_search (fst stage) host_opt (hosts_tier cfg) (\<lambda>cs. cs)
          (\<lambda>candidates. host_only_match candidates ctx))"

lemma index_hosts_id [simp]: "index_hosts (\<lambda>cs. cs) xs = xs"
  by (simp add: index_hosts_def)

text \<open>The flags only skip tables that are empty.\<close>

definition flags_ok :: "HostRouteTable \<Rightarrow> bool" where
  "flags_ok t \<longleftrightarrow>
     (has_exact_path_routes t \<longleftrightarrow>
        exact_hosts_exact_paths t \<noteq> [] \<or> wildcard_hosts_exact_paths t \<noteq> [] \<or> catch_all_exact_paths t \<noteq> []) \<and>
     (has_regex_routes t \<longleftrightarrow>
        exact_hosts_regex t \<noteq> [] \<or> wildcard_hosts_regex t \<noteq> [] \<or> entries (catch_all_regex t) \<noteq> []) \<and>
     (has_host_only_routes t \<longleftrightarrow> exact_hosts_host_only t \<noteq> [] \<or> wildcard_hosts_host_only t \<noteq> [])"

lemma flags_ok_build: "flags_ok (build_route_table lib cfg)"
  by (simp add: flags_ok_def build_route_table_def Let_def)

lemma empty_tables [simp]:
  "at_host [] h g = None"
  "find_exact_path_match_indexed [] path ctx = None"
  "entries routes = [] \<Longrightarrow> find_regex_match_indexed lib routes path ctx = None"
  "admitted f None = None"
  by (simp_all add: at_host_def find_exact_path_match_indexed_def find_regex_match_indexed_def admitted_def)

lemma flag_guards:
  assumes "flags_ok t"
  shows "(if has_exact_path_routes t then at_host (exact_hosts_exact_paths t) h g else None) =
      at_host (exact_hosts_exact_paths t) h g"
    and "(if has_exact_path_routes t then at_wildcards (wildcard_hosts_exact_paths t) h g else None) =
      at_wildcards (wildcard_hosts_exact_paths t) h g"
    and "(if has_exact_path_routes t then admitted f (find_exact_path_match_indexed (catch_all_exact_paths t) path ctx) else None) =
      admitted f (find_exact_path_match_indexed (catch_all_exact_paths t) path ctx)"
    and "(if has_regex_routes t then at_host (exact_hosts_regex t) h g' else None) = at_host (exact_hosts_regex t) h g'"
    and "(if has_regex_routes t then at_wildcards (wildcard_hosts_regex t) h g' else None) =
      at_wildcards (wildcard_hosts_regex t) h g'"
    and "(if has_regex_routes t then admitted f (find_regex_match_indexed lib (catch_all_regex t) path ctx) else None) =
      admitted f (find_regex_match_indexed lib (catch_all_regex t) path ctx)"
    and "(if has_host_only_routes t then at_host (exact_hosts_host_only t) h k else None) =
      at_host (exact_hosts_host_only t) h k"
    and "(if has_host_only_routes t then at_wildcards (wildcard_hosts_host_only t) h k else None) =
      at_wildcards (wildcard_hosts_host_only t) h k"
  using assms by (auto simp: flags_ok_def)

lemma or_else_simps [simp]: "or_else None s = s" "or_else (Some x) s = Some x" "or_else r None = r"
  by (auto simp: or_else_def split: option.split)

lemma or_else_assoc: "or_else (or_else q r) s = or_else q (or_else r s)"
  by (simp add: or_else_def split: option.split)

lemma first_some_or_else: "first_some g (x # xs) = or_else (g x) (first_some g xs)"
  by (simp add: or_else_def)

lemma search_stages:
  "search_route_table lib (build_route_table lib cfg) host_opt path f ctx =
     first_some (stage_search lib cfg host_opt path f ctx) stages"
proof (cases host_opt)
  case None
  then show ?thesis
    unfolding search_route_table_def Let_def flag_guards [OF flags_ok_build]
    unfolding build_fields stages_def
    by (simp add: first_some_or_else stage_search_def tier_search_def del: first_some.simps(2))
next
  case (Some h)
  then show ?thesis
    unfolding search_route_table_def Let_def flag_guards [OF flags_ok_build]
    unfolding build_fields stages_def
    by (simp add: first_some_or_else stage_search_def tier_search_def or_else_assoc del: first_some.simps(2))
qed

section \<open>Each stage is exact\<close>

lemma entry_owner:
  "path_entry b tls skip p = Some e \<Longrightarrow> scoped_proxy (candidate e) = p"
  "regex_entry lib tls skip p = Some e' \<Longrightarrow> scoped_proxy (regex_candidate e') = p"
  "host_only_entry tls skip p = Some c \<Longrightarrow> scoped_proxy c = p"
  by (auto simp: path_entry_def regex_entry_def host_only_entry_def new_PortScopedProxy_def Let_def
      split: option.splits if_splits)

lemma path_entry_serves:
  "(\<exists>e. path_entry True (tls_of cfg) (skip_of cfg) p = Some e \<and>
      strip_query path = entry_path e \<and> match_priority (candidate e) ctx \<noteq> None) \<longleftrightarrow>
   in_tiers (skip_of cfg) p \<and> listens cfg ctx p \<and> path_serves lib ExactPath p path"
  "(\<exists>e. path_entry False (tls_of cfg) (skip_of cfg) p = Some e \<and>
      boundary_prefix (strip_query path) (entry_path e) \<and> match_priority (candidate e) ctx \<noteq> None) \<longleftrightarrow>
   in_tiers (skip_of cfg) p \<and> listens cfg ctx p \<and> path_serves lib PrefixPath p path"
  by (auto simp: path_entry_def listens_def path_serves_def tls_of_def split: option.splits if_splits)

lemma regex_entry_serves:
  "(\<exists>e. regex_entry lib (tls_of cfg) (skip_of cfg) p = Some e \<and>
      regex_is_match lib (pattern e) path \<and> match_priority (regex_candidate e) ctx \<noteq> None) \<longleftrightarrow>
   in_tiers (skip_of cfg) p \<and> listens cfg ctx p \<and> path_serves lib RegexPath p path"
  by (auto simp: regex_entry_def listens_def path_serves_def tls_of_def Let_def split: option.splits if_splits)

lemma host_only_entry_serves:
  "(\<exists>c. host_only_entry (tls_of cfg) (skip_of cfg) p = Some c \<and> match_priority c ctx \<noteq> None) \<longleftrightarrow>
   in_tiers (skip_of cfg) p \<and> listens cfg ctx p \<and> path_serves lib HostOnly p path"
  by (auto simp: host_only_entry_def listens_def path_serves_def tls_of_def split: option.splits if_splits)

lemmas entry_serves = path_entry_serves regex_entry_serves host_only_entry_serves

lemma serves_in_tiers:
  "serves lib cfg host_opt path ctx (hc, pc) p \<longleftrightarrow>
   p \<in> set (proxies cfg) \<and> host_serves hc p host_opt \<and>
   in_tiers (skip_of cfg) p \<and> listens cfg ctx p \<and> path_serves lib pc p path"
  by (auto simp: serves_def routed_def in_tiers_def skip_of_def)

lemma stage_sound:
  assumes "regex_contract lib" and "stage_search lib cfg host_opt path f ctx (hc, pc) = Some m"
  shows "serves lib cfg host_opt path ctx (hc, pc) (proxy m)"
proof (cases pc)
  case ExactPath
  with assms(2) exact_paths.tier_search_SomeD [of hc host_opt "path_entry True (tls_of cfg) (skip_of cfg)" cfg]
  show ?thesis
    by (simp add: stage_search_def serves_in_tiers entry_owner flip: path_entry_serves(1)) blast
next
  case PrefixPath
  with assms(2) prefixes.tier_search_SomeD [of hc host_opt "path_entry False (tls_of cfg) (skip_of cfg)" cfg]
  show ?thesis
    by (simp add: stage_search_def serves_in_tiers entry_owner flip: path_entry_serves(2)) blast
next
  case RegexPath
  with assms regexes.tier_search_SomeD [of lib hc host_opt "regex_entry lib (tls_of cfg) (skip_of cfg)" cfg]
  show ?thesis
    by (simp add: stage_search_def serves_in_tiers entry_owner flip: regex_entry_serves) blast
next
  case HostOnly
  with assms(2) host_onlys.tier_search_SomeD [of hc host_opt "host_only_entry (tls_of cfg) (skip_of cfg)" cfg]
  show ?thesis
    by (simp add: stage_search_def serves_in_tiers entry_owner flip: host_only_entry_serves) blast
qed

lemma stage_complete:
  assumes "regex_contract lib" and "stage_search lib cfg host_opt path Unfiltered ctx (hc, pc) = None"
  shows "\<not> serves lib cfg host_opt path ctx (hc, pc) p"
proof (cases pc)
  case ExactPath
  with assms(2) all_exact_paths.tier_search_NoneD [of hc host_opt "path_entry True (tls_of cfg) (skip_of cfg)" cfg]
  show ?thesis
    by (simp add: stage_search_def serves_in_tiers flip: path_entry_serves(1); blast)
next
  case PrefixPath
  with assms(2) all_prefixes.tier_search_NoneD [of hc host_opt "path_entry False (tls_of cfg) (skip_of cfg)" cfg]
  show ?thesis
    by (simp add: stage_search_def serves_in_tiers flip: path_entry_serves(2); blast)
next
  case RegexPath
  with assms all_regexes.tier_search_NoneD [of lib hc host_opt "regex_entry lib (tls_of cfg) (skip_of cfg)" cfg]
  show ?thesis
    by (simp add: stage_search_def serves_in_tiers flip: regex_entry_serves; blast)
next
  case HostOnly
  with assms(2) all_host_onlys.tier_search_NoneD [of hc host_opt "host_only_entry (tls_of cfg) (skip_of cfg)" cfg]
  show ?thesis
    by (simp add: stage_search_def serves_in_tiers flip: host_only_entry_serves; blast)
qed

lemma stage_admitted:
  assumes "stage_search lib cfg host_opt path f ctx (hc, pc) = Some m" and "pc \<noteq> HostOnly"
  shows "admits f m"
proof -
  have found: "\<exists>r. find_in r = Some m"
    if "tier_search hc host_opt t mk find_in = Some m"
    for t :: "'e host_tier" and mk :: "'e list \<Rightarrow> 'r" and find_in
    using that
    by (cases hc)
      (auto simp: tier_search_def at_host_def at_wildcards_first_some split: option.splits if_splits
        dest!: first_some_SomeD)
  from assms show ?thesis by (cases pc) (auto simp: stage_search_def dest!: found admit_SomeD)
qed

lemma first_some_index:
  "first_some g xs = Some y \<Longrightarrow> \<exists>i < length xs. g (xs ! i) = Some y \<and> (\<forall>j < i. g (xs ! j) = None)"
proof (induction xs)
  case (Cons x xs)
  show ?case
  proof (cases "g x")
    case None
    with Cons obtain i where "i < length xs" "g (xs ! i) = Some y" "\<forall>j < i. g (xs ! j) = None" by auto
    with None show ?thesis by (intro exI [of _ "Suc i"]) (auto simp: nth_Cons split: nat.split)
  qed (use Cons in auto)
qed simp

text \<open>
  C6. Route search is exact. For every configuration, host, path and listener, the search in the
  table built from the configuration returns a proxy that serves the request, at the first of the
  eleven (host class, path class) stages in which any proxy does, and returns nothing only when no
  proxy of the configuration serves the request at any stage. \<open>serves\<close> speaks of the configured
  proxies only: hosts, listen path and listener, with none of the indexes the search uses. The
  regex library is assumed to behave as documented.
\<close>

theorem search_exact:
  assumes "regex_contract lib"
  shows "case search_route_table lib (build_route_table lib cfg) host_opt path Unfiltered ctx of
     None \<Rightarrow> \<not> (\<exists>stage \<in> set stages. \<exists>p. serves lib cfg host_opt path ctx stage p)
   | Some m \<Rightarrow> \<exists>i < length stages. serves lib cfg host_opt path ctx (stages ! i) (proxy m) \<and>
       \<not> (\<exists>j < i. \<exists>p. serves lib cfg host_opt path ctx (stages ! j) p)"
proof (cases "search_route_table lib (build_route_table lib cfg) host_opt path Unfiltered ctx")
  case None
  then have "stage_search lib cfg host_opt path Unfiltered ctx stage = None" if "stage \<in> set stages" for stage
    using that by (simp add: search_stages first_some_None)
  with stage_complete [OF assms] have "\<not> serves lib cfg host_opt path ctx stage p" if "stage \<in> set stages" for stage p
    using that by (cases stage) blast
  with None show ?thesis by auto
next
  case (Some m)
  from first_some_index [OF Some [unfolded search_stages]] obtain i where i: "i < length stages"
    "stage_search lib cfg host_opt path Unfiltered ctx (stages ! i) = Some m"
    "\<forall>j < i. stage_search lib cfg host_opt path Unfiltered ctx (stages ! j) = None"
    by blast
  have "serves lib cfg host_opt path ctx (stages ! i) (proxy m)"
    using stage_sound [OF assms, of cfg host_opt path Unfiltered ctx "fst (stages ! i)" "snd (stages ! i)" m] i(2)
    by simp
  moreover have "\<not> serves lib cfg host_opt path ctx (stages ! j) p" if "j < i" for j p
    using stage_complete [OF assms, of cfg host_opt path ctx "fst (stages ! j)" "snd (stages ! j)" p] i(3) that
    by simp
  ultimately show ?thesis using Some i(1) by auto
qed

text \<open>A regex library that knows literal patterns, and a configuration with three proxies.\<close>

definition literal_lib :: regex_lib where
  "literal_lib =
     \<lparr>regex_ok = (\<lambda>r. True), regex_is_match = (\<lambda>r s. r = s),
      regex_captures = (\<lambda>r s. if r = s then Some (length s, []) else None),
      regex_capture_names = (\<lambda>r. []), regex_set_ok = (\<lambda>rs. True),
      regex_set_matches = (\<lambda>rs s. filter (\<lambda>i. rs ! i = s) [0..<length rs])\<rparr>"

definition sample_proxy :: "string \<Rightarrow> string list \<Rightarrow> string option \<Rightarrow> u16 option \<Rightarrow> Proxy" where
  "sample_proxy pid hs lp port =
     \<lparr>proxy_id = pid, namespace = ''ns'', hosts = hs, listen_path = lp, listen_port = port,
      backend_port = 9000, is_stream = False\<rparr>"

definition sample_config :: GatewayConfig where
  "sample_config =
     \<lparr>proxies = [sample_proxy ''any'' [] (Some ''/'') None,
                 sample_proxy ''wild'' [''*.a.com''] (Some ''/v1'') (Some 8443),
                 sample_proxy ''exact'' [''x.a.com''] (Some ''=/v1'') (Some 80)],
      http_tls_listen_ports = [(''ns'', 8443)], mesh = None\<rparr>"

definition sample_ctx :: "u16 option \<Rightarrow> bool \<Rightarrow> HttpPortMatchContext" where
  "sample_ctx port tls =
     \<lparr>frontend_port = port, frontend_is_tls = tls, ctx_single_nontls = Some 80, ctx_single_tls = Some 8443,
      listener_admission = admission_decided []\<rparr>"

lemma literal_lib_contract: "regex_contract literal_lib"
  by (simp add: regex_contract_def literal_lib_def)

theorem search_exact_witness:
  "regex_contract literal_lib \<and>
   map_option (\<lambda>m. proxy_id (proxy m))
     (search_route_table literal_lib (build_route_table literal_lib sample_config) (Some ''x.a.com'') ''/v1/u''
        Unfiltered (sample_ctx (Some 8443) True)) = Some ''wild'' \<and>
   (case search_route_table literal_lib (build_route_table literal_lib sample_config) (Some ''x.a.com'') ''/v1/u''
      Unfiltered (sample_ctx (Some 8443) True) of
     None \<Rightarrow> \<not> (\<exists>stage \<in> set stages. \<exists>p. serves literal_lib sample_config (Some ''x.a.com'') ''/v1/u''
       (sample_ctx (Some 8443) True) stage p)
   | Some m \<Rightarrow> \<exists>i < length stages. serves literal_lib sample_config (Some ''x.a.com'') ''/v1/u''
       (sample_ctx (Some 8443) True) (stages ! i) (proxy m) \<and>
       \<not> (\<exists>j < i. \<exists>p. serves literal_lib sample_config (Some ''x.a.com'') ''/v1/u''
         (sample_ctx (Some 8443) True) (stages ! j) p))"
  by (intro conjI literal_lib_contract search_exact [OF literal_lib_contract]) code_simp

section \<open>Listener isolation\<close>

text \<open>The match context of a lookup in a table, as \<open>find_proxy_with_admission\<close> builds it.\<close>

definition port_ctx :: "HostRouteTable \<Rightarrow> GatewayListenerAdmission \<Rightarrow> u16 option \<Rightarrow> bool \<Rightarrow> HttpPortMatchContext" where
  "port_ctx table admission port tls =
     \<lparr>frontend_port = port, frontend_is_tls = tls,
      ctx_single_nontls = single_nontls_listen_port table,
      ctx_single_tls = single_tls_listen_port table, listener_admission = admission\<rparr>"

lemma single_ports_build:
  "single_nontls_listen_port (build_route_table lib cfg) = single_listen_port cfg False"
  "single_tls_listen_port (build_route_table lib cfg) = single_listen_port cfg True"
  by (simp_all add: build_route_table_def Let_def)

lemma single_listen_port_Some: "single_listen_port cfg tls = Some port \<Longrightarrow> class_ports cfg tls = [port]"
  by (auto simp: single_listen_port_def split: list.splits)

lemma search_SomeD:
  assumes "regex_contract lib"
    and "search_route_table lib (build_route_table lib cfg) host_opt path f ctx = Some m"
  shows "\<exists>stage. serves lib cfg host_opt path ctx stage (proxy m) \<and> (snd stage = HostOnly \<or> admits f m)"
proof -
  from first_some_SomeD [OF assms(2) [unfolded search_stages]] obtain hc pc where
    "stage_search lib cfg host_opt path f ctx (hc, pc) = Some m"
    by auto
  with stage_sound [OF assms(1)] stage_admitted [of lib cfg host_opt path f ctx hc pc m] show ?thesis
    by (intro exI [of _ "(hc, pc)"]) auto
qed

lemma listens_scope:
  assumes "listens cfg (port_ctx (build_route_table lib cfg) admission fport tls) p" "\<not> is_stream p"
    "listen_port p = Some port"
  shows "allows admission port \<and> ((namespace p, port) \<in> set (http_tls_listen_ports cfg) \<longleftrightarrow> tls) \<and>
    (fport = Some port \<or> \<not> is_mesh_ingress_bind_route_id (proxy_id p) \<and> class_ports cfg tls = [port])"
  using assms single_listen_port_Some [of cfg tls port]
  by (auto simp: listens_def match_priority_def new_PortScopedProxy_def port_match_priority_def port_ctx_def
      single_ports_build Let_def split: if_splits)



end
