(* ===== verification/Mesh_Ports.thy ===== *)
theory Mesh_Ports
  imports Route_Table
begin

text \<open>
  \<^verbatim>\<open>src/src/router_cache.rs\<close>: the selection of a per-port sibling after a mesh route matched. The
  route tiers hold one representative per service; the port the client dialed picks the sibling, or
  the request fails closed.
\<close>

section \<open>Selection\<close>

datatype MeshOutboundPortSelectError = OrigDstUnavailable | OutPortNotMaterialized

datatype MeshInboundPortSelectError = PortSignalUnavailable | InPortNotMaterialized

definition select_mesh_outbound_port_route_with_authz_port ::
  "HostRouteTable \<Rightarrow> RouteMatch \<Rightarrow> u16 option \<Rightarrow> MeshOutboundPortSelectError + RouteMatch \<times> u16 option" where
  "select_mesh_outbound_port_route_with_authz_port table current orig_dst_port =
     (case map_of (mesh_outbound_ports table) (namespace (proxy current), proxy_id (proxy current)) of
        None \<Rightarrow> Inr (current, None)
      | Some grp \<Rightarrow>
          (case orig_dst_port of
             None \<Rightarrow>
               if out_declared_http_ports grp = 1
               then Inr (current, case out_ports grp of [] \<Rightarrow> None | (port, _) # _ \<Rightarrow> Some port)
               else Inl OrigDstUnavailable
           | Some port \<Rightarrow>
               (case find (\<lambda>(p, _). p = port) (out_ports grp) of
                  Some (selected_port, selected) \<Rightarrow>
                    Inr (\<lparr>proxy = selected, path_params = path_params current,
                          matched_prefix_len = matched_prefix_len current\<rparr>, Some selected_port)
                | None \<Rightarrow> Inl OutPortNotMaterialized)))"

definition select_mesh_inbound_port_route ::
  "HostRouteTable \<Rightarrow> RouteMatch \<Rightarrow> u16 option \<Rightarrow> u16 option \<Rightarrow> MeshInboundPortSelectError + RouteMatch \<times> u16 option" where
  "select_mesh_inbound_port_route table current orig_dst_port auth_port =
     (case map_of (mesh_inbound_ports table) (namespace (proxy current), proxy_id (proxy current)) of
        None \<Rightarrow> Inr (current, None)
      | Some grp \<Rightarrow>
          if in_declared_http_ports grp = 1 then
            if is_ingress grp then
              (let listener_port = (case in_ports grp of [] \<Rightarrow> None | s # _ \<Rightarrow> Some (authority_port s));
                   signal = or_else orig_dst_port auth_port
               in case signal of
                    Some port \<Rightarrow>
                      if listener_port \<noteq> Some port then Inl InPortNotMaterialized else Inr (current, listener_port)
                  | None \<Rightarrow> Inr (current, listener_port))
            else Inr (current, None)
          else
            (case (case orig_dst_port of
                     Some container_port \<Rightarrow> Inr (find (\<lambda>s. orig_dst_match_port s = container_port) (in_ports grp))
                   | None \<Rightarrow>
                       (case auth_port of
                          Some service_port \<Rightarrow> Inr (find (\<lambda>s. authority_port s = service_port) (in_ports grp))
                        | None \<Rightarrow> Inl PortSignalUnavailable)) of
               Inl err \<Rightarrow> Inl err
             | Inr (Some sibling) \<Rightarrow>
                 Inr (\<lparr>proxy = route sibling, path_params = path_params current,
                       matched_prefix_len = matched_prefix_len current\<rparr>,
                      if is_ingress grp then Some (authority_port sibling) else None)
             | Inr None \<Rightarrow> Inl InPortNotMaterialized))"

section \<open>The groups of a built table\<close>

lemma proxy_of_kind_SomeD:
  "proxy_of_kind kind ps ns pid = Some p \<Longrightarrow>
   p \<in> set ps \<and> \<not> is_stream p \<and> kind pid \<and> namespace p = ns \<and> proxy_id p = pid"
  by (auto simp: proxy_of_kind_def find_Some_iff) (metis nth_mem set_rev length_rev)

text \<open>The sibling a service declares: a port of the service and the proxy materialized for it.\<close>

definition declared_sibling :: "GatewayConfig \<Rightarrow> MeshOutboundServiceGroup \<Rightarrow> u16 \<Rightarrow> Proxy \<Rightarrow> bool" where
  "declared_sibling cfg g port p \<longleftrightarrow>
     p \<in> set (proxies cfg) \<and> namespace p = group_namespace g \<and> (port, proxy_id p) \<in> set (siblings g)"

definition mesh_services :: "GatewayConfig \<Rightarrow> (MeshConfig \<Rightarrow> MeshOutboundServiceGroup list) \<Rightarrow> MeshOutboundServiceGroup list" where
  "mesh_services cfg view = (case mesh cfg of None \<Rightarrow> [] | Some m \<Rightarrow> view m)"

lemma group_members_declared:
  "(port, p) \<in> set (group_members (proxies cfg) g) \<Longrightarrow> declared_sibling cfg g port p"
  by (auto simp: group_members_def declared_sibling_def in_map_filter dest!: proxy_of_kind_SomeD)

lemma inbound_members_declared:
  "s \<in> set (inbound_members ingress (proxies cfg) g) \<Longrightarrow>
   declared_sibling cfg g (authority_port s) (route s) \<and>
   orig_dst_match_port s = (if ingress then authority_port s else backend_port (route s))"
  by (auto simp: inbound_members_def declared_sibling_def in_map_filter dest!: proxy_of_kind_SomeD)

definition outbound_group_of :: "GatewayConfig \<Rightarrow> MeshOutboundServiceGroup \<Rightarrow> string \<times> string \<Rightarrow> MeshOutboundPortGroup \<Rightarrow> bool" where
  "outbound_group_of cfg g key grp \<longleftrightarrow>
     out_declared_http_ports grp = declared_http_ports g \<and>
     out_ports grp = group_members (proxies cfg) g \<and>
     (\<exists>port rep rest. out_ports grp = (port, rep) # rest \<and> key = (group_namespace g, proxy_id rep))"

definition inbound_group_of :: "GatewayConfig \<Rightarrow> bool \<Rightarrow> MeshOutboundServiceGroup \<Rightarrow> string \<times> string \<Rightarrow> MeshInboundPortGroup \<Rightarrow> bool" where
  "inbound_group_of cfg ingress g key grp \<longleftrightarrow>
     in_declared_http_ports grp = declared_http_ports g \<and> is_ingress grp = ingress \<and>
     in_ports grp = inbound_members ingress (proxies cfg) g \<and>
     (\<exists>rep rest. in_ports grp = rep # rest \<and> key = (group_namespace g, proxy_id (route rep)))"

lemma add_outbound_group_at:
  "map_of (outbound_table (add_outbound_group (proxies cfg) g t)) key = Some grp \<Longrightarrow>
   map_of (outbound_table t) key = Some grp \<or> outbound_group_of cfg g key grp"
  by (auto simp: add_outbound_group_def outbound_group_of_def update_Some_unfold update_conv'
      split: list.splits prod.splits if_splits)

lemma add_outbound_groups_at:
  "map_of (outbound_table (fold (add_outbound_group (proxies cfg)) gs t)) key = Some grp \<Longrightarrow>
   map_of (outbound_table t) key = Some grp \<or> (\<exists>g \<in> set gs. outbound_group_of cfg g key grp)"
  by (induction gs arbitrary: t) (fastforce dest: add_outbound_group_at)+

lemma add_inbound_group_at:
  "map_of (inbound_table (add_inbound_group ingress (proxies cfg) g t)) key = Some grp \<Longrightarrow>
   map_of (inbound_table t) key = Some grp \<or> inbound_group_of cfg ingress g key grp"
  by (auto simp: add_inbound_group_def inbound_group_of_def update_conv' split: list.splits if_splits)

lemma add_inbound_groups_at:
  "map_of (inbound_table (fold (add_inbound_group ingress (proxies cfg)) gs t)) key = Some grp \<Longrightarrow>
   map_of (inbound_table t) key = Some grp \<or> (\<exists>g \<in> set gs. inbound_group_of cfg ingress g key grp)"
  by (induction gs arbitrary: t) (fastforce dest: add_inbound_group_at)+

lemma other_table_kept:
  "outbound_table (fold (add_inbound_group ingress ps) gs t) = outbound_table t"
  "inbound_table (fold (add_outbound_group ps) gs t) = inbound_table t"
  by (induction gs arbitrary: t) (auto simp: add_inbound_group_def add_outbound_group_def split: list.split)

lemma mesh_outbound_ports_build:
  "map_of (mesh_outbound_ports (build_route_table lib cfg)) key = Some grp \<Longrightarrow>
   \<exists>g \<in> set (mesh_services cfg mesh_outbound_service_groups). outbound_group_of cfg g key grp"
  by (auto simp: build_route_table_def build_mesh_tables_def mesh_services_def Let_def other_table_kept
      split: option.splits dest!: add_outbound_groups_at)

lemma mesh_inbound_ports_build:
  "map_of (mesh_inbound_ports (build_route_table lib cfg)) key = Some grp \<Longrightarrow>
   \<exists>ingress. \<exists>g \<in> set (mesh_services cfg (if ingress then mesh_ingress_listener_groups else mesh_inbound_service_groups)).
     inbound_group_of cfg ingress g key grp"
  by (auto simp: ex_bool_eq build_route_table_def build_mesh_tables_def mesh_services_def Let_def other_table_kept
      split: option.splits dest!: add_inbound_groups_at)

section \<open>Dialed ports\<close>

lemma single_declared_port:
  assumes "g \<in> set (mesh_services cfg mesh_outbound_service_groups) \<union>
      set (mesh_services cfg mesh_inbound_service_groups) \<union> set (mesh_services cfg mesh_ingress_listener_groups)"
    and "declared_http_ports g = 1" "declared_sibling cfg g port p"
  shows "siblings g = [(port, proxy_id p)]"
proof -
  from assms(1) have "length (siblings g) \<le> 1"
    using group_declares_siblings [of g "the (mesh cfg)"] assms(2)
    by (cases "mesh cfg") (auto simp: mesh_services_def)
  with assms(3) show ?thesis by (cases "siblings g") (auto simp: declared_sibling_def)
qed

lemma find_SomeD: "find P xs = Some x \<Longrightarrow> x \<in> set xs \<and> P x"
  by (auto simp: find_Some_iff)

text \<open>
  C30. Captured outbound traffic reaches the port the client dialed, or nothing. For a route of a
  mesh service group in the built table, a selection that succeeds returns a proxy that a service of
  the mesh declares for one port, reports exactly that port for authorization, and that port is the
  captured original destination port; without a captured destination that port is the only HTTP port
  the service declares. The path parameters and the matched length of the route are kept.
\<close>

theorem outbound_port_is_dialed_port:
  assumes "map_of (mesh_outbound_ports (build_route_table lib cfg)) (namespace (proxy m), proxy_id (proxy m)) \<noteq> None"
    and "proxy m \<in> set (proxies cfg)"
    and "select_mesh_outbound_port_route_with_authz_port (build_route_table lib cfg) m orig_dst_port = Inr (m', authz)"
  shows "\<exists>g \<in> set (mesh_services cfg mesh_outbound_service_groups). \<exists>port.
    authz = Some port \<and> declared_sibling cfg g port (proxy m') \<and>
    (orig_dst_port = Some port \<or> orig_dst_port = None \<and> siblings g = [(port, proxy_id (proxy m'))]) \<and>
    path_params m' = path_params m \<and> matched_prefix_len m' = matched_prefix_len m"
proof -
  let ?key = "(namespace (proxy m), proxy_id (proxy m))"
  from assms(1) obtain grp where grp: "map_of (mesh_outbound_ports (build_route_table lib cfg)) ?key = Some grp"
    by blast
  from mesh_outbound_ports_build [OF grp] obtain g port rep rest where
    g: "g \<in> set (mesh_services cfg mesh_outbound_service_groups)" "out_declared_http_ports grp = declared_http_ports g"
      "out_ports grp = group_members (proxies cfg) g" "out_ports grp = (port, rep) # rest"
      "?key = (group_namespace g, proxy_id rep)"
    by (auto simp: outbound_group_of_def)
  have rep: "declared_sibling cfg g port rep"
    using g(3,4) group_members_declared [of port rep cfg g] by (metis list.set_intros(1))
  show ?thesis
  proof (cases orig_dst_port)
    case None
    with assms(3) grp g(2,4) have "m' = m" "authz = Some port" "declared_http_ports g = 1"
      by (auto simp: select_mesh_outbound_port_route_with_authz_port_def split: if_splits)
    moreover have own: "declared_sibling cfg g port (proxy m)"
      using rep g(5) assms(2) by (simp add: declared_sibling_def)
    ultimately show ?thesis
      using None g(1) single_declared_port [OF _ _ own] by (intro bexI [of _ g] exI [of _ port]) auto
  next
    case (Some d)
    with assms(3) grp obtain p where "(d, p) \<in> set (group_members (proxies cfg) g)"
      "m' = \<lparr>proxy = p, path_params = path_params m, matched_prefix_len = matched_prefix_len m\<rparr>" "authz = Some d"
      by (auto simp: select_mesh_outbound_port_route_with_authz_port_def g(3) split: option.splits
          dest!: find_SomeD)
    then show ?thesis
      using g(1) Some group_members_declared [of d p cfg g] by (auto intro!: bexI [of _ g])
  qed
qed


section \<open>A service with two ports\<close>

definition mesh_proxy :: "string \<Rightarrow> u16 \<Rightarrow> Proxy" where
  "mesh_proxy pid port =
     \<lparr>proxy_id = pid, namespace = ''ns'', hosts = [''svc.ns''], listen_path = Some ''/'', listen_port = None,
      backend_port = port, is_stream = False\<rparr>"

definition mesh_config :: GatewayConfig where
  "mesh_config =
     \<lparr>proxies = [mesh_proxy ''__mesh-outbound-ns-svc-80'' 8080, mesh_proxy ''__mesh-outbound-ns-svc-81'' 8081,
                 mesh_proxy ''__mesh-inbound-ns-svc-80'' 8080, mesh_proxy ''__mesh-inbound-ns-svc-81'' 8081],
      http_tls_listen_ports = [],
      mesh = Some
        \<lparr>services =
           [\<lparr>service_name = ''svc'', service_namespace = ''ns'',
             service_ports = [\<lparr>sp_port = 81, sp_protocol = Http\<rparr>, \<lparr>sp_port = 80, sp_protocol = Grpc\<rparr>,
               \<lparr>sp_port = 6379, sp_protocol = Redis\<rparr>], protocol_overrides = []\<rparr>],
         local_inbound_services = None, local_ingress_listeners = [], declared_ingress_http_ports = 0\<rparr>\<rparr>"

definition mesh_match :: "string \<Rightarrow> RouteMatch" where
  "mesh_match pid = \<lparr>proxy = mesh_proxy pid 8080, path_params = [], matched_prefix_len = 1\<rparr>"

theorem outbound_port_is_dialed_port_witness:
  "\<exists>g \<in> set (mesh_services mesh_config mesh_outbound_service_groups). \<exists>port.
    Some (81 :: u16) = Some port \<and> declared_sibling mesh_config g port (mesh_proxy ''__mesh-outbound-ns-svc-81'' 8081) \<and>
    (Some (81 :: u16) = Some port \<or> Some (81 :: u16) = None \<and>
      siblings g = [(port, proxy_id (mesh_proxy ''__mesh-outbound-ns-svc-81'' 8081))])"
proof -
  let ?m = "mesh_match ''__mesh-outbound-ns-svc-80''"
  let ?m' = "\<lparr>proxy = mesh_proxy ''__mesh-outbound-ns-svc-81'' 8081, path_params = [], matched_prefix_len = 1\<rparr>"
  have "map_of (mesh_outbound_ports (build_route_table literal_lib mesh_config)) (namespace (proxy ?m), proxy_id (proxy ?m)) \<noteq> None"
    by code_simp
  moreover have "proxy ?m \<in> set (proxies mesh_config)" by code_simp
  moreover have "select_mesh_outbound_port_route_with_authz_port (build_route_table literal_lib mesh_config) ?m (Some 81) =
      Inr (?m', Some 81)"
    by code_simp
  ultimately show ?thesis using outbound_port_is_dialed_port [of literal_lib mesh_config ?m "Some 81" ?m' "Some 81"] by auto
qed


end
