(* ===== verification/Route_Pending.thy ===== *)
theory Route_Pending
  imports Route_Table
begin

text \<open>
  What happens to search results when listener admission returns to pending while the route table
  stays the same, as on a configuration reload that changes no route: routes that are not
  scoped to a listen port are found as before, misses stay misses. The route cache rests on this.
\<close>

section \<open>Results that a pending admission keeps\<close>

definition keeps :: "RouteMatch option \<Rightarrow> RouteMatch option \<Rightarrow> bool" where
  "keeps r r' \<longleftrightarrow>
     (case r of None \<Rightarrow> r' = None | Some m \<Rightarrow> listen_port (proxy m) = None \<longrightarrow> r' = Some m)"

definition scope_ok :: "PortScopedProxy \<Rightarrow> bool" where
  "scope_ok c \<longleftrightarrow> scoped_port c = listen_port (scoped_proxy c)"

definition pending_ctx :: "HttpPortMatchContext \<Rightarrow> HttpPortMatchContext" where
  "pending_ctx ctx = ctx\<lparr>listener_admission := admission_pending\<rparr>"

lemma keeps_refl [simp]: "keeps r r"
  by (simp add: keeps_def split: option.split)

lemma keeps_first_some:
  "(\<And>x. x \<in> set xs \<Longrightarrow> keeps (f x) (g x)) \<Longrightarrow> keeps (first_some f xs) (first_some g xs)"
proof (induction xs)
  case (Cons x xs)
  then have "keeps (f x) (g x)" "keeps (first_some f xs) (first_some g xs)" by simp_all
  then show ?case by (cases "f x") (auto simp: keeps_def)
qed simp

lemma priority_pending: "match_priority c (pending_ctx ctx) = (if scoped_port c = None then Some 2 else None)"
  by (simp add: match_priority_def port_match_priority_def pending_ctx_def admission_pending_def allows_def
      split: option.split)

lemma priority_two: "match_priority c ctx = Some 2 \<longleftrightarrow> scoped_port c = None"
  by (auto simp: match_priority_def port_match_priority_def Let_def split: option.splits if_splits)

lemma priority_unscoped: "scoped_port c = None \<Longrightarrow> match_priority c ctx = Some 2"
  by (simp add: priority_two)

lemma priority_le_two: "match_priority c ctx = Some n \<Longrightarrow> n \<le> 2"
  by (auto simp: match_priority_def port_match_priority_def Let_def split: option.splits if_splits)

lemma priority_to_pending:
  "match_priority c ctx = None \<Longrightarrow> match_priority c (pending_ctx ctx) = None"
  "match_priority c ctx = Some n \<Longrightarrow> n \<noteq> 2 \<Longrightarrow> match_priority c (pending_ctx ctx) = None"
  "match_priority c ctx = Some 2 \<Longrightarrow> match_priority c (pending_ctx ctx) = Some 2"
  using priority_unscoped [of c ctx] by (auto simp: priority_pending priority_two)

section \<open>The selection loops\<close>

lemma select_loop_mono: "select_loop ctx (Some (q, k)) cs = Some (p, k') \<Longrightarrow> k' \<le> k"
  by (induction cs arbitrary: q k) (fastforce split: option.splits if_splits)+

lemma select_loop_pending:
  "select_loop ctx best cs = Some (p, 2) \<Longrightarrow> select_loop (pending_ctx ctx) best cs = Some (p, 2)"
proof (induction cs arbitrary: best)
  case (Cons c cs)
  show ?case
  proof (cases "match_priority c ctx")
    case None
    with Cons show ?thesis by (simp add: priority_to_pending(1))
  next
    case (Some n)
    let ?better = "case best of None \<Rightarrow> True | Some (_, best_prio) \<Rightarrow> n < best_prio"
    show ?thesis
    proof (cases "n = 2")
      case True
      with Some have "match_priority c (pending_ctx ctx) = Some 2" by (simp add: priority_to_pending(3))
      with Some True Cons show ?thesis by (cases "case best of None \<Rightarrow> True | Some (_, b) \<Rightarrow> 2 < b") simp_all
    next
      case False
      with Some have "match_priority c (pending_ctx ctx) = None" "n < 2"
        using priority_to_pending(2) priority_le_two [OF Some] by auto
      moreover have "\<not> ?better"
        using Cons.prems Some \<open>n < 2\<close> select_loop_mono [of ctx "scoped_proxy c" n cs p 2] by (auto split: if_splits)
      ultimately show ?thesis using Some Cons by simp
    qed
  qed
qed simp

lemma select_keeps:
  assumes "\<And>c. c \<in> set cs \<Longrightarrow> scope_ok c"
  shows "select_port_aware_proxy cs ctx = None \<Longrightarrow> select_port_aware_proxy cs (pending_ctx ctx) = None"
    and "select_port_aware_proxy cs ctx = Some p \<Longrightarrow> listen_port p = None \<Longrightarrow>
      select_port_aware_proxy cs (pending_ctx ctx) = Some p"
proof -
  show "select_port_aware_proxy cs (pending_ctx ctx) = None" if "select_port_aware_proxy cs ctx = None"
    using that priority_to_pending(1) by (auto simp: select_None_iff)
  show "select_port_aware_proxy cs (pending_ctx ctx) = Some p"
    if "select_port_aware_proxy cs ctx = Some p" "listen_port p = None"
  proof -
    from that(1) obtain k where k: "select_loop ctx None cs = Some (p, k)" by (auto simp: select_port_aware_proxy_def)
    from select_loop_mem [OF k] obtain c where "c \<in> set cs" "scoped_proxy c = p" "match_priority c ctx = Some k" by auto
    with assms [of c] that(2) have "k = 2" using priority_unscoped [of c ctx] by (simp add: scope_ok_def)
    with k select_loop_pending show ?thesis by (simp add: select_port_aware_proxy_def)
  qed
qed

lemma best_regex_mono: "best_regex ctx (Some (b, k)) es = Some (e, k') \<Longrightarrow> k' \<le> k"
  by (induction es arbitrary: b k) (fastforce simp: regex_better_def split: option.splits if_splits)+

lemma best_regex_pending:
  "best_regex ctx best es = Some (e, 2) \<Longrightarrow> best_regex (pending_ctx ctx) best es = Some (e, 2)"
proof (induction es arbitrary: best)
  case (Cons e' es)
  let ?c = "regex_candidate e'"
  show ?case
  proof (cases "match_priority ?c ctx")
    case None
    with Cons show ?thesis by (simp add: priority_to_pending(1))
  next
    case (Some n)
    show ?thesis
    proof (cases "n = 2")
      case True
      with Some have "match_priority ?c (pending_ctx ctx) = Some 2" by (simp add: priority_to_pending(3))
      with Some True Cons show ?thesis by (cases "regex_better best e' n") simp_all
    next
      case False
      with Some have "match_priority ?c (pending_ctx ctx) = None" "n < 2"
        using priority_to_pending(2) priority_le_two [OF Some] by auto
      moreover have "\<not> regex_better best e' n"
        using Cons.prems Some \<open>n < 2\<close> best_regex_mono [of ctx e' n es e 2] by (auto split: if_splits)
      ultimately show ?thesis using Some Cons by simp
    qed
  qed
qed simp

section \<open>The finders\<close>

text \<open>A finder keeps results when its entries carry the listen port of their proxy.\<close>

locale keeping_finder =
  fixes lib_ok :: bool
    and find_in :: "'r \<Rightarrow> RouteMatch option"
    and find_pending :: "'r \<Rightarrow> RouteMatch option"
    and mk_index :: "'e list \<Rightarrow> 'r"
    and scoped :: "'e \<Rightarrow> PortScopedProxy"
  assumes find_keeps: "lib_ok \<Longrightarrow> (\<And>e. e \<in> set es \<Longrightarrow> scope_ok (scoped e)) \<Longrightarrow>
    keeps (find_in (mk_index es)) (find_pending (mk_index es))"
begin

lemma tier_search_keeps:
  assumes "lib_ok" and own: "\<And>p e. g p = Some e \<Longrightarrow> scope_ok (scoped e)"
  shows "keeps (tier_search hc host_opt (tier_of g cfg) mk_index find_in)
    (tier_search hc host_opt (tier_of g cfg) mk_index find_pending)"
proof -
  have at: "scope_ok (scoped e)" if "e \<in> tier_at (tier_of g cfg) k" for e k
    using that own by (auto simp: in_tier_of)
  note wf = wf_tier_of [of g cfg]
  have exact: "keeps (at_host (index_hosts mk_index (by_host (tier_of g cfg))) h find_in)
      (at_host (index_hosts mk_index (by_host (tier_of g cfg))) h find_pending)" for h
  proof (cases "map_of (by_host (tier_of g cfg)) h")
    case (Some es)
    then have "keeps (find_in (mk_index es)) (find_pending (mk_index es))"
      using exact_entry(1) [OF wf Some] at by (intro find_keeps [OF assms(1)]) blast
    then show ?thesis by (simp add: at_host_def map_of_index_hosts Some)
  qed (simp add: at_host_def map_of_index_hosts)
  have wild: "keeps (at_wildcards (index_hosts mk_index (longest_pattern_first (by_wildcard (tier_of g cfg)))) h find_in)
      (at_wildcards (index_hosts mk_index (longest_pattern_first (by_wildcard (tier_of g cfg)))) h find_pending)" for h
    unfolding at_wildcards_first_some
  proof (rule keeps_first_some, clarify)
    fix pat routes
    assume "(pat, routes) \<in> set (index_hosts mk_index (longest_pattern_first (by_wildcard (tier_of g cfg))))"
    then obtain es where es: "(pat, es) \<in> set (by_wildcard (tier_of g cfg))" "routes = mk_index es"
      by (auto simp: index_hosts_def set_longest_pattern_first)
    have "keeps (find_in routes) (find_pending routes)"
      unfolding es(2) using wildcard_entry(1) [OF wf es(1)] at by (intro find_keeps [OF assms(1)]) blast
    then show "keeps (if wildcard_matches pat h then find_in routes else None)
        (if wildcard_matches pat h then find_pending routes else None)"
      by simp
  qed
  have "keeps (find_in (mk_index (for_any (tier_of g cfg)))) (find_pending (mk_index (for_any (tier_of g cfg))))"
    using at [of _ None] by (intro find_keeps [OF assms(1)]) (auto simp: tier_at_def)
  then show ?thesis using exact wild by (cases hc) (auto simp: tier_search_def split: option.split)
qed

end

lemma pick_keeps:
  assumes "\<And>c. c \<in> set (lookup_all routes k) \<Longrightarrow> scope_ok c"
  shows "keeps (pick routes ctx k) (pick routes (pending_ctx ctx) k)"
  using select_keeps [OF assms] unfolding pick_lookup
  by (cases "select_port_aware_proxy (lookup_all routes k) ctx") (auto simp: keeps_def)

lemma regex_keeps:
  assumes "regex_contract lib" "\<And>e. e \<in> set es \<Longrightarrow> scope_ok (regex_candidate e)"
  shows "keeps (find_regex_match_indexed lib (new_IndexedRegexRoutes lib es) path ctx)
    (find_regex_match_indexed lib (new_IndexedRegexRoutes lib es) path (pending_ctx ctx))"
proof (cases "find_regex_match_indexed lib (new_IndexedRegexRoutes lib es) path ctx")
  case None
  then have "find_regex_match_indexed lib (new_IndexedRegexRoutes lib es) path (pending_ctx ctx) = None"
    unfolding find_regex_None_iff [OF assms(1)] by (metis priority_to_pending(1))
  with None show ?thesis by (simp add: keeps_def)
next
  case (Some m)
  let ?es = "filter (\<lambda>e. regex_is_match lib (pattern e) path) es"
  from Some obtain e k where ek: "best_regex ctx None ?es = Some (e, k)" "scoped_proxy (regex_candidate e) = proxy m"
    unfolding find_regex_best [OF assms(1)] by (auto split: option.splits)
  have mem: "e \<in> set es" "match_priority (regex_candidate e) ctx = Some k" using best_regex_mem [OF ek(1)] by auto
  have "find_regex_match_indexed lib (new_IndexedRegexRoutes lib es) path (pending_ctx ctx) = Some m"
    if "listen_port (proxy m) = None"
  proof -
    have "k = 2" using that mem assms(2) [of e] ek(2) priority_unscoped [of "regex_candidate e" ctx]
      by (simp add: scope_ok_def)
    with ek(1) best_regex_pending have "best_regex (pending_ctx ctx) None ?es = Some (e, 2)" by blast
    with Some ek(1) show ?thesis unfolding find_regex_best [OF assms(1)] by (auto split: option.splits)
  qed
  with Some show ?thesis by (simp add: keeps_def)
qed

interpretation exact_paths_kept: keeping_finder True
  "\<lambda>routes. admitted Unfiltered (find_exact_path_match_indexed routes path ctx)"
  "\<lambda>routes. admitted Unfiltered (find_exact_path_match_indexed routes path (pending_ctx ctx))"
  from_entries candidate for path ctx
proof
  fix es :: "RouteEntry list"
  assume "\<And>e. e \<in> set es \<Longrightarrow> scope_ok (candidate e)"
  then show "keeps (admitted Unfiltered (find_exact_path_match_indexed (from_entries es) path ctx))
      (admitted Unfiltered (find_exact_path_match_indexed (from_entries es) path (pending_ctx ctx)))"
    unfolding admit_Unfiltered find_exact_pick by (intro pick_keeps) (auto simp: in_from_entries)
qed

interpretation prefixes_kept: keeping_finder True
  "\<lambda>routes. admitted Unfiltered (find_prefix_match_indexed routes path ctx)"
  "\<lambda>routes. admitted Unfiltered (find_prefix_match_indexed routes path (pending_ctx ctx))"
  "\<lambda>es. prefix_index es" candidate for path ctx
proof
  fix es :: "RouteEntry list"
  assume "\<And>e. e \<in> set es \<Longrightarrow> scope_ok (candidate e)"
  then show "keeps (admitted Unfiltered (find_prefix_match_indexed (prefix_index es) path ctx))
      (admitted Unfiltered (find_prefix_match_indexed (prefix_index es) path (pending_ctx ctx)))"
    unfolding admit_Unfiltered find_prefix_keys by (intro keeps_first_some pick_keeps) (auto simp: in_prefix_index)
qed

interpretation regexes_kept: keeping_finder "regex_contract lib"
  "\<lambda>routes. admitted Unfiltered (find_regex_match_indexed lib routes path ctx)"
  "\<lambda>routes. admitted Unfiltered (find_regex_match_indexed lib routes path (pending_ctx ctx))"
  "new_IndexedRegexRoutes lib" regex_candidate for lib path ctx
  by unfold_locales (simp add: regex_keeps)

interpretation host_onlys_kept: keeping_finder True
  "\<lambda>candidates. host_only_match candidates ctx" "\<lambda>candidates. host_only_match candidates (pending_ctx ctx)"
  "\<lambda>cs. cs" "\<lambda>c. c" for ctx
proof
  fix es
  assume "\<And>e. e \<in> set es \<Longrightarrow> scope_ok e"
  note kept = select_keeps [OF this]
  show "keeps (host_only_match es ctx) (host_only_match es (pending_ctx ctx))"
    using kept by (cases "select_port_aware_proxy es ctx") (auto simp: keeps_def host_only_match_def)
qed

section \<open>The search\<close>

lemma entry_scope_ok:
  "path_entry b tls skip p = Some e \<Longrightarrow> scope_ok (candidate e)"
  "regex_entry lib tls skip p = Some e' \<Longrightarrow> scope_ok (regex_candidate e')"
  "host_only_entry tls skip p = Some c \<Longrightarrow> scope_ok c"
  by (auto simp: path_entry_def regex_entry_def host_only_entry_def new_PortScopedProxy_def Let_def scope_ok_def
      in_tiers_def split: option.splits if_splits)

lemma search_keeps:
  assumes "regex_contract lib"
  shows "keeps (search_route_table lib (build_route_table lib cfg) host_opt path Unfiltered ctx)
    (search_route_table lib (build_route_table lib cfg) host_opt path Unfiltered (pending_ctx ctx))"
  unfolding search_stages
proof (rule keeps_first_some)
  fix stage
  show "keeps (stage_search lib cfg host_opt path Unfiltered ctx stage)
      (stage_search lib cfg host_opt path Unfiltered (pending_ctx ctx) stage)"
    unfolding stage_search_def
    by (cases "snd stage")
      (simp_all only: path_class.case exact_paths_kept.tier_search_keeps [OF TrueI entry_scope_ok(1)]
        prefixes_kept.tier_search_keeps [OF TrueI entry_scope_ok(1)]
        regexes_kept.tier_search_keeps [OF assms entry_scope_ok(2)]
        host_onlys_kept.tier_search_keeps [OF TrueI entry_scope_ok(3)])
qed

section \<open>The shape of results\<close>

definition is_regex_proxy :: "Proxy \<Rightarrow> bool" where
  "is_regex_proxy p = (case listen_path p of None \<Rightarrow> False | Some lp \<Rightarrow> starts_with ''~'' lp)"

definition is_exact_path_proxy :: "Proxy \<Rightarrow> bool" where
  "is_exact_path_proxy p = (case listen_path p of None \<Rightarrow> False | Some lp \<Rightarrow> starts_with ''='' lp)"

text \<open>What a hit in the prefix partition reconstructs from the proxy alone.\<close>

definition prefix_shape :: "RouteMatch \<Rightarrow> bool" where
  "prefix_shape m \<longleftrightarrow>
     path_params m = [] \<and>
     matched_prefix_len m = (case listen_path (proxy m) of None \<Rightarrow> 0 | Some lp \<Rightarrow> length lp)"

lemma strip_prefix_starts: "strip_str_prefix pre s = Some r \<Longrightarrow> starts_with pre s"
  by (auto simp: strip_str_prefix_def starts_with_def split: if_splits)

lemma stage_shape:
  assumes "regex_contract lib" and "stage_search lib cfg host_opt path f ctx (hc, pc) = Some m"
  shows "is_regex_proxy (proxy m) \<or> is_exact_path_proxy (proxy m) \<or> prefix_shape m"
proof (cases pc)
  case PrefixPath
  with assms(2) prefixes.tier_search_SomeD [of hc host_opt "path_entry False (tls_of cfg) (skip_of cfg)" cfg f path ctx m]
  show ?thesis
    by (auto simp: stage_search_def entry_owner prefix_shape_def path_entry_def split: option.splits if_splits)
next
  case HostOnly
  with assms(2) host_onlys.tier_search_SomeD [of hc host_opt "host_only_entry (tls_of cfg) (skip_of cfg)" cfg ctx m]
  obtain c where "host_only_entry (tls_of cfg) (skip_of cfg) (proxy m) = Some c" "path_params m = []" "matched_prefix_len m = 0"
    by (auto simp: stage_search_def entry_owner)
  then show ?thesis by (simp add: prefix_shape_def host_only_entry_def split: if_splits)
next
  case ExactPath
  with stage_sound [OF assms] show ?thesis
    by (auto simp: serves_def path_serves_def is_exact_path_proxy_def split: option.splits
        dest: strip_prefix_starts)
next
  case RegexPath
  with stage_sound [OF assms] show ?thesis
    by (auto simp: serves_def path_serves_def is_regex_proxy_def split: option.splits
        dest: strip_prefix_starts)
qed

lemma search_shape:
  assumes "regex_contract lib"
    and "search_route_table lib (build_route_table lib cfg) host_opt path f ctx = Some m"
  shows "is_regex_proxy (proxy m) \<or> is_exact_path_proxy (proxy m) \<or> prefix_shape m"
proof -
  from first_some_SomeD [OF assms(2) [unfolded search_stages]] obtain hc pc where
    "stage_search lib cfg host_opt path f ctx (hc, pc) = Some m" by auto
  then show ?thesis by (rule stage_shape [OF assms(1)])
qed

end
