(* ===== verification/Freq_Sketch.thy ===== *)
theory Freq_Sketch
  imports Ferrum_Prelude
begin

text \<open>
  \<^verbatim>\<open>src/src/router_cache.rs\<close>: \<^verbatim>\<open>CountMinSketch\<close>, the frequency estimate behind the eviction of the
  route caches. Two rows of saturating byte counters, incremental aging in chunks, and reset. The
  operations run without interference here.
\<close>

unbundle bit_operations_syntax

section \<open>The sketch\<close>

definition CMS_AGE_CHUNK :: nat where
  "CMS_AGE_CHUNK = 256"

record CountMinSketch =
  row0 :: "u8 list"
  row1 :: "u8 list"
  width_mask :: nat
  total_increments :: u64
  age_threshold :: u64
  age_remaining :: nat
  age_pending :: bool
  age_owner :: bool

text \<open>\<open>usize::next_power_of_two\<close>.\<close>

function next_power_from :: "nat \<Rightarrow> nat \<Rightarrow> nat" where
  "next_power_from p n = (if n \<le> p \<or> p = 0 then p else next_power_from (2 * p) n)"
  by pat_completeness auto
termination
  by (relation "measure (\<lambda>(p, n). n - p)") auto

declare next_power_from.simps [simp del]

definition next_power_of_two :: "nat \<Rightarrow> nat" where
  "next_power_of_two n = next_power_from 1 n"

definition new_CountMinSketch :: "nat \<Rightarrow> u64 \<Rightarrow> CountMinSketch" where
  "new_CountMinSketch width threshold =
     (let width = next_power_of_two width in
      \<lparr>row0 = replicate width 0, row1 = replicate width 0, width_mask = width - 1, total_increments = 0,
       age_threshold = max threshold 1, age_remaining = 0, age_pending = False, age_owner = False\<rparr>)"

definition sketch_width :: "CountMinSketch \<Rightarrow> nat" where
  "sketch_width s = width_mask s + 1"

definition total_cells :: "CountMinSketch \<Rightarrow> nat" where
  "total_cells s = sketch_width s * 2"

definition fnv1a :: "string \<Rightarrow> u64 \<Rightarrow> u64" where
  "fnv1a key seed =
     foldl (\<lambda>hash byte. (hash XOR of_char byte) * 0x100000001b3) (0xcbf29ce484222325 XOR seed) key"

definition hash0 :: "CountMinSketch \<Rightarrow> string \<Rightarrow> nat" where
  "hash0 s key = unat (fnv1a key 0) AND width_mask s"

definition hash1 :: "CountMinSketch \<Rightarrow> string \<Rightarrow> nat" where
  "hash1 s key = unat (fnv1a key 0x9e3779b97f4a7c15) AND width_mask s"

definition arm_aging :: "CountMinSketch \<Rightarrow> CountMinSketch" where
  "arm_aging s =
     (if age_remaining s = 0 then s\<lparr>age_remaining := total_cells s\<rparr> else s\<lparr>age_pending := True\<rparr>)"

definition age_cell :: "nat \<Rightarrow> CountMinSketch \<Rightarrow> CountMinSketch" where
  "age_cell flat s =
     (if flat < sketch_width s then s\<lparr>row0 := (row0 s)[flat := drop_bit 1 (row0 s ! flat)]\<rparr>
      else s\<lparr>row1 := (row1 s)[flat - sketch_width s := drop_bit 1 (row1 s ! (flat - sketch_width s))]\<rparr>)"

definition age_cells_in_range :: "nat \<Rightarrow> nat \<Rightarrow> CountMinSketch \<Rightarrow> CountMinSketch" where
  "age_cells_in_range start stop s = fold age_cell [start..<stop] s"

definition age_chunk :: "CountMinSketch \<Rightarrow> CountMinSketch" where
  "age_chunk s =
     (let remaining = age_remaining s;
          n = min remaining CMS_AGE_CHUNK;
          s = age_cells_in_range (remaining - n) remaining s
      in s\<lparr>age_remaining := remaining - n, age_owner := False\<rparr>)"

definition age_step :: "CountMinSketch \<Rightarrow> CountMinSketch" where
  "age_step s =
     (if age_remaining s = 0 \<and> \<not> age_pending s then s
      else if age_owner s then s
      else
        (let s = s\<lparr>age_owner := True\<rparr> in
         if age_remaining s = 0 then
           (if \<not> age_pending s then s\<lparr>age_owner := False\<rparr>
            else
              (let s = s\<lparr>age_pending := False, age_remaining := total_cells s\<rparr> in
               if age_remaining s = 0 then s\<lparr>age_owner := False\<rparr> else age_chunk s))
         else age_chunk s))"

definition saturating_inc :: "u8 \<Rightarrow> u8" where
  "saturating_inc v = (if v < 255 then v + 1 else v)"

definition increment :: "string \<Rightarrow> CountMinSketch \<Rightarrow> u8 \<times> CountMinSketch" where
  "increment key s =
     (let h0 = hash0 s key;
          h1 = hash1 s key;
          c0 = saturating_inc (row0 s ! h0);
          c1 = saturating_inc (row1 s ! h1);
          s = s\<lparr>row0 := (row0 s)[h0 := c0], row1 := (row1 s)[h1 := c1]\<rparr>;
          total = total_increments s + 1;
          s = s\<lparr>total_increments := total\<rparr>;
          s = (if total mod age_threshold s = 0 then arm_aging s else s)
      in (min c0 c1, age_step s))"

definition estimate :: "CountMinSketch \<Rightarrow> string \<Rightarrow> u8" where
  "estimate s key = min (row0 s ! hash0 s key) (row1 s ! hash1 s key)"

definition reset :: "CountMinSketch \<Rightarrow> CountMinSketch" where
  "reset s =
     s\<lparr>row0 := map (\<lambda>_. 0) (row0 s), row1 := map (\<lambda>_. 0) (row1 s), total_increments := 0,
       age_remaining := 0, age_pending := False, age_owner := False\<rparr>"

section \<open>Well-formedness\<close>

definition wf_sketch :: "CountMinSketch \<Rightarrow> bool" where
  "wf_sketch s \<longleftrightarrow>
     (\<exists>k. sketch_width s = 2 ^ k) \<and> length (row0 s) = sketch_width s \<and> length (row1 s) = sketch_width s \<and>
     age_threshold s \<noteq> 0 \<and> age_remaining s \<le> total_cells s \<and> \<not> age_owner s"

lemma next_power_from_power: "\<exists>j. next_power_from (2 ^ k) n = 2 ^ j"
proof (induction "n - 2 ^ k" arbitrary: k rule: less_induct)
  case less
  show ?case
  proof (cases "n \<le> 2 ^ k")
    case False
    moreover have "0 < (2 :: nat) ^ k" by simp
    ultimately have "n - 2 ^ Suc k < n - 2 ^ k" unfolding power_Suc by linarith
    with less [of "Suc k"] False show ?thesis by (simp add: next_power_from.simps [of "2 ^ k"])
  qed (auto simp: next_power_from.simps [of "2 ^ k"])
qed

lemma next_power_of_two_power: "\<exists>k. next_power_of_two n = 2 ^ k"
  using next_power_from_power [of 0 n] by (simp add: next_power_of_two_def)

lemma next_power_from_ge: "0 < p \<Longrightarrow> n \<le> next_power_from p n"
proof (induction p n rule: next_power_from.induct)
  case (1 p n)
  then show ?case by (cases "n \<le> p") (simp_all add: next_power_from.simps [of p])
qed

lemma wf_new_sketch: "wf_sketch (new_CountMinSketch width threshold)"
proof -
  obtain k where "next_power_of_two width = 2 ^ k" using next_power_of_two_power by blast
  moreover have "max threshold 1 \<noteq> (0 :: u64)"
    by (metis max.cobounded2 word_le_0_iff zero_neq_one)
  ultimately show ?thesis by (auto simp: wf_sketch_def new_CountMinSketch_def sketch_width_def Let_def)
qed

lemma hash_in_range:
  assumes "wf_sketch s"
  shows "hash0 s key < length (row0 s)" and "hash1 s key < length (row1 s)"
proof -
  from assms obtain k where w: "width_mask s + 1 = 2 ^ k" "length (row0 s) = 2 ^ k" "length (row1 s) = 2 ^ k"
    by (auto simp: wf_sketch_def sketch_width_def)
  then have "width_mask s = mask k" by (simp add: mask_eq_exp_minus_1)
  note k = this w(2,3)
  show "hash0 s key < length (row0 s)" "hash1 s key < length (row1 s)"
    by (simp_all add: hash0_def hash1_def k flip: take_bit_eq_mask)
qed

lemma age_cell_frame [simp]:
  "width_mask (age_cell i s) = width_mask s" "total_increments (age_cell i s) = total_increments s"
  "age_threshold (age_cell i s) = age_threshold s" "age_remaining (age_cell i s) = age_remaining s"
  "age_pending (age_cell i s) = age_pending s" "age_owner (age_cell i s) = age_owner s"
  "sketch_width (age_cell i s) = sketch_width s"
  "length (row0 (age_cell i s)) = length (row0 s)" "length (row1 (age_cell i s)) = length (row1 s)"
  by (simp_all add: age_cell_def sketch_width_def)

lemma age_fold_frame:
  "width_mask (fold age_cell js s) = width_mask s" "total_increments (fold age_cell js s) = total_increments s"
  "age_threshold (fold age_cell js s) = age_threshold s" "age_remaining (fold age_cell js s) = age_remaining s"
  "age_pending (fold age_cell js s) = age_pending s" "age_owner (fold age_cell js s) = age_owner s"
  "sketch_width (fold age_cell js s) = sketch_width s"
  "length (row0 (fold age_cell js s)) = length (row0 s)" "length (row1 (fold age_cell js s)) = length (row1 s)"
  by (induction js arbitrary: s) simp_all

lemma age_range_frame [simp]:
  "width_mask (age_cells_in_range a b s) = width_mask s" "total_increments (age_cells_in_range a b s) = total_increments s"
  "age_threshold (age_cells_in_range a b s) = age_threshold s" "age_remaining (age_cells_in_range a b s) = age_remaining s"
  "age_pending (age_cells_in_range a b s) = age_pending s" "age_owner (age_cells_in_range a b s) = age_owner s"
  "sketch_width (age_cells_in_range a b s) = sketch_width s"
  "length (row0 (age_cells_in_range a b s)) = length (row0 s)" "length (row1 (age_cells_in_range a b s)) = length (row1 s)"
  by (simp_all add: age_cells_in_range_def age_fold_frame)

lemma wf_arm: "wf_sketch s \<Longrightarrow> wf_sketch (arm_aging s)"
  by (simp add: wf_sketch_def arm_aging_def total_cells_def sketch_width_def)

lemma wf_age_chunk: "wf_sketch (s\<lparr>age_owner := False\<rparr>) \<Longrightarrow> wf_sketch (age_chunk s)"
  by (auto simp: wf_sketch_def age_chunk_def Let_def total_cells_def sketch_width_def)

lemma wf_age_step: "wf_sketch s \<Longrightarrow> wf_sketch (age_step s)"
  by (auto simp: age_step_def Let_def intro!: wf_age_chunk) (auto simp: wf_sketch_def total_cells_def sketch_width_def)

lemma wf_increment: "wf_sketch s \<Longrightarrow> wf_sketch (snd (increment key s))"
  by (auto simp: increment_def Let_def intro!: wf_age_step wf_arm)
    (auto simp: wf_sketch_def total_cells_def sketch_width_def)

lemma wf_reset: "wf_sketch s \<Longrightarrow> wf_sketch (reset s)"
  by (auto simp: wf_sketch_def reset_def total_cells_def sketch_width_def)

section \<open>Counting\<close>

definition increments :: "string list \<Rightarrow> CountMinSketch \<Rightarrow> CountMinSketch" where
  "increments keys s = fold (\<lambda>key s. snd (increment key s)) keys s"

text \<open>A sketch that has counted \<open>n\<close> increments with no aging owed.\<close>

definition quiet :: "nat \<Rightarrow> CountMinSketch \<Rightarrow> bool" where
  "quiet n s \<longleftrightarrow>
     wf_sketch s \<and> age_remaining s = 0 \<and> \<not> age_pending s \<and> total_increments s = of_nat n \<and> n < unat (age_threshold s)"

lemma increment_quiet:
  assumes "quiet n s" and "Suc n < unat (age_threshold s)"
  shows "snd (increment key s) =
    s\<lparr>row0 := (row0 s)[hash0 s key := saturating_inc (row0 s ! hash0 s key)],
      row1 := (row1 s)[hash1 s key := saturating_inc (row1 s ! hash1 s key)],
      total_increments := of_nat (Suc n)\<rparr>"
proof -
  let ?t = "age_threshold s"
  have "unat (of_nat (Suc n) :: u64) = Suc n"
    using assms(2) unsigned_less [of ?t, where ?'a = nat]
    by (simp add: unsigned_of_nat take_bit_nat_eq_self del: of_nat_Suc)
  then have "unat (of_nat (Suc n) mod ?t) = Suc n" using assms(2) by (simp add: unat_mod)
  then have "of_nat (Suc n) mod ?t \<noteq> 0" by (metis Zero_not_Suc unat_0)
  with assms show ?thesis by (simp add: increment_def Let_def quiet_def age_step_def add.commute)
qed

lemma quiet_increment: "quiet n s \<Longrightarrow> Suc n < unat (age_threshold s) \<Longrightarrow> quiet (Suc n) (snd (increment key s))"
  using wf_increment [of s key] by (simp add: increment_quiet) (simp add: quiet_def)

lemma unat_saturating_inc: "unat (saturating_inc v) = min (Suc (unat v)) 255"
proof (cases "v < 255")
  case True
  then have "unat v < 255" by (simp add: word_less_nat_alt)
  moreover from this have "unat (v + 1) = Suc (unat v)" by (simp add: unat_word_ariths)
  ultimately show ?thesis using True by (simp add: saturating_inc_def)
next
  case False
  then have "255 \<le> unat v" by (simp add: word_less_nat_alt not_less)
  moreover have "unat v < 256" using unsigned_less [of v] by simp
  ultimately show ?thesis using False by (simp add: saturating_inc_def)
qed

definition counted :: "CountMinSketch \<Rightarrow> string \<Rightarrow> nat \<Rightarrow> bool" where
  "counted s key c \<longleftrightarrow> min c 255 \<le> unat (row0 s ! hash0 s key) \<and> min c 255 \<le> unat (row1 s ! hash1 s key)"

lemma counted_update:
  assumes "i < length xs" "j < length xs" "min c 255 \<le> unat (xs ! i)" "P \<Longrightarrow> i = j"
  shows "min (if P then Suc c else c) 255 \<le> unat (xs[j := saturating_inc (xs ! j)] ! i)"
  using assms by (cases "i = j") (auto simp: unat_saturating_inc nth_list_update)

lemma counted_increment:
  assumes "quiet n s" "Suc n < unat (age_threshold s)" "counted s key c"
  shows "counted (snd (increment k s)) key (if k = key then Suc c else c)"
proof -
  have wf: "wf_sketch s" using assms(1) by (simp add: quiet_def)
  note range = hash_in_range [OF wf]
  have "min (if k = key then Suc c else c) 255 \<le>
      unat ((row0 s)[hash0 s k := saturating_inc (row0 s ! hash0 s k)] ! hash0 s key)"
    by (rule counted_update) (use range assms(3) in \<open>auto simp: counted_def\<close>)
  moreover have "min (if k = key then Suc c else c) 255 \<le>
      unat ((row1 s)[hash1 s k := saturating_inc (row1 s ! hash1 s k)] ! hash1 s key)"
    by (rule counted_update) (use range assms(3) in \<open>auto simp: counted_def\<close>)
  ultimately show ?thesis
    unfolding increment_quiet [OF assms(1,2)] by (simp add: counted_def hash0_def hash1_def)
qed

lemma counted_increments:
  "quiet n s \<Longrightarrow> n + length keys < unat (age_threshold s) \<Longrightarrow> counted s key c \<Longrightarrow>
   counted (increments keys s) key (c + count_list keys key)"
proof (induction keys arbitrary: n s c)
  case (Cons k keys)
  then have small: "Suc n < unat (age_threshold s)" by simp
  have thr: "age_threshold (snd (increment k s)) = age_threshold s"
    by (simp add: increment_quiet [OF Cons.prems(1) small])
  show ?case
    using Cons.IH [OF quiet_increment [OF Cons.prems(1) small, of k] _ counted_increment [OF Cons.prems(1) small Cons.prems(3), of k]]
      Cons.prems(2) thr
    by (auto simp: increments_def split: if_splits)
qed (simp add: increments_def)

text \<open>
  The sketch never undercounts. As long as fewer increments than the aging threshold have been
  counted, the estimate of every key is at least the number of its increments, capped at 255;
  collisions can only raise it. So within one aging period no frequently used route can look colder
  than it is when an eviction pass compares frequencies.
\<close>

theorem estimate_never_undercounts:
  assumes "length keys < unat (max threshold 1)"
  shows "min (count_list keys key) 255 \<le> unat (estimate (increments keys (new_CountMinSketch width threshold)) key)"
proof -
  let ?s = "new_CountMinSketch width threshold"
  have wf: "wf_sketch ?s" by (rule wf_new_sketch)
  have "quiet 0 ?s" using wf assms by (auto simp: quiet_def new_CountMinSketch_def Let_def)
  moreover have "counted ?s key 0" by (simp add: counted_def)
  ultimately have "counted (increments keys ?s) key (count_list keys key)"
    using counted_increments [of 0 ?s keys key 0] assms by (simp add: new_CountMinSketch_def Let_def)
  then show ?thesis by (auto simp: counted_def estimate_def min_def [of "row0 _ ! _"])
qed

theorem estimate_never_undercounts_witness:
  "length [''a'', ''b'', ''a''] < unat (max (100 :: u64) 1) \<and>
   min (count_list [''a'', ''b'', ''a''] ''a'') 255 \<le>
     unat (estimate (increments [''a'', ''b'', ''a''] (new_CountMinSketch 4 100)) ''a'')"
  using estimate_never_undercounts [of "[''a'', ''b'', ''a'']" 100 "''a''" 4] by simp

end
