(* ===== verification/Cache_Eviction.thy ===== *)
theory Cache_Eviction
  imports Freq_Sketch "HOL-Library.AList" "HOL-Library.Multiset"
begin

text \<open>
  \<^verbatim>\<open>src/src/router_cache.rs\<close>: one bounded partition of the route lookup cache, its insertion and its
  frequency-guided eviction. A \<^verbatim>\<open>DashMap\<close> is an association list with distinct keys and an
  \<^verbatim>\<open>ArrayQueue\<close> a list, oldest first. Two orders the program does not fix are the parameter \<open>ord\<close>:
  in which order a map is iterated, and how \<^verbatim>\<open>select_nth_unstable_by_key\<close> permutes its slice.
\<close>

section \<open>Partitions\<close>

definition ROUTER_CACHE_EVICTION_SAMPLE_LIMIT :: nat where
  "ROUTER_CACHE_EVICTION_SAMPLE_LIMIT = 256"

definition ROUTER_CACHE_EVICTION_MAX_REMOVALS :: nat where
  "ROUTER_CACHE_EVICTION_MAX_REMOVALS = 64"

definition HEAD_BLEND_PERIOD :: u64 where
  "HEAD_BLEND_PERIOD = 8"

definition ROUTER_CACHE_EVICTION_RING_CAPACITY :: nat where
  "ROUTER_CACHE_EVICTION_RING_CAPACITY = 4096"

record runtime_order =
  iter_keys :: "string list \<Rightarrow> string list"
  select_nth :: "nat \<Rightarrow> (string \<times> u8) list \<Rightarrow> (string \<times> u8) list"

definition order_contract :: "runtime_order \<Rightarrow> bool" where
  "order_contract ord \<longleftrightarrow>
     (\<forall>ks. mset (iter_keys ord ks) = mset ks) \<and>
     (\<forall>n xs. n < length xs \<longrightarrow>
        mset (select_nth ord n xs) = mset xs \<and>
        (\<forall>i j. i \<le> n \<longrightarrow> n < j \<longrightarrow> j < length xs \<longrightarrow>
           snd (select_nth ord n xs ! i) \<le> snd (select_nth ord n xs ! j)))"

record 'v cache_partition =
  cache_map :: "(string \<times> 'v) list"
  cache_entries :: nat
  eviction_counter :: u64
  eviction_attempts :: u64
  reservoir :: "string list"

definition empty_partition :: "'v cache_partition" where
  "empty_partition =
     \<lparr>cache_map = [], cache_entries = 0, eviction_counter = 0, eviction_attempts = 0, reservoir = []\<rparr>"

definition force_push :: "string \<Rightarrow> string list \<Rightarrow> string list" where
  "force_push key q = (if length q < ROUTER_CACHE_EVICTION_RING_CAPACITY then q @ [key] else tl q @ [key])"

section \<open>Eviction\<close>

text \<open>The set \<open>seen\<close> of the code always holds the keys of the sample.\<close>

definition sampled :: "string \<Rightarrow> (string \<times> u8) list \<Rightarrow> bool" where
  "sampled key sample \<longleftrightarrow> key \<in> fst ` set sample"

primrec pop_sample ::
  "(string \<times> 'v) list \<Rightarrow> CountMinSketch \<Rightarrow> nat \<Rightarrow> nat \<Rightarrow> (string \<times> u8) list \<Rightarrow> string list \<Rightarrow>
   (string \<times> u8) list \<times> string list" where
  "pop_sample m sketch budget 0 sample q = (sample, q)"
| "pop_sample m sketch budget (Suc pops) sample q =
     (if budget \<le> length sample then (sample, q)
      else
        (case q of
           [] \<Rightarrow> (sample, q)
         | key # q \<Rightarrow>
             if map_of m key = None then pop_sample m sketch budget pops sample q
             else if sampled key sample then pop_sample m sketch budget pops sample q
             else pop_sample m sketch budget pops (sample @ [(key, estimate sketch key)]) q))"

definition blend_key :: "CountMinSketch \<Rightarrow> string \<Rightarrow> (string \<times> u8) list \<Rightarrow> (string \<times> u8) list" where
  "blend_key sketch key sample = (if sampled key sample then sample else sample @ [(key, estimate sketch key)])"

definition blend_resident_keys ::
  "runtime_order \<Rightarrow> (string \<times> 'v) list \<Rightarrow> CountMinSketch \<Rightarrow> nat \<Rightarrow> nat \<Rightarrow> nat \<Rightarrow>
   (string \<times> u8) list \<Rightarrow> (string \<times> u8) list" where
  "blend_resident_keys ord m sketch rotation budget sample_size sample =
     (if budget = 0 then sample
      else
        (let offset = (rotation * budget) mod 2 ^ 64 mod (sample_size + 1) in
         fold (blend_key sketch) (take budget (drop offset (iter_keys ord (map fst m)))) sample))"

definition remove_victim :: "string \<times> u8 \<Rightarrow> nat \<times> (string \<times> 'v) list \<Rightarrow> nat \<times> (string \<times> 'v) list" where
  "remove_victim victim st =
     (case st of (removed, m) \<Rightarrow>
        if map_of m (fst victim) \<noteq> None then (removed + 1, AList.delete (fst victim) m) else (removed, m))"

definition gather_sample ::
  "runtime_order \<Rightarrow> (string \<times> 'v) list \<Rightarrow> string list \<Rightarrow> CountMinSketch \<Rightarrow> nat \<Rightarrow> nat \<Rightarrow> u64 \<Rightarrow>
   (string \<times> u8) list \<times> string list" where
  "gather_sample ord m q sketch sample_size target_removals blend_rotation =
     (let blend_active = (blend_rotation \<noteq> 0 \<and> blend_rotation mod HEAD_BLEND_PERIOD = 0);
          head_reserve = (if blend_active then max (sample_size div 4) 1 else 0);
          reservoir_budget = sample_size - head_reserve;
          (sample, q) = pop_sample m sketch reservoir_budget (sample_size * 2) [] q;
          sample =
            (if blend_active
             then blend_resident_keys ord m sketch (unat (blend_rotation div HEAD_BLEND_PERIOD))
                    (min head_reserve (sample_size - length sample)) sample_size sample
             else sample);
          sample =
            (if length sample < target_removals * 2
             then blend_resident_keys ord m sketch 0 (sample_size - length sample) sample_size sample
             else sample)
      in (sample, q))"

definition evict_size :: "nat \<Rightarrow> nat" where
  "evict_size max_entries = min max_entries ROUTER_CACHE_EVICTION_SAMPLE_LIMIT"

definition evict_target :: "nat \<Rightarrow> nat" where
  "evict_target sample_size = clamp (sample_size div 4) 1 ROUTER_CACHE_EVICTION_MAX_REMOVALS"

definition frequency_aware_evict ::
  "runtime_order \<Rightarrow> (string \<times> 'v) list \<Rightarrow> string list \<Rightarrow> CountMinSketch \<Rightarrow> nat \<Rightarrow> u64 \<Rightarrow>
   nat \<times> (string \<times> 'v) list \<times> string list" where
  "frequency_aware_evict ord m q sketch max_entries blend_rotation =
     (let sample_size = evict_size max_entries in
      if sample_size < 4 then (0, m, q)
      else
        (let target_removals = evict_target sample_size;
             (sample, q) = gather_sample ord m q sketch sample_size target_removals blend_rotation
         in if sample = [] then (0, m, q)
            else
              (let to_remove = min (length sample) target_removals;
                   sample = (if 0 < to_remove \<and> to_remove < length sample
                             then select_nth ord (to_remove - 1) sample else sample);
                   (removed, m) = fold remove_victim (take to_remove sample) (0, m);
                   q = fold (\<lambda>(key, _). force_push key) (drop to_remove sample) q
               in (removed, m, q))))"

definition subtract_cache_entries :: "nat \<Rightarrow> nat \<Rightarrow> nat" where
  "subtract_cache_entries entries removed = entries - removed"

definition evict_sample ::
  "runtime_order \<Rightarrow> CountMinSketch \<Rightarrow> nat \<Rightarrow> 'v cache_partition \<Rightarrow> 'v cache_partition" where
  "evict_sample ord sketch max_entries p =
     (let pass = eviction_attempts p + 1;
          (removed, m, q) = frequency_aware_evict ord (cache_map p) (reservoir p) sketch max_entries pass;
          p = p\<lparr>eviction_attempts := pass, cache_map := m, reservoir := q\<rparr>
      in if 0 < removed
         then p\<lparr>cache_entries := subtract_cache_entries (cache_entries p) removed,
                eviction_counter := eviction_counter p + of_nat removed\<rparr>
         else p)"

definition insert_cache_entry ::
  "runtime_order \<Rightarrow> CountMinSketch \<Rightarrow> nat \<Rightarrow> string \<Rightarrow> 'v \<Rightarrow> 'v cache_partition \<Rightarrow> 'v cache_partition" where
  "insert_cache_entry ord sketch max_entries cache_key e p =
     (let is_new = (map_of (cache_map p) cache_key = None);
          p = p\<lparr>cache_map := AList.update cache_key e (cache_map p),
                reservoir := force_push cache_key (reservoir p)\<rparr>
      in if is_new then
           (let entries = cache_entries p + 1;
                p = p\<lparr>cache_entries := entries\<rparr>
            in if max_entries < entries then evict_sample ord sketch max_entries p else p)
         else p)"

definition reconcile_cache_entries_after_clear :: "nat \<Rightarrow> nat \<Rightarrow> nat \<Rightarrow> nat" where
  "reconcile_cache_entries_after_clear entries map_len removed = max (entries - removed) map_len"

definition drain_reservoir :: "string list \<Rightarrow> string list" where
  "drain_reservoir q = drop ROUTER_CACHE_EVICTION_RING_CAPACITY q"

definition clear_partition :: "'v cache_partition \<Rightarrow> 'v cache_partition" where
  "clear_partition p =
     (let cleared = cache_entries p;
          p = p\<lparr>cache_map := []\<rparr>
      in p\<lparr>cache_entries := reconcile_cache_entries_after_clear (cache_entries p) (length (cache_map p)) cleared,
           reservoir := drain_reservoir (reservoir p)\<rparr>)"

section \<open>The sample\<close>

text \<open>A sample holds distinct resident keys with their estimates.\<close>

definition good_sample :: "(string \<times> 'v) list \<Rightarrow> CountMinSketch \<Rightarrow> (string \<times> u8) list \<Rightarrow> bool" where
  "good_sample m sketch sample \<longleftrightarrow>
     distinct (map fst sample) \<and> (\<forall>(key, freq) \<in> set sample. map_of m key \<noteq> None \<and> freq = estimate sketch key)"

lemma good_sample_snoc:
  "good_sample m sketch sample \<Longrightarrow> map_of m key \<noteq> None \<Longrightarrow> \<not> sampled key sample \<Longrightarrow>
   good_sample m sketch (sample @ [(key, estimate sketch key)])"
  by (auto simp: good_sample_def sampled_def)

lemma good_pop_sample:
  "good_sample m sketch sample \<Longrightarrow> good_sample m sketch (fst (pop_sample m sketch budget pops sample q))"
  by (induction pops arbitrary: sample q) (auto simp: good_sample_snoc split: list.split)

lemma pop_sample_length:
  "length sample \<le> budget \<Longrightarrow> length (fst (pop_sample m sketch budget pops sample q)) \<le> budget"
  by (induction pops arbitrary: sample q) (auto split: list.split)

lemma good_blend_keys:
  "good_sample m sketch sample \<Longrightarrow> (\<And>key. key \<in> set keys \<Longrightarrow> map_of m key \<noteq> None) \<Longrightarrow>
   good_sample m sketch (fold (blend_key sketch) keys sample)"
  by (induction keys arbitrary: sample) (auto simp: blend_key_def good_sample_snoc)

lemma blend_keys_grow: "sample \<noteq> [] \<or> keys \<noteq> [] \<Longrightarrow> fold (blend_key sketch) keys sample \<noteq> []"
proof (induction keys arbitrary: sample)
  case (Cons key keys)
  have "blend_key sketch key sample \<noteq> []" by (auto simp: blend_key_def sampled_def)
  with Cons.IH show ?case by simp
qed simp

lemma iter_keys_set: "order_contract ord \<Longrightarrow> set (iter_keys ord ks) = set ks \<and> length (iter_keys ord ks) = length ks"
  unfolding order_contract_def by (metis mset_eq_setD size_mset)

lemma good_blend_resident:
  assumes "order_contract ord" "good_sample m sketch sample"
  shows "good_sample m sketch (blend_resident_keys ord m sketch rotation budget sample_size sample)"
proof -
  have resident: "map_of m key \<noteq> None" if "key \<in> set (take i (drop j (iter_keys ord (map fst m))))" for key i j
  proof -
    have "key \<in> set (iter_keys ord (map fst m))" using that by (meson in_set_takeD in_set_dropD)
    then show ?thesis using iter_keys_set [OF assms(1), of "map fst m"] by (simp add: map_of_eq_None_iff)
  qed
  show ?thesis
    unfolding blend_resident_keys_def Let_def using good_blend_keys [OF assms(2) resident] assms(2) by simp
qed

lemma gather_sample_cases:
  obtains budget sample0 sample1 where
    "sample0 = fst (pop_sample m sketch budget (sample_size * 2) [] q)" "budget \<le> sample_size"
    "sample1 = sample0 \<or> (\<exists>r b. sample1 = blend_resident_keys ord m sketch r b sample_size sample0)"
    "fst (gather_sample ord m q sketch sample_size target rotation) =
       (if length sample1 < target * 2
        then blend_resident_keys ord m sketch 0 (sample_size - length sample1) sample_size sample1 else sample1)"
proof -
  let ?active = "rotation \<noteq> 0 \<and> rotation mod HEAD_BLEND_PERIOD = 0"
  let ?budget = "sample_size - (if ?active then max (sample_size div 4) 1 else 0)"
  let ?p = "pop_sample m sketch ?budget (sample_size * 2) [] q"
  let ?sample1 = "if ?active then blend_resident_keys ord m sketch (unat (rotation div HEAD_BLEND_PERIOD))
      (min (if ?active then max (sample_size div 4) 1 else 0) (sample_size - length (fst ?p))) sample_size (fst ?p) else fst ?p"
  show thesis
  proof (rule that [of "fst ?p" ?budget ?sample1])
    show "?sample1 = fst ?p \<or> (\<exists>r b. ?sample1 = blend_resident_keys ord m sketch r b sample_size (fst ?p))"
      by (cases ?active) (simp_all only: if_True if_False simp_thms, blast)
  qed (simp_all add: gather_sample_def Let_def split_beta)
qed

lemma gather_sample_good:
  assumes "order_contract ord"
  shows "good_sample m sketch (fst (gather_sample ord m q sketch sample_size target rotation))"
proof -
  obtain budget sample0 sample1 where *: "sample0 = fst (pop_sample m sketch budget (sample_size * 2) [] q)"
    "sample1 = sample0 \<or> (\<exists>r b. sample1 = blend_resident_keys ord m sketch r b sample_size sample0)"
    "fst (gather_sample ord m q sketch sample_size target rotation) =
       (if length sample1 < target * 2
        then blend_resident_keys ord m sketch 0 (sample_size - length sample1) sample_size sample1 else sample1)"
    by (rule gather_sample_cases)
  have "good_sample m sketch sample0" unfolding *(1) by (rule good_pop_sample) (simp add: good_sample_def)
  then have "good_sample m sketch sample1" using *(2) good_blend_resident [OF assms] by auto
  then show ?thesis unfolding *(3) by (auto intro: good_blend_resident [OF assms])
qed

lemma gather_sample_nonempty:
  assumes "order_contract ord" "m \<noteq> []" "0 < sample_size" "0 < target"
  shows "fst (gather_sample ord m q sketch sample_size target rotation) \<noteq> []"
proof -
  obtain budget sample0 sample1 where
    *: "fst (gather_sample ord m q sketch sample_size target rotation) =
       (if length sample1 < target * 2
        then blend_resident_keys ord m sketch 0 (sample_size - length sample1) sample_size sample1 else sample1)"
    by (rule gather_sample_cases)
  have "iter_keys ord (map fst m) \<noteq> []"
    using iter_keys_set [OF assms(1), of "map fst m"] assms(2) by (metis length_0_conv length_map)
  then show ?thesis
    using * assms(3,4) by (cases "sample1 = []") (auto simp: blend_resident_keys_def intro!: blend_keys_grow)
qed

section \<open>Victims\<close>

lemma remove_victims:
  assumes "distinct (map fst m)" "distinct (map fst vs)" "\<And>v. v \<in> set vs \<Longrightarrow> map_of m (fst v) \<noteq> None"
  shows "fold remove_victim vs (n, m) = (n + length vs, filter (\<lambda>(k, _). k \<notin> fst ` set vs) m)"
  using assms
proof (induction vs arbitrary: n m)
  case (Cons v vs)
  let ?m = "AList.delete (fst v) m"
  have "remove_victim v (n, m) = (n + 1, ?m)" using Cons.prems(3) [of v] by (simp add: remove_victim_def)
  moreover have "fold remove_victim vs (n + 1, ?m) = (n + 1 + length vs, filter (\<lambda>(k, _). k \<notin> fst ` set vs) ?m)"
  proof (rule Cons.IH)
    show "distinct (map fst ?m)" using Cons.prems(1) by (rule distinct_delete)
    show "distinct (map fst vs)" using Cons.prems(2) by simp
    show "map_of ?m (fst u) \<noteq> None" if "u \<in> set vs" for u
      using Cons.prems(2) Cons.prems(3) [of u] that by (auto simp: delete_conv' image_iff)
  qed
  ultimately show ?case by (auto simp: AList.delete_eq case_prod_unfold intro!: filter_cong)
qed (simp add: case_prod_unfold)

lemma map_of_filter_key: "map_of (filter (\<lambda>(k, _). P k) m) k = (if P k then map_of m k else None)"
  by (induction m) auto

lemma length_filter_out:
  assumes "distinct (map fst m)" "distinct ks" "\<And>k. k \<in> set ks \<Longrightarrow> map_of m k \<noteq> None"
  shows "length (filter (\<lambda>(k, _). k \<notin> set ks) m) + length ks = length m"
proof -
  have "set ks \<subseteq> fst ` set m" using assms(3) by (auto simp: map_of_eq_None_iff)
  then have "card (fst ` set m \<inter> set ks) = length ks" using assms(2) by (simp add: Int_absorb1 distinct_card)
  moreover have "length (filter (\<lambda>(k, _). k \<in> set ks) m) = card (fst ` set m \<inter> set ks)"
  proof -
    have "distinct (map fst (filter (\<lambda>(k, _). k \<in> set ks) m))" using assms(1) by (rule distinct_map_filter)
    then have "length (filter (\<lambda>(k, _). k \<in> set ks) m) = card (fst ` set (filter (\<lambda>(k, _). k \<in> set ks) m))"
      by (metis distinct_card length_map set_map)
    also have "fst ` set (filter (\<lambda>(k, _). k \<in> set ks) m) = fst ` set m \<inter> set ks" by force
    finally show ?thesis .
  qed
  ultimately show ?thesis using sum_length_filter_compl [of "\<lambda>(k, _). k \<in> set ks" m] by (simp add: case_prod_unfold)
qed

text \<open>The sample, cut at the removal target after the selection.\<close>

definition cut_sample :: "runtime_order \<Rightarrow> nat \<Rightarrow> (string \<times> u8) list \<Rightarrow> (string \<times> u8) list" where
  "cut_sample ord n sample = (if 0 < n \<and> n < length sample then select_nth ord (n - 1) sample else sample)"

lemma select_nth_contract:
  assumes "order_contract ord" "n < length xs"
  shows "mset (select_nth ord n xs) = mset xs"
    and "i \<le> n \<Longrightarrow> n < j \<Longrightarrow> j < length xs \<Longrightarrow> snd (select_nth ord n xs ! i) \<le> snd (select_nth ord n xs ! j)"
  using assms unfolding order_contract_def by blast+

lemma cut_sample_mset: "order_contract ord \<Longrightarrow> mset (cut_sample ord n sample) = mset sample"
  using select_nth_contract(1) [of ord "n - 1" sample] by (auto simp: cut_sample_def)

lemma cut_sample_ordered:
  assumes "order_contract ord" "v \<in> set (take n (cut_sample ord n sample))" "u \<in> set (drop n (cut_sample ord n sample))"
  shows "snd v \<le> snd u"
proof -
  let ?s = "cut_sample ord n sample"
  have len: "length ?s = length sample" using cut_sample_mset [OF assms(1)] by (metis size_mset)
  from assms(2) len obtain i where i: "i < n" "v = ?s ! i" by (auto simp: in_set_conv_nth)
  from assms(3) len obtain j where j: "j < length sample - n" "u = ?s ! (n + j)" by (auto simp: in_set_conv_nth)
  note ij = i j
  then have "0 < n" "n < length sample" by simp_all
  then have eq: "?s = select_nth ord (n - 1) sample" by (simp add: cut_sample_def)
  have "snd (select_nth ord (n - 1) sample ! i) \<le> snd (select_nth ord (n - 1) sample ! (n + j))"
    using ij(1,3) \<open>n < length sample\<close> by (intro select_nth_contract(2) [OF assms(1)]) auto
  then show ?thesis by (simp add: ij(2,4) eq)
qed

lemma evict_target_bounds: "0 < evict_target n" "evict_target n \<le> ROUTER_CACHE_EVICTION_MAX_REMOVALS"
  by (auto simp: evict_target_def clamp_def ROUTER_CACHE_EVICTION_MAX_REMOVALS_def)

text \<open>The sample of a pass and the keys it cuts off.\<close>

definition pass_sample ::
  "runtime_order \<Rightarrow> (string \<times> 'v) list \<Rightarrow> string list \<Rightarrow> CountMinSketch \<Rightarrow> nat \<Rightarrow> u64 \<Rightarrow> (string \<times> u8) list" where
  "pass_sample ord m q sketch max_entries rotation =
     fst (gather_sample ord m q sketch (evict_size max_entries) (evict_target (evict_size max_entries)) rotation)"

definition pass_victims ::
  "runtime_order \<Rightarrow> (string \<times> 'v) list \<Rightarrow> string list \<Rightarrow> CountMinSketch \<Rightarrow> nat \<Rightarrow> u64 \<Rightarrow> (string \<times> u8) list" where
  "pass_victims ord m q sketch max_entries rotation =
     (let sample = pass_sample ord m q sketch max_entries rotation;
          n = min (length sample) (evict_target (evict_size max_entries))
      in take n (cut_sample ord n sample))"

lemma pass_sample_good: "order_contract ord \<Longrightarrow> good_sample m sketch (pass_sample ord m q sketch max_entries rotation)"
  unfolding pass_sample_def by (rule gather_sample_good)

lemma pass_sample_nonempty:
  "order_contract ord \<Longrightarrow> m \<noteq> [] \<Longrightarrow> 4 \<le> max_entries \<Longrightarrow> pass_sample ord m q sketch max_entries rotation \<noteq> []"
  unfolding pass_sample_def
  by (rule gather_sample_nonempty) (simp_all add: evict_target_bounds evict_size_def ROUTER_CACHE_EVICTION_SAMPLE_LIMIT_def)

lemma pass_victims_props:
  assumes "order_contract ord"
    and sample_def: "sample = pass_sample ord m q sketch max_entries rotation"
    and vs_def: "vs = pass_victims ord m q sketch max_entries rotation"
  shows "length vs = min (length sample) (evict_target (evict_size max_entries))"
    and "distinct (map fst vs)" and "set vs \<subseteq> set sample"
    and "v \<in> set vs \<Longrightarrow> u \<in> set sample \<Longrightarrow> u \<notin> set vs \<Longrightarrow> snd v \<le> snd u"
    and "v \<in> set vs \<Longrightarrow> map_of m (fst v) \<noteq> None"
proof -
  let ?n = "min (length sample) (evict_target (evict_size max_entries))"
  let ?s = "cut_sample ord ?n sample"
  have vs: "vs = take ?n ?s" by (simp add: vs_def pass_victims_def sample_def Let_def)
  note ms = cut_sample_mset [OF assms(1), of ?n sample]
  have len: "length ?s = length sample" using ms by (metis size_mset)
  have set: "set ?s = set sample" using ms by (rule mset_eq_setD)
  have good: "good_sample m sketch sample" unfolding sample_def by (rule pass_sample_good [OF assms(1)])
  show "length vs = ?n" unfolding vs length_take len by simp
  have "mset (map fst ?s) = mset (map fst sample)" unfolding mset_map ms ..
  then have "distinct (map fst ?s)" using good mset_eq_imp_distinct_iff unfolding good_sample_def by blast
  then show "distinct (map fst vs)" unfolding vs by (metis distinct_take take_map)
  show sub: "set vs \<subseteq> set sample" unfolding vs using set by (auto dest: in_set_takeD)
  show "snd v \<le> snd u" if "v \<in> set vs" "u \<in> set sample" "u \<notin> set vs"
  proof -
    have "u \<in> set (drop ?n ?s)" using that(2,3) set unfolding vs by (metis Un_iff append_take_drop_id set_append)
    with that(1) show ?thesis unfolding vs by (rule cut_sample_ordered [OF assms(1)])
  qed
  show "map_of m (fst v) \<noteq> None" if "v \<in> set vs" using that sub good by (fastforce simp: good_sample_def)
qed

lemma evict_result:
  assumes "order_contract ord" "distinct (map fst m)"
    and "frequency_aware_evict ord m q sketch max_entries rotation = (r, m', q')"
  shows "evict_size max_entries < 4 \<and> r = 0 \<and> m' = m \<or>
    r = length (pass_victims ord m q sketch max_entries rotation) \<and>
    m' = filter (\<lambda>(k, _). k \<notin> fst ` set (pass_victims ord m q sketch max_entries rotation)) m"
proof (cases "evict_size max_entries < 4")
  case False
  let ?vs = "pass_victims ord m q sketch max_entries rotation"
  obtain sample q1 where g: "gather_sample ord m q sketch (evict_size max_entries)
      (evict_target (evict_size max_entries)) rotation = (sample, q1)" by fastforce
  have sample: "pass_sample ord m q sketch max_entries rotation = sample" by (simp add: pass_sample_def g)
  note props = pass_victims_props [OF assms(1) refl refl, where m = m and q = q and sketch = sketch and
      max_entries = max_entries and rotation = rotation]
  have victims: "fold remove_victim ?vs (0, m) = (length ?vs, filter (\<lambda>(k, _). k \<notin> fst ` set ?vs) m)"
    using remove_victims [OF assms(2) props(2,5), of 0] by simp
  have vs: "?vs = take (min (length sample) (evict_target (evict_size max_entries)))
      (cut_sample ord (min (length sample) (evict_target (evict_size max_entries))) sample)"
    by (simp add: pass_victims_def sample Let_def)
  show ?thesis
  proof (cases "sample = []")
    case True
    then have "?vs = []" unfolding vs by (simp add: cut_sample_def)
    moreover have "r = 0 \<and> m' = m"
      using assms(3) unfolding frequency_aware_evict_def Let_def if_not_P [OF False] g prod.case if_P [OF True] by simp
    ultimately show ?thesis by (simp add: case_prod_unfold)
  next
    case ne: False
    show ?thesis
      using assms(3)
      unfolding frequency_aware_evict_def Let_def if_not_P [OF False] g prod.case if_not_P [OF ne]
        cut_sample_def [symmetric] vs [symmetric] victims
      by blast
  qed
qed (use assms(3) in \<open>simp add: frequency_aware_evict_def\<close>)

lemma evict_kept:
  assumes "order_contract ord" "distinct (map fst m)"
    and "frequency_aware_evict ord m q sketch max_entries rotation = (r, m', q')"
  shows "distinct (map fst m')" and "r + length m' = length m" and "4 \<le> max_entries \<Longrightarrow> m \<noteq> [] \<Longrightarrow> 0 < r"
    and "map_of m' k = Some e \<Longrightarrow> map_of m k = Some e"
proof -
  let ?vs = "pass_victims ord m q sketch max_entries rotation"
  note props = pass_victims_props [OF assms(1) refl refl, where m = m and q = q and sketch = sketch and
      max_entries = max_entries and rotation = rotation]
  note result = evict_result [OF assms]
  have "length (filter (\<lambda>(k, _). k \<notin> set (map fst ?vs)) m) + length (map fst ?vs) = length m"
    using props(2,5) by (intro length_filter_out [OF assms(2)]) auto
  with result show "r + length m' = length m" by (auto simp: add.commute)
  show "distinct (map fst m')" using result assms(2) by (auto simp: distinct_map_filter)
  show "map_of m k = Some e" if "map_of m' k = Some e"
    using result that by (auto simp: map_of_filter_key split: if_splits)
  show "0 < r" if "4 \<le> max_entries" "m \<noteq> []"
    using result props(1) pass_sample_nonempty [OF assms(1) that(2,1), of q sketch rotation] that
      evict_target_bounds(1) [of "evict_size max_entries"]
    by (auto simp: evict_size_def ROUTER_CACHE_EVICTION_SAMPLE_LIMIT_def)
qed

text \<open>
  An eviction pass frees room and takes the coldest. On a non-empty partition with a limit of at
  least 4, a pass removes at least one and at most 64 entries, changes no other entry, and every
  removed key has an estimated frequency no higher than that of every sampled key it keeps. This
  holds for every iteration order of the map and every admissible selection.
\<close>

theorem eviction_takes_coldest:
  assumes "order_contract ord" "distinct (map fst m)" "m \<noteq> []" "4 \<le> max_entries"
    and "frequency_aware_evict ord m q sketch max_entries rotation = (r, m', q')"
  shows "0 < r \<and> r \<le> 64 \<and> r + length m' = length m \<and>
    (\<forall>k. map_of m' k \<noteq> None \<longrightarrow> map_of m' k = map_of m k) \<and>
    (\<forall>k k'. map_of m k \<noteq> None \<and> map_of m' k = None \<and>
       sampled k' (pass_sample ord m q sketch max_entries rotation) \<and> map_of m' k' \<noteq> None \<longrightarrow>
       estimate sketch k \<le> estimate sketch k')"
proof -
  let ?vs = "pass_victims ord m q sketch max_entries rotation"
  let ?sample = "pass_sample ord m q sketch max_entries rotation"
  note props = pass_victims_props [OF assms(1) refl refl, where m = m and q = q and sketch = sketch and
      max_entries = max_entries and rotation = rotation]
  note kept = evict_kept [OF assms(1,2,5)]
  have "r = length ?vs" and m': "m' = filter (\<lambda>(k, _). k \<notin> fst ` set ?vs) m"
    using evict_result [OF assms(1,2,5)] kept(3) [OF assms(4,3)] by auto
  then have "r \<le> 64"
    using props(1) evict_target_bounds(2) [of "evict_size max_entries"] by (simp add: ROUTER_CACHE_EVICTION_MAX_REMOVALS_def)
  moreover have "estimate sketch k \<le> estimate sketch k'"
    if k: "map_of m k \<noteq> None" "map_of m' k = None" "sampled k' ?sample" "map_of m' k' \<noteq> None" for k k'
  proof -
    obtain v where v: "v \<in> set ?vs" "fst v = k"
      using k(1,2) unfolding m' map_of_filter_key by (auto split: if_splits)
    obtain u where u: "u \<in> set ?sample" "fst u = k'" "u \<notin> set ?vs"
      using k(3,4) unfolding m' map_of_filter_key sampled_def by (auto split: if_splits)
    have "snd v = estimate sketch k" "snd u = estimate sketch k'"
      using pass_sample_good [OF assms(1), of m sketch q max_entries rotation] v u props(3)
      by (fastforce simp: good_sample_def)+
    with props(4) [OF v(1) u(1,3)] show ?thesis by simp
  qed
  ultimately show ?thesis using kept(2,4) kept(3) [OF assms(4,3)] by fastforce
qed

definition sorting_order :: runtime_order where
  "sorting_order = \<lparr>iter_keys = (\<lambda>ks. ks), select_nth = (\<lambda>n xs. sort_key snd xs)\<rparr>"

lemma sorting_order_contract: "order_contract sorting_order"
proof -
  have "snd (sort_key snd xs ! i) \<le> snd (sort_key snd xs ! j)" if "i \<le> j" "j < length xs"
    for i j and xs :: "(string \<times> u8) list"
    using sorted_nth_mono [OF sorted_sort_key [of snd xs] that(1)] that by simp
  then show ?thesis by (simp add: order_contract_def sorting_order_def)
qed

definition sample_cache :: "(string \<times> nat) list" where
  "sample_cache = [(''a'', 1), (''b'', 2), (''c'', 3), (''d'', 4), (''e'', 5)]"

theorem eviction_takes_coldest_witness:
  "\<exists>r m' q'. frequency_aware_evict sorting_order sample_cache [''a'', ''e''] (new_CountMinSketch 1024 16) 4 1 = (r, m', q') \<and>
     0 < r \<and> r \<le> 64 \<and> r + length m' = length sample_cache"
proof -
  let ?e = "frequency_aware_evict sorting_order sample_cache [''a'', ''e''] (new_CountMinSketch 1024 16) 4 1"
  obtain r m' q' where e: "?e = (r, m', q')" by (metis surj_pair)
  have "distinct (map fst sample_cache)" "sample_cache \<noteq> []" "4 \<le> (4 :: nat)" by (simp_all add: sample_cache_def)
  from eviction_takes_coldest [OF sorting_order_contract this e] e show ?thesis by blast
qed

section \<open>Bounded partitions\<close>

definition bounded_partition :: "nat \<Rightarrow> 'v cache_partition \<Rightarrow> bool" where
  "bounded_partition max_entries p \<longleftrightarrow>
     distinct (map fst (cache_map p)) \<and> cache_entries p = length (cache_map p) \<and> length (cache_map p) \<le> max_entries"

lemma evict_sample_props:
  assumes "order_contract ord" "distinct (map fst (cache_map p))" "cache_entries p = length (cache_map p)"
  shows "distinct (map fst (cache_map (evict_sample ord sketch n p)))"
    and "cache_entries (evict_sample ord sketch n p) = length (cache_map (evict_sample ord sketch n p))"
    and "4 \<le> n \<Longrightarrow> cache_map p \<noteq> [] \<Longrightarrow> length (cache_map (evict_sample ord sketch n p)) < length (cache_map p)"
    and "map_of (cache_map (evict_sample ord sketch n p)) k = Some e \<Longrightarrow> map_of (cache_map p) k = Some e"
proof -
  let ?pass = "eviction_attempts p + 1"
  obtain r m' q' where e: "frequency_aware_evict ord (cache_map p) (reservoir p) sketch n ?pass = (r, m', q')"
    by (metis surj_pair)
  note kept = evict_kept [OF assms(1,2) e]
  have res: "cache_map (evict_sample ord sketch n p) = m'"
    "cache_entries (evict_sample ord sketch n p) = cache_entries p - r"
    using e by (auto simp: evict_sample_def Let_def subtract_cache_entries_def)
  show "distinct (map fst (cache_map (evict_sample ord sketch n p)))" using kept(1) res by simp
  show "cache_entries (evict_sample ord sketch n p) = length (cache_map (evict_sample ord sketch n p))"
    using kept(2) res assms(3) by simp
  show "length (cache_map (evict_sample ord sketch n p)) < length (cache_map p)" if "4 \<le> n" "cache_map p \<noteq> []"
    using kept(2) kept(3) [OF that] res by simp
  show "map_of (cache_map p) k = Some e" if "map_of (cache_map (evict_sample ord sketch n p)) k = Some e"
    using kept(4) res that by simp
qed

lemma length_update_alist:
  "length (AList.update k v m) = (if map_of m k = None then Suc (length m) else length m)"
  by (induction m) auto

lemma insert_props:
  assumes "order_contract ord" "distinct (map fst (cache_map p))" "cache_entries p = length (cache_map p)"
  shows "4 \<le> n \<Longrightarrow> length (cache_map p) \<le> n \<Longrightarrow> length (cache_map (insert_cache_entry ord sketch n key e p)) \<le> n"
    and "distinct (map fst (cache_map (insert_cache_entry ord sketch n key e p)))"
    and "cache_entries (insert_cache_entry ord sketch n key e p) = length (cache_map (insert_cache_entry ord sketch n key e p))"
    and "map_of (cache_map (insert_cache_entry ord sketch n key e p)) k = Some x \<Longrightarrow>
      k = key \<and> x = e \<or> map_of (cache_map p) k = Some x"
proof -
  let ?m = "AList.update key e (cache_map p)"
  let ?p = "p\<lparr>cache_map := ?m, reservoir := force_push key (reservoir p)\<rparr>"
  let ?q = "?p\<lparr>cache_entries := cache_entries p + 1\<rparr>"
  have d: "distinct (map fst ?m)" using assms(2) by (rule distinct_update)
  have new: "cache_entries ?q = length (cache_map ?q)" if "map_of (cache_map p) key = None"
    using that assms(3) by (simp add: length_update_alist)
  have at: "map_of ?m k = Some x \<Longrightarrow> k = key \<and> x = e \<or> map_of (cache_map p) k = Some x"
    by (auto simp: update_conv' split: if_splits)
  have ins: "insert_cache_entry ord sketch n key e p =
      (if map_of (cache_map p) key \<noteq> None then ?p
       else if n < length (cache_map p) + 1 then evict_sample ord sketch n ?q else ?q)"
    by (simp add: insert_cache_entry_def Let_def assms(3))
  have "?m \<noteq> []" by (cases "cache_map p") auto
  have dq: "distinct (map fst (cache_map ?q))" using d by simp
  note ev = evict_sample_props [OF assms(1) dq]
  show "length (cache_map (insert_cache_entry ord sketch n key e p)) \<le> n" if "4 \<le> n" "length (cache_map p) \<le> n"
    using ev(3) [of n sketch] new that \<open>?m \<noteq> []\<close> unfolding ins by (auto simp: length_update_alist)
  show "distinct (map fst (cache_map (insert_cache_entry ord sketch n key e p)))"
    using ev(1) [of sketch n] new d unfolding ins by auto
  show "cache_entries (insert_cache_entry ord sketch n key e p) = length (cache_map (insert_cache_entry ord sketch n key e p))"
    using ev(2) [of sketch n] new assms(3) unfolding ins by (auto simp: length_update_alist)
  show "k = key \<and> x = e \<or> map_of (cache_map p) k = Some x"
    if "map_of (cache_map (insert_cache_entry ord sketch n key e p)) k = Some x"
    using ev(4) [of sketch n k x] new at that unfolding ins by (auto split: if_splits)
qed

lemma clear_partition_empty [simp]:
  "cache_map (clear_partition p) = []" "cache_entries (clear_partition p) = 0"
  by (simp_all add: clear_partition_def reconcile_cache_entries_after_clear_def Let_def)

end
