(* ===== verification/Router_Cache.thy ===== *)
theory Router_Cache
  imports Route_Pending Cache_Eviction
begin

text \<open>
  \<^verbatim>\<open>src/src/router_cache.rs\<close>, third part, and the route part of \<^verbatim>\<open>src/src/request_epoch.rs\<close>: the
  lookup cache in front of the route table, its keys, its two partitions, and the publication of
  epochs. Requests may still look routes up with an epoch that has been replaced; the theorems
  are about every interleaving of lookups, publications and cache clears.
\<close>

section \<open>Keys\<close>

fun normalize_loop :: "string \<Rightarrow> string" where
  "normalize_loop [] = []"
| "normalize_loop (b # rest) =
     (if b = CHR ''%'' \<and> 4 \<le> length rest \<and> take 3 rest = ''252'' \<and> rest ! 3 \<in> {CHR ''F'', CHR ''f''}
      then CHR ''/'' # normalize_loop (drop 4 rest)
      else if b = CHR ''%'' \<and> 2 \<le> length rest \<and> rest ! 0 = CHR ''2'' \<and> rest ! 1 \<in> {CHR ''F'', CHR ''f''}
      then CHR ''/'' # normalize_loop (drop 2 rest)
      else b # normalize_loop rest)"

definition normalize_encoded_slashes :: "string \<Rightarrow> string" where
  "normalize_encoded_slashes path = (if CHR ''%'' \<notin> set path then path else normalize_loop path)"

definition NUL :: char where
  "NUL = CHR 0x00"

definition write_cache_key :: "string option \<Rightarrow> string \<Rightarrow> u16 option \<Rightarrow> bool \<Rightarrow> string" where
  "write_cache_key host path port tls =
     (case host of None \<Rightarrow> [] | Some h \<Rightarrow> h) @ [NUL] @ path @ [NUL] @
     (case port of Some n \<Rightarrow> dec (unat n) | None \<Rightarrow> ''*'') @ [NUL] @ (if tls then ''t'' else ''p'')"

definition make_cache_key :: "string option \<Rightarrow> string \<Rightarrow> u16 option \<Rightarrow> bool \<Rightarrow> string" where
  "make_cache_key host path port tls = write_cache_key host path port tls"

section \<open>The cache\<close>

record RegexCacheEntry =
  re_proxy :: Proxy
  re_path_params :: "(string \<times> string) list"
  re_matched_len :: nat
  re_generation :: u64

record PrefixCacheEntry =
  pe_proxy :: "Proxy option"
  pe_generation :: u64

record RouteSnapshot =
  snap_table :: HostRouteTable
  snap_generation :: u64
  snap_admission :: GatewayListenerAdmission

record RouterCache =
  route_snapshot :: RouteSnapshot
  prefix_cache :: "PrefixCacheEntry cache_partition"
  regex_cache :: "RegexCacheEntry cache_partition"
  max_cache_entries :: nat
  frequency_sketch :: CountMinSketch

definition resolve_auto_router_cache_entries :: "nat \<Rightarrow> nat" where
  "resolve_auto_router_cache_entries proxy_count = clamp (proxy_count * 3) 10000 1000000"

definition with_shard_amount :: "regex_lib \<Rightarrow> GatewayConfig \<Rightarrow> nat \<Rightarrow> RouterCache" where
  "with_shard_amount lib cfg max_entries =
     (let max_entries = (if max_entries = 0 then resolve_auto_router_cache_entries (length (proxies cfg)) else max_entries);
          width = clamp (max_entries * 2) 1024 65536;
          threshold = max (saturating_mul (of_nat max_entries) 4) 1
      in \<lparr>route_snapshot = \<lparr>snap_table = build_route_table lib cfg, snap_generation = 1,
            snap_admission = admission_decided []\<rparr>,
          prefix_cache = empty_partition, regex_cache = empty_partition, max_cache_entries = max_entries,
          frequency_sketch = new_CountMinSketch width threshold\<rparr>)"

definition clear_lookup_caches :: "RouterCache \<Rightarrow> RouterCache" where
  "clear_lookup_caches rc =
     rc\<lparr>prefix_cache := clear_partition (prefix_cache rc), regex_cache := clear_partition (regex_cache rc),
        frequency_sketch := reset (frequency_sketch rc)\<rparr>"

definition store_route_epoch_snapshot ::
  "HostRouteTable \<Rightarrow> u64 \<Rightarrow> GatewayListenerAdmission \<Rightarrow> RouterCache \<Rightarrow> RouterCache" where
  "store_route_epoch_snapshot table route_generation admission rc =
     (let previous_generation = snap_generation (route_snapshot rc);
          rc = rc\<lparr>route_snapshot :=
            \<lparr>snap_table = table, snap_generation = route_generation, snap_admission = admission\<rparr>\<rparr>
      in if previous_generation \<noteq> route_generation then clear_lookup_caches rc else rc)"

definition insert_prefix_cache_entry :: "runtime_order \<Rightarrow> string \<Rightarrow> PrefixCacheEntry \<Rightarrow> RouterCache \<Rightarrow> RouterCache" where
  "insert_prefix_cache_entry ord key e rc =
     rc\<lparr>prefix_cache := insert_cache_entry ord (frequency_sketch rc) (max_cache_entries rc) key e (prefix_cache rc)\<rparr>"

definition insert_regex_cache_entry :: "runtime_order \<Rightarrow> string \<Rightarrow> RegexCacheEntry \<Rightarrow> RouterCache \<Rightarrow> RouterCache" where
  "insert_regex_cache_entry ord key e rc =
     rc\<lparr>regex_cache := insert_cache_entry ord (frequency_sketch rc) (max_cache_entries rc) key e (regex_cache rc)\<rparr>"

definition count_access :: "string \<Rightarrow> RouterCache \<Rightarrow> RouterCache" where
  "count_access key rc = rc\<lparr>frequency_sketch := snd (increment key (frequency_sketch rc))\<rparr>"

definition port_usable :: "GatewayListenerAdmission \<Rightarrow> Proxy \<Rightarrow> bool" where
  "port_usable admission p = (case listen_port p of None \<Rightarrow> True | Some port \<Rightarrow> allows admission port)"

text \<open>The two fast paths: a usable entry of the generation in the prefix partition, or else in the
  regex partition. The outer option is the hit, the inner one the cached result.\<close>

definition prefix_hit :: "u64 \<Rightarrow> GatewayListenerAdmission \<Rightarrow> PrefixCacheEntry \<Rightarrow> RouteMatch option option" where
  "prefix_hit route_generation admission cached =
     (if pe_generation cached = route_generation \<and>
         (case pe_proxy cached of None \<Rightarrow> True | Some p \<Rightarrow> port_usable admission p)
      then Some (map_option
        (\<lambda>p. \<lparr>proxy = p, path_params = [],
              matched_prefix_len = (case listen_path p of None \<Rightarrow> 0 | Some lp \<Rightarrow> length lp)\<rparr>) (pe_proxy cached))
      else None)"

definition regex_hit :: "u64 \<Rightarrow> GatewayListenerAdmission \<Rightarrow> RegexCacheEntry \<Rightarrow> RouteMatch option option" where
  "regex_hit route_generation admission cached =
     (if re_generation cached = route_generation \<and> port_usable admission (re_proxy cached)
      then Some (Some \<lparr>proxy = re_proxy cached, path_params = re_path_params cached,
                       matched_prefix_len = re_matched_len cached\<rparr>)
      else None)"

definition cached_match ::
  "u64 \<Rightarrow> GatewayListenerAdmission \<Rightarrow> string \<Rightarrow> RouterCache \<Rightarrow> RouteMatch option option" where
  "cached_match route_generation admission key rc =
     or_else (Option.bind (map_of (cache_map (prefix_cache rc)) key) (prefix_hit route_generation admission))
             (Option.bind (map_of (cache_map (regex_cache rc)) key) (regex_hit route_generation admission))"

definition store_result ::
  "runtime_order \<Rightarrow> u64 \<Rightarrow> string \<Rightarrow> RouteMatch option \<Rightarrow> RouterCache \<Rightarrow> RouterCache" where
  "store_result ord route_generation key result rc =
     (let rc = count_access key rc in
      case result of
        Some m \<Rightarrow>
          if path_params m \<noteq> [] \<or> is_regex_proxy (proxy m) \<or> is_exact_path_proxy (proxy m)
          then insert_regex_cache_entry ord key
                 \<lparr>re_proxy = proxy m, re_path_params = path_params m, re_matched_len = matched_prefix_len m,
                  re_generation = route_generation\<rparr> rc
          else insert_prefix_cache_entry ord key \<lparr>pe_proxy = Some (proxy m), pe_generation = route_generation\<rparr> rc
      | None \<Rightarrow> insert_prefix_cache_entry ord key \<lparr>pe_proxy = None, pe_generation = route_generation\<rparr> rc)"

definition find_proxy_with_admission ::
  "regex_lib \<Rightarrow> runtime_order \<Rightarrow> HostRouteTable \<Rightarrow> u64 \<Rightarrow> GatewayListenerAdmission \<Rightarrow> string option \<Rightarrow> string \<Rightarrow>
   u16 option \<Rightarrow> bool \<Rightarrow> RouterCache \<Rightarrow> RouteMatch option \<times> RouterCache" where
  "find_proxy_with_admission lib ord table route_generation admission host path port tls rc =
     (if (case port of Some n \<Rightarrow> explicitly_refuses admission n | None \<Rightarrow> False) then (None, rc)
      else
        (let path = normalize_encoded_slashes path;
             ctx = port_ctx table admission port tls;
             key = write_cache_key host path port tls
         in case cached_match route_generation admission key rc of
              Some result \<Rightarrow> (result, count_access key rc)
            | None \<Rightarrow>
                (let result = search_route_table lib table host path Unfiltered ctx;
                     cache_key = make_cache_key host path port tls
                 in (result, store_result ord route_generation cache_key result rc))))"

section \<open>Epochs\<close>

record RequestEpoch =
  route_table :: HostRouteTable
  gateway_listener_admission :: GatewayListenerAdmission
  config_generation :: u64
  route_generation :: u64

definition find_proxy_in_epoch ::
  "regex_lib \<Rightarrow> runtime_order \<Rightarrow> RequestEpoch \<Rightarrow> string option \<Rightarrow> string \<Rightarrow> u16 option \<Rightarrow> bool \<Rightarrow>
   RouterCache \<Rightarrow> RouteMatch option \<times> RouterCache" where
  "find_proxy_in_epoch lib ord epoch host path port tls rc =
     find_proxy_with_admission lib ord (route_table epoch) (route_generation epoch)
       (gateway_listener_admission epoch) host path port tls rc"

definition resolve_route_excluding_wrong_direction_in_epoch ::
  "regex_lib \<Rightarrow> RequestEpoch \<Rightarrow> string option \<Rightarrow> string \<Rightarrow> MeshTrafficDirection option \<Rightarrow> u16 option \<Rightarrow> bool \<Rightarrow>
   RouteMatch option" where
  "resolve_route_excluding_wrong_direction_in_epoch lib epoch host path req_direction port tls =
     search_route_table lib (route_table epoch) host (normalize_encoded_slashes path)
       (MatchingDirection req_direction)
       (port_ctx (route_table epoch) (gateway_listener_admission epoch) port tls)"

text \<open>The staged table is rebuilt when a route changed, else it is the current one.\<close>

definition staged_route_table :: "regex_lib \<Rightarrow> GatewayConfig \<Rightarrow> bool \<Rightarrow> RequestEpoch \<Rightarrow> HostRouteTable" where
  "staged_route_table lib new_config route_changed cur =
     (if route_changed then build_route_table lib new_config else route_table cur)"

definition update_config :: "regex_lib \<Rightarrow> GatewayConfig \<Rightarrow> bool \<Rightarrow> RequestEpoch \<Rightarrow> RequestEpoch" where
  "update_config lib new_config route_changed cur =
     \<lparr>route_table = staged_route_table lib new_config route_changed cur,
      gateway_listener_admission = admission_pending,
      config_generation = saturating_add (config_generation cur) 1,
      route_generation =
        (if route_changed then saturating_add (route_generation cur) 1 else route_generation cur)\<rparr>"

definition publish_gateway_listener_admission :: "u64 \<Rightarrow> u16 list \<Rightarrow> RequestEpoch \<Rightarrow> RequestEpoch option" where
  "publish_gateway_listener_admission expected_generation refused cur =
     (let admission = admission_decided refused in
      if config_generation cur \<noteq> expected_generation then None
      else if gateway_listener_admission cur = admission then Some cur
      else Some (cur\<lparr>gateway_listener_admission := admission,
                      route_generation := saturating_add (route_generation cur) 1\<rparr>))"

section \<open>The running gateway\<close>

record router_world =
  cache :: RouterCache
  current :: RequestEpoch
  past :: "RequestEpoch list"

text \<open>The host and the path of a request as the frontend delivers them: HTTP admits no NUL in
  either, and \<^verbatim>\<open>normalize_request_host_for_routing\<close> (\<^verbatim>\<open>src/src/proxy/mod.rs\<close>) filters the empty host.\<close>

definition valid_request :: "string option \<Rightarrow> string \<Rightarrow> bool" where
  "valid_request host path \<longleftrightarrow>
     NUL \<notin> set path \<and> (case host of None \<Rightarrow> True | Some h \<Rightarrow> h \<noteq> [] \<and> NUL \<notin> set h)"

inductive router_step :: "regex_lib \<Rightarrow> runtime_order \<Rightarrow> router_world \<Rightarrow> router_world \<Rightarrow> bool"
  for lib ord where
  lookup: "epoch = current w \<or> epoch \<in> set (past w) \<Longrightarrow> valid_request host path \<Longrightarrow>
     router_step lib ord w
       (w\<lparr>cache := snd (find_proxy_in_epoch lib ord epoch host path port tls (cache w))\<rparr>)"
| reload: "router_step lib ord w
     (w\<lparr>current := update_config lib new_config route_changed (current w), past := current w # past w\<rparr>)"
| admission: "publish_gateway_listener_admission expected refused (current w) = Some epoch \<Longrightarrow>
     router_step lib ord w (w\<lparr>current := epoch, past := current w # past w\<rparr>)"
| mirror: "router_step lib ord w
     (w\<lparr>cache := store_route_epoch_snapshot (route_table (current w)) (route_generation (current w))
          (gateway_listener_admission (current w)) (cache w)\<rparr>)"
| clear: "router_step lib ord w (w\<lparr>cache := clear_lookup_caches (cache w)\<rparr>)"

definition initial_world :: "regex_lib \<Rightarrow> GatewayConfig \<Rightarrow> nat \<Rightarrow> router_world" where
  "initial_world lib cfg max_entries =
     \<lparr>cache = with_shard_amount lib cfg max_entries,
      current = \<lparr>route_table = build_route_table lib cfg, gateway_listener_admission = admission_pending,
                 config_generation = 1, route_generation = 1\<rparr>,
      past = []\<rparr>"

inductive running :: "regex_lib \<Rightarrow> runtime_order \<Rightarrow> nat \<Rightarrow> router_world \<Rightarrow> bool"
  for lib ord max_entries where
  start: "running lib ord max_entries (initial_world lib cfg max_entries)"
| step: "running lib ord max_entries w \<Longrightarrow> router_step lib ord w w' \<Longrightarrow> running lib ord max_entries w'"

section \<open>Keys determine the request\<close>

lemma normalize_loop_set: "x \<in> set (normalize_loop s) \<Longrightarrow> x \<in> set s \<or> x = CHR ''/''"
  by (induction s rule: normalize_loop.induct) (auto split: if_splits dest: in_set_dropD)

lemma NUL_normalize: "NUL \<notin> set path \<Longrightarrow> NUL \<notin> set (normalize_encoded_slashes path)"
  using normalize_loop_set [of NUL path] by (auto simp: normalize_encoded_slashes_def NUL_def)

definition port_text :: "u16 option \<Rightarrow> string" where
  "port_text port = (case port of Some n \<Rightarrow> dec (unat n) | None \<Rightarrow> ''*'')"

lemma dec_avoids: "\<not> is_ascii_digit c \<Longrightarrow> c \<notin> set (dec n)"
  using dec_digits by blast

lemma NUL_port_text: "NUL \<notin> set (port_text port)"
  using dec_avoids [of NUL] by (auto simp: port_text_def NUL_def is_ascii_digit_def byte_of_def split: option.split)

lemma port_text_inj: "port_text a = port_text b \<longleftrightarrow> a = b"
proof -
  have "dec n \<noteq> ''*''" for n
    using dec_avoids [of "CHR ''*''" n] by (auto simp: is_ascii_digit_def byte_of_def)
  then have "dec n \<noteq> ''*''" "''*'' \<noteq> dec n" for n by (metis)+
  then show ?thesis
    by (cases a; cases b) (simp_all add: port_text_def word_unat_eq_iff)
qed

lemma write_cache_key_inj:
  assumes "valid_request host path" "valid_request host' path'"
    and "write_cache_key host (normalize_encoded_slashes path) port tls =
         write_cache_key host' (normalize_encoded_slashes path') port' tls'"
  shows "host = host' \<and> normalize_encoded_slashes path = normalize_encoded_slashes path' \<and> port = port' \<and> tls = tls'"
proof -
  let ?h = "\<lambda>host :: string option. case host of None \<Rightarrow> [] | Some h \<Rightarrow> h"
  let ?n = normalize_encoded_slashes
  have key: "write_cache_key host p port tls =
      ?h host @ NUL # (p @ NUL # (port_text port @ NUL # (if tls then ''t'' else ''p'')))" for host p port tls
    by (simp add: write_cache_key_def port_text_def)
  have h: "NUL \<notin> set (?h host)" "NUL \<notin> set (?h host')" and p: "NUL \<notin> set (?n path)" "NUL \<notin> set (?n path')"
    using assms(1,2) by (auto simp: valid_request_def NUL_normalize split: option.splits)
  note parts1 = split_at_separator [OF h assms(3) [unfolded key]]
  note parts2 = split_at_separator [OF p conjunct2 [OF parts1]]
  note parts3 = split_at_separator [OF NUL_port_text NUL_port_text conjunct2 [OF parts2]]
  have "host = host'"
    using conjunct1 [OF parts1] assms(1,2) by (auto simp: valid_request_def split: option.splits)
  moreover have "port = port'" using conjunct1 [OF parts3] by (simp add: port_text_inj)
  moreover have "tls = tls'" using conjunct2 [OF parts3] by (simp split: if_splits)
  ultimately show ?thesis using conjunct1 [OF parts2] by simp
qed

section \<open>Invariant of the running gateway\<close>

text \<open>The lookup the cache stands for.\<close>

definition epoch_search ::
  "regex_lib \<Rightarrow> RequestEpoch \<Rightarrow> string option \<Rightarrow> string \<Rightarrow> u16 option \<Rightarrow> bool \<Rightarrow> RouteMatch option" where
  "epoch_search lib epoch host path port tls =
     search_route_table lib (route_table epoch) host (normalize_encoded_slashes path) Unfiltered
       (port_ctx (route_table epoch) (gateway_listener_admission epoch) port tls)"

definition uncached_lookup ::
  "regex_lib \<Rightarrow> RequestEpoch \<Rightarrow> string option \<Rightarrow> string \<Rightarrow> u16 option \<Rightarrow> bool \<Rightarrow> RouteMatch option" where
  "uncached_lookup lib epoch host path port tls =
     (if (case port of Some n \<Rightarrow> explicitly_refuses (gateway_listener_admission epoch) n | None \<Rightarrow> False) then None
      else epoch_search lib epoch host path port tls)"

definition epochs :: "router_world \<Rightarrow> RequestEpoch set" where
  "epochs w = insert (current w) (set (past w))"

definition stems :: "regex_lib \<Rightarrow> RequestEpoch set \<Rightarrow> string \<Rightarrow> u64 \<Rightarrow> RouteMatch option \<Rightarrow> bool" where
  "stems lib es key gen r \<longleftrightarrow>
     (\<exists>e\<in>es. \<exists>host path port tls. route_generation e = gen \<and> valid_request host path \<and>
        key = write_cache_key host (normalize_encoded_slashes path) port tls \<and>
        r = epoch_search lib e host path port tls)"

definition prefix_entry_ok :: "regex_lib \<Rightarrow> RequestEpoch set \<Rightarrow> string \<Rightarrow> PrefixCacheEntry \<Rightarrow> bool" where
  "prefix_entry_ok lib es key x \<longleftrightarrow>
     (\<exists>r. stems lib es key (pe_generation x) r \<and> map_option proxy r = pe_proxy x \<and>
          (\<forall>m. r = Some m \<longrightarrow> prefix_shape m))"

definition regex_entry_ok :: "regex_lib \<Rightarrow> RequestEpoch set \<Rightarrow> string \<Rightarrow> RegexCacheEntry \<Rightarrow> bool" where
  "regex_entry_ok lib es key x \<longleftrightarrow>
     stems lib es key (re_generation x)
       (Some \<lparr>proxy = re_proxy x, path_params = re_path_params x, matched_prefix_len = re_matched_len x\<rparr>)"

definition wf_partition :: "(string \<Rightarrow> 'v \<Rightarrow> bool) \<Rightarrow> 'v cache_partition \<Rightarrow> bool" where
  "wf_partition ok p \<longleftrightarrow>
     distinct (map fst (cache_map p)) \<and> cache_entries p = length (cache_map p) \<and>
     (\<forall>k x. map_of (cache_map p) k = Some x \<longrightarrow> ok k x)"

definition wf_cache :: "regex_lib \<Rightarrow> RequestEpoch set \<Rightarrow> RouterCache \<Rightarrow> bool" where
  "wf_cache lib es rc \<longleftrightarrow>
     wf_partition (prefix_entry_ok lib es) (prefix_cache rc) \<and> wf_partition (regex_entry_ok lib es) (regex_cache rc)"

definition agrees :: "RequestEpoch \<Rightarrow> RequestEpoch \<Rightarrow> bool" where
  "agrees cur e \<longleftrightarrow>
     route_generation e \<le> route_generation cur \<and>
     (route_generation e = route_generation cur \<longrightarrow>
        route_table e = route_table cur \<and>
        (gateway_listener_admission e = gateway_listener_admission cur \<or>
         gateway_listener_admission cur = admission_pending))"

definition coherent :: "regex_lib \<Rightarrow> router_world \<Rightarrow> bool" where
  "coherent lib w \<longleftrightarrow>
     (\<forall>e\<in>epochs w. \<exists>cfg. route_table e = build_route_table lib cfg) \<and>
     (route_generation (current w) \<noteq> word_max \<longrightarrow> (\<forall>e\<in>set (past w). agrees (current w) e))"

lemma stems_mono: "stems lib es key gen r \<Longrightarrow> es \<subseteq> es' \<Longrightarrow> stems lib es' key gen r"
  unfolding stems_def by blast

lemma wf_partition_mono:
  "wf_partition ok p \<Longrightarrow> (\<And>k x. ok k x \<Longrightarrow> ok' k x) \<Longrightarrow> wf_partition ok' p"
  unfolding wf_partition_def by blast

lemma wf_cache_mono: "wf_cache lib es rc \<Longrightarrow> es \<subseteq> es' \<Longrightarrow> wf_cache lib es' rc"
  unfolding wf_cache_def prefix_entry_ok_def regex_entry_ok_def
  by (auto intro: wf_partition_mono stems_mono)

lemma wf_partition_insert:
  assumes "order_contract ord" "wf_partition ok p" "ok key e"
  shows "wf_partition ok (insert_cache_entry ord sketch n key e p)"
  using insert_props(2-4) [OF assms(1), of p] assms(2,3) unfolding wf_partition_def by blast

lemma wf_partition_clear [simp]: "wf_partition ok (clear_partition p)"
  by (simp add: wf_partition_def)

lemma wf_partition_empty [simp]: "wf_partition ok empty_partition"
  by (simp add: wf_partition_def empty_partition_def)

lemma wf_cache_frame [simp]:
  "wf_cache lib es (count_access key rc) = wf_cache lib es rc"
  "wf_cache lib es (clear_lookup_caches rc)"
  "wf_cache lib es rc \<Longrightarrow> wf_cache lib es (store_route_epoch_snapshot t g a rc)"
  by (simp_all add: wf_cache_def count_access_def clear_lookup_caches_def store_route_epoch_snapshot_def Let_def)

lemma wf_cache_store_result:
  assumes "order_contract ord" "wf_cache lib es rc" "stems lib es key gen r"
    and shape: "\<And>m. r = Some m \<Longrightarrow> is_regex_proxy (proxy m) \<or> is_exact_path_proxy (proxy m) \<or> prefix_shape m"
  shows "wf_cache lib es (store_result ord gen key r rc)"
proof -
  have rc: "wf_cache lib es (count_access key rc)" using assms(2) by simp
  show ?thesis
  proof (cases r)
    case None
    with assms(3) have "prefix_entry_ok lib es key \<lparr>pe_proxy = None, pe_generation = gen\<rparr>"
      by (auto simp: prefix_entry_ok_def)
    with rc None show ?thesis
      by (simp add: Let_def store_result_def insert_prefix_cache_entry_def wf_cache_def wf_partition_insert [OF assms(1)])
  next
    case (Some m)
    have reg: "regex_entry_ok lib es key \<lparr>re_proxy = proxy m, re_path_params = path_params m,
        re_matched_len = matched_prefix_len m, re_generation = gen\<rparr>"
      using assms(3) Some by (cases m) (simp add: regex_entry_ok_def)
    have pre: "prefix_entry_ok lib es key \<lparr>pe_proxy = Some (proxy m), pe_generation = gen\<rparr>"
      if "\<not> (path_params m \<noteq> [] \<or> is_regex_proxy (proxy m) \<or> is_exact_path_proxy (proxy m))"
      using assms(3) Some shape [OF Some] that by (auto simp: prefix_entry_ok_def)
    show ?thesis
    proof (cases "path_params m \<noteq> [] \<or> is_regex_proxy (proxy m) \<or> is_exact_path_proxy (proxy m)")
      case True
      with rc Some reg show ?thesis
        by (simp add: Let_def store_result_def insert_regex_cache_entry_def wf_cache_def wf_partition_insert [OF assms(1)] del: disj_not1)
    next
      case False
      with rc Some pre [OF False] show ?thesis
        by (simp add: Let_def store_result_def insert_prefix_cache_entry_def wf_cache_def wf_partition_insert [OF assms(1)])
    qed
  qed
qed

lemma find_proxy_in_epoch_cases:
  "(\<exists>n. port = Some n \<and> explicitly_refuses (gateway_listener_admission e) n \<and>
      find_proxy_in_epoch lib ord e host path port tls rc = (None, rc)) \<or>
   (\<forall>n. port = Some n \<longrightarrow> \<not> explicitly_refuses (gateway_listener_admission e) n) \<and>
   (let key = write_cache_key host (normalize_encoded_slashes path) port tls in
    find_proxy_in_epoch lib ord e host path port tls rc =
     (case cached_match (route_generation e) (gateway_listener_admission e) key rc of
        Some result \<Rightarrow> (result, count_access key rc)
      | None \<Rightarrow> (epoch_search lib e host path port tls,
                 store_result ord (route_generation e) key (epoch_search lib e host path port tls) rc)))"
  by (cases port)
    (auto simp: find_proxy_in_epoch_def find_proxy_with_admission_def epoch_search_def make_cache_key_def Let_def
      split: option.split)

lemma wf_cache_lookup:
  assumes "regex_contract lib" "order_contract ord" "wf_cache lib es rc" "e \<in> es"
    and "route_table e = build_route_table lib cfg" "valid_request host path"
  shows "wf_cache lib es (snd (find_proxy_in_epoch lib ord e host path port tls rc))"
proof -
  let ?key = "write_cache_key host (normalize_encoded_slashes path) port tls"
  have "wf_cache lib es (store_result ord (route_generation e) ?key (epoch_search lib e host path port tls) rc)"
  proof (rule wf_cache_store_result [OF assms(2,3)])
    show "stems lib es ?key (route_generation e) (epoch_search lib e host path port tls)"
      unfolding stems_def using assms(4,6) by blast
  next
    fix m
    assume "epoch_search lib e host path port tls = Some m"
    then show "is_regex_proxy (proxy m) \<or> is_exact_path_proxy (proxy m) \<or> prefix_shape m"
      unfolding epoch_search_def assms(5) by (rule search_shape [OF assms(1)])
  qed
  with assms(3) find_proxy_in_epoch_cases [of port e lib ord host path tls rc]
  show ?thesis by (auto simp: Let_def split: option.split)
qed

lemma agrees_bump:
  assumes "saturating_add g 1 \<noteq> (word_max :: u64)" "route_generation e \<le> g" "route_generation cur = saturating_add g 1"
  shows "agrees cur e"
proof -
  have "unat g < unat (saturating_add g 1)"
    using assms(1) unat_saturating_add [of g 1] unat_word_max [where 'a = 64] unsigned_less [of g, where ?'a = nat]
    by (auto simp: word_unat_eq_iff)
  with assms(2,3) have "route_generation e < route_generation cur"
    by (simp add: word_less_nat_alt word_le_nat_alt)
  then show ?thesis by (auto simp: agrees_def)
qed

lemma saturating_add_word_max: "saturating_add (word_max :: u64) 1 = word_max"
  by (simp add: word_unat_eq_iff unat_saturating_add unat_word_max)

lemma coherent_reload:
  assumes "coherent lib w"
  shows "coherent lib (w\<lparr>current := update_config lib new_config route_changed (current w), past := current w # past w\<rparr>)"
    (is "coherent lib ?w")
proof -
  let ?g = "route_generation (current w)"
  have tables: "\<forall>e\<in>epochs ?w. \<exists>cfg. route_table e = build_route_table lib cfg"
    using assms by (auto simp: coherent_def epochs_def update_config_def staged_route_table_def)
  have "agrees (current ?w) e" if "route_generation (current ?w) \<noteq> word_max" "e \<in> set (past ?w)" for e
  proof -
    have "?g \<noteq> word_max" using that(1) saturating_add_word_max
      by (auto simp: update_config_def split: if_splits)
    with assms that(2) have e: "agrees (current w) e" by (auto simp: coherent_def agrees_def)
    show ?thesis
    proof (cases route_changed)
      case True
      with that(1) e show ?thesis
        by (intro agrees_bump [of ?g]) (simp_all add: update_config_def agrees_def)
    next
      case False
      with e show ?thesis by (simp add: agrees_def update_config_def staged_route_table_def)
    qed
  qed
  with tables show ?thesis by (simp add: coherent_def)
qed

lemma coherent_admission:
  assumes "coherent lib w" "publish_gateway_listener_admission expected refused (current w) = Some epoch"
  shows "coherent lib (w\<lparr>current := epoch, past := current w # past w\<rparr>)" (is "coherent lib ?w")
proof -
  let ?g = "route_generation (current w)"
  consider "epoch = current w"
    | "epoch = (current w)\<lparr>gateway_listener_admission := admission_decided refused,
                            route_generation := saturating_add ?g 1\<rparr>"
    using assms(2) by (auto simp: publish_gateway_listener_admission_def Let_def split: if_splits)
  then show ?thesis
  proof cases
    case 1
    with assms(1) show ?thesis by (auto simp: coherent_def epochs_def agrees_def)
  next
    case 2
    have "agrees (current ?w) e" if "route_generation (current ?w) \<noteq> word_max" "e \<in> set (past ?w)" for e
    proof -
      have "?g \<noteq> word_max" using that(1) 2 saturating_add_word_max by auto
      with assms(1) that(2) have "agrees (current w) e" by (auto simp: coherent_def agrees_def)
      with that(1) 2 show ?thesis by (intro agrees_bump [of ?g]) (simp_all add: agrees_def)
    qed
    with 2 assms(1) show ?thesis by (auto simp: coherent_def epochs_def)
  qed
qed

lemma coherent_cache [simp]: "coherent lib (w\<lparr>cache := rc\<rparr>) = coherent lib w"
  by (simp add: coherent_def epochs_def)

lemma epochs_simps [simp]:
  "epochs (w\<lparr>cache := rc\<rparr>) = epochs w"
  "epochs (w\<lparr>current := e, past := current w # past w\<rparr>) = insert e (epochs w)"
  by (auto simp: epochs_def)

definition sound :: "regex_lib \<Rightarrow> router_world \<Rightarrow> bool" where
  "sound lib w \<longleftrightarrow> coherent lib w \<and> wf_cache lib (epochs w) (cache w)"

lemma sound_initial: "sound lib (initial_world lib cfg n)"
  by (auto simp: sound_def coherent_def epochs_def initial_world_def with_shard_amount_def wf_cache_def Let_def)

lemma sound_step:
  assumes "regex_contract lib" "order_contract ord" "router_step lib ord w w'" "sound lib w"
  shows "sound lib w'"
  using assms(3,4)
proof (cases rule: router_step.cases)
  case (lookup epoch host path port tls)
  then have e: "epoch \<in> epochs w" by (auto simp: epochs_def)
  with assms(4) obtain cfg where "route_table epoch = build_route_table lib cfg"
    by (auto simp: sound_def coherent_def)
  from wf_cache_lookup [OF assms(1,2) _ e this lookup(3)] assms(4) lookup(1) show ?thesis
    by (simp add: sound_def)
next
  case (reload new_config route_changed)
  with assms(4) show ?thesis
    by (auto simp: sound_def intro: coherent_reload wf_cache_mono)
next
  case (admission expected refused epoch)
  with assms(4) show ?thesis
    by (auto simp: sound_def intro: coherent_admission wf_cache_mono)
qed (simp_all add: sound_def)

lemma running_sound:
  assumes "running lib ord n w" "regex_contract lib" "order_contract ord"
  shows "sound lib w"
  using assms(1) by induction (auto intro: sound_initial sound_step [OF assms(2,3)])

text \<open>A result computed under an epoch that agrees with the current one, and usable there, is the
  result of the current epoch.\<close>

lemma epoch_search_agrees:
  assumes "regex_contract lib" "route_table cur = build_route_table lib cfg" "agrees cur e"
    and "route_generation e = route_generation cur"
    and "\<And>m. epoch_search lib e host path port tls = Some m \<Longrightarrow> port_usable (gateway_listener_admission cur) (proxy m)"
  shows "epoch_search lib cur host path port tls = epoch_search lib e host path port tls"
proof (cases "gateway_listener_admission e = gateway_listener_admission cur")
  case True
  with assms(3,4) show ?thesis by (simp add: epoch_search_def agrees_def)
next
  case False
  with assms(3,4) have pend: "gateway_listener_admission cur = admission_pending"
    and t: "route_table e = route_table cur" by (auto simp: agrees_def)
  have "port_ctx (route_table cur) admission_pending port tls =
      pending_ctx (port_ctx (route_table cur) (gateway_listener_admission e) port tls)"
    by (simp add: port_ctx_def pending_ctx_def)
  then have "keeps (epoch_search lib e host path port tls) (epoch_search lib cur host path port tls)"
    unfolding epoch_search_def t pend assms(2) by (simp add: search_keeps [OF assms(1)])
  with assms(5) show ?thesis
    by (auto simp: keeps_def port_usable_def pend allows_def admission_pending_def split: option.splits)
qed

lemma cached_match_SomeD:
  assumes "wf_cache lib es rc" "cached_match gen admission key rc = Some r"
  shows "stems lib es key gen r" "\<And>m. r = Some m \<Longrightarrow> port_usable admission (proxy m)"
proof -
  consider x where "map_of (cache_map (prefix_cache rc)) key = Some x" "prefix_hit gen admission x = Some r"
    | x where "map_of (cache_map (regex_cache rc)) key = Some x" "regex_hit gen admission x = Some r"
    using assms(2) by (auto simp: cached_match_def or_else_def bind_eq_Some_conv split: option.splits)
  then have "stems lib es key gen r \<and> (\<forall>m. r = Some m \<longrightarrow> port_usable admission (proxy m))"
  proof cases
    case (1 x)
    then have "prefix_entry_ok lib es key x" using assms(1) unfolding wf_cache_def wf_partition_def by blast
    then obtain s where s: "stems lib es key (pe_generation x) s" "map_option proxy s = pe_proxy x"
      "\<And>m. s = Some m \<Longrightarrow> prefix_shape m"
      unfolding prefix_entry_ok_def by blast
    have hit: "pe_generation x = gen" "r = map_option (\<lambda>p. \<lparr>proxy = p, path_params = [],
        matched_prefix_len = (case listen_path p of None \<Rightarrow> 0 | Some lp \<Rightarrow> length lp)\<rparr>) (pe_proxy x)"
      "\<And>p. pe_proxy x = Some p \<Longrightarrow> port_usable admission p"
      using 1(2) by (auto simp: prefix_hit_def split: if_splits option.splits)
    have "r = s"
      using s(3) unfolding hit(2) s(2) [symmetric] by (cases s) (auto simp: prefix_shape_def intro: RouteMatch.equality)
    with s(1) hit(1) hit(3) s(2) show ?thesis by (auto simp: map_option_case)
  next
    case (2 x)
    then have "regex_entry_ok lib es key x" using assms(1) unfolding wf_cache_def wf_partition_def by blast
    with 2(2) show ?thesis by (auto simp: regex_entry_ok_def regex_hit_def split: if_splits)
  qed
  then show "stems lib es key gen r" "\<And>m. r = Some m \<Longrightarrow> port_usable admission (proxy m)" by auto
qed

lemma hit_is_search:
  assumes "regex_contract lib" "sound lib w" "valid_request host path"
    and "route_generation (current w) \<noteq> word_max"
    and "cached_match (route_generation (current w)) (gateway_listener_admission (current w))
           (write_cache_key host (normalize_encoded_slashes path) port tls) (cache w) = Some r"
  shows "r = epoch_search lib (current w) host path port tls"
proof -
  have wf: "wf_cache lib (epochs w) (cache w)" using assms(2) by (simp add: sound_def)
  note hit = cached_match_SomeD [OF wf assms(5)]
  from hit(1) obtain e host' path' port' tls' where e: "e \<in> epochs w" "route_generation e = route_generation (current w)"
      "valid_request host' path'" "r = epoch_search lib e host' path' port' tls'"
    and key: "write_cache_key host (normalize_encoded_slashes path) port tls =
        write_cache_key host' (normalize_encoded_slashes path') port' tls'"
    by (auto simp: stems_def)
  from write_cache_key_inj [OF assms(3) e(3) key] e(4)
  have r: "r = epoch_search lib e host path port tls" by (simp add: epoch_search_def)
  have "agrees (current w) e"
    using assms(2,4) e(1) by (auto simp: sound_def coherent_def epochs_def agrees_def)
  moreover obtain cfg where "route_table (current w) = build_route_table lib cfg"
    using assms(2) by (auto simp: sound_def coherent_def epochs_def)
  ultimately have "epoch_search lib (current w) host path port tls = epoch_search lib e host path port tls"
    using epoch_search_agrees [OF assms(1) _ _ e(2)] hit(2) r by blast
  with r show ?thesis by simp
qed

text \<open>C11. Whatever requests, config reloads, admission decisions and cache clears have happened, and
  in whatever order, also requests that still hold a replaced epoch: a lookup on the current epoch
  through the cache returns what the route table of that epoch gives, as long as the route
  generation has not saturated.\<close>

theorem cache_transparent:
  assumes "running lib ord max_entries w" "regex_contract lib" "order_contract ord"
    and "route_generation (current w) \<noteq> word_max" "valid_request host path"
  shows "fst (find_proxy_in_epoch lib ord (current w) host path port tls (cache w)) =
         uncached_lookup lib (current w) host path port tls"
proof -
  have "sound lib w" using assms(1-3) by (rule running_sound)
  note hit = hit_is_search [OF assms(2) this assms(5,4)]
  show ?thesis
    using find_proxy_in_epoch_cases [of port "current w" lib ord host path tls "cache w"] hit
    by (auto simp: Let_def uncached_lookup_def split: option.split)
qed

text \<open>A gateway that has published an admission decision, served a request and reloaded its config
  without a route change: the entry of the served request is of the current generation.\<close>

definition admitted_world :: router_world where
  "admitted_world =
     (let w = initial_world literal_lib sample_config 4 in
      w\<lparr>current := (current w)\<lparr>gateway_listener_admission := admission_decided [], route_generation := 2\<rparr>,
        past := [current w]\<rparr>)"

definition served_world :: router_world where
  "served_world =
     admitted_world\<lparr>cache := snd (find_proxy_in_epoch literal_lib sorting_order (current admitted_world)
        (Some ''x.a.com'') ''/v1/u'' (Some 8443) True (cache admitted_world))\<rparr>"

definition reloaded_world :: router_world where
  "reloaded_world =
     served_world\<lparr>current := update_config literal_lib sample_config False (current served_world),
                   past := current served_world # past served_world\<rparr>"

lemma publish_initial:
  "publish_gateway_listener_admission 1 [] (current (initial_world literal_lib sample_config 4)) =
     Some (current admitted_world)"
  by (simp add: publish_gateway_listener_admission_def initial_world_def admitted_world_def Let_def
      admission_decided_def admission_pending_def saturating_add_def)

lemma running_reloaded: "running literal_lib sorting_order 4 reloaded_world"
proof -
  let ?run = "running literal_lib sorting_order 4"
  have "?run admitted_world"
    using running.step [OF running.start router_step.admission [OF publish_initial]]
    by (simp add: admitted_world_def initial_world_def Let_def)
  moreover have "valid_request (Some ''x.a.com'') ''/v1/u''" by (simp add: valid_request_def NUL_def)
  ultimately have "?run served_world"
    unfolding served_world_def by (blast intro: running.step router_step.lookup)
  then show ?thesis
    unfolding reloaded_world_def by (blast intro: running.step router_step.reload)
qed

theorem cache_transparent_witness:
  "running literal_lib sorting_order 4 reloaded_world \<and> regex_contract literal_lib \<and> order_contract sorting_order \<and>
   map_option (\<lambda>m. proxy_id (proxy m))
     (fst (find_proxy_in_epoch literal_lib sorting_order (current reloaded_world)
        (Some ''x.a.com'') ''/v1/u'' (Some 8443) True (cache reloaded_world))) = Some ''any''"
proof -
  have gen: "route_generation (current reloaded_world) \<noteq> word_max"
    by (simp add: reloaded_world_def served_world_def admitted_world_def initial_world_def update_config_def Let_def
        word_max_def)
  have valid: "valid_request (Some ''x.a.com'') ''/v1/u''" by (simp add: valid_request_def NUL_def)
  have cur: "current reloaded_world =
      \<lparr>route_table = build_route_table literal_lib sample_config, gateway_listener_admission = admission_pending,
       config_generation = 2, route_generation = 2\<rparr>"
    by (simp add: reloaded_world_def served_world_def admitted_world_def initial_world_def update_config_def Let_def
        staged_route_table_def saturating_add_def)
  have "map_option (\<lambda>m. proxy_id (proxy m)) (uncached_lookup literal_lib
      \<lparr>route_table = build_route_table literal_lib sample_config, gateway_listener_admission = admission_pending,
       config_generation = 2, route_generation = 2\<rparr> (Some ''x.a.com'') ''/v1/u'' (Some 8443) True) = Some ''any''"
    by code_simp
  with cache_transparent [OF running_reloaded literal_lib_contract sorting_order_contract gen valid,
      of "Some 8443" True]
  show ?thesis
    unfolding cur by (simp add: running_reloaded literal_lib_contract sorting_order_contract)
qed

section \<open>The bound\<close>

definition sized :: "nat \<Rightarrow> RouterCache \<Rightarrow> bool" where
  "sized n rc \<longleftrightarrow> max_cache_entries rc = n \<and> bounded_partition n (prefix_cache rc) \<and> bounded_partition n (regex_cache rc)"

lemma bounded_insert:
  "order_contract ord \<Longrightarrow> 4 \<le> n \<Longrightarrow> bounded_partition n p \<Longrightarrow> bounded_partition n (insert_cache_entry ord sketch n key e p)"
  using insert_props(1-3) [of ord p] unfolding bounded_partition_def by blast

lemma bounded_clear [simp]: "bounded_partition n (clear_partition p)" "bounded_partition n empty_partition"
  by (simp_all add: bounded_partition_def empty_partition_def)

lemma sized_frame [simp]:
  "sized n (count_access key rc) = sized n rc"
  "sized n rc \<Longrightarrow> sized n (clear_lookup_caches rc)"
  "sized n rc \<Longrightarrow> sized n (store_route_epoch_snapshot t g a rc)"
  by (simp_all add: sized_def count_access_def clear_lookup_caches_def store_route_epoch_snapshot_def Let_def)

lemma sized_store_result:
  assumes "order_contract ord" "4 \<le> n" "sized n rc"
  shows "sized n (store_result ord gen key r rc)"
proof -
  have "sized n (count_access key rc)" using assms(3) by simp
  then show ?thesis
    by (auto simp: store_result_def insert_regex_cache_entry_def insert_prefix_cache_entry_def sized_def Let_def
        bounded_insert [OF assms(1,2)] split: option.split)
qed

lemma sized_lookup:
  assumes "order_contract ord" "4 \<le> n" "sized n rc"
  shows "sized n (snd (find_proxy_in_epoch lib ord e host path port tls rc))"
  using find_proxy_in_epoch_cases [of port e lib ord host path tls rc] sized_store_result [OF assms] assms(3)
  by (auto simp: Let_def split: option.split)

definition cache_capacity :: "nat \<Rightarrow> nat \<Rightarrow> nat" where
  "cache_capacity max_entries n =
     (if max_entries = 0 then resolve_auto_router_cache_entries n else max_entries)"

lemma sized_running:
  assumes "order_contract ord" "max_entries = 0 \<or> 4 \<le> max_entries" "running lib ord max_entries w"
  shows "\<exists>n. 4 \<le> cache_capacity max_entries n \<and> sized (cache_capacity max_entries n) (cache w)"
  using assms(3)
proof induction
  case (start cfg)
  have "4 \<le> cache_capacity max_entries (length (proxies cfg))"
    using assms(2) by (auto simp: cache_capacity_def resolve_auto_router_cache_entries_def clamp_def)
  moreover have "sized (cache_capacity max_entries (length (proxies cfg))) (cache (initial_world lib cfg max_entries))"
    by (simp add: initial_world_def with_shard_amount_def sized_def cache_capacity_def Let_def)
  ultimately show ?case by blast
next
  case (step w w')
  then obtain n where n: "4 \<le> cache_capacity max_entries n" "sized (cache_capacity max_entries n) (cache w)" by blast
  have "sized (cache_capacity max_entries n) (cache w')"
    using step(2) n(2) sized_lookup [OF assms(1) n] by cases simp_all
  with n(1) show ?case by blast
qed



end
