(* ===== verification/Slot_Map.thy ===== *)
theory Slot_Map
  imports Interleaving "HOL-Library.AList"
begin

text \<open>
  Counters of live slots, keyed by lane: the shape that \<^verbatim>\<open>src/src/backend_active_request_limit.rs\<close>,
  \<^verbatim>\<open>src/src/backend_pending_limit.rs\<close> and \<^verbatim>\<open>src/src/backend_conn_limit.rs\<close> share. Each operation on
  the map runs under one shard lock and is one atomic step here: the lookup that checks and
  reserves on a resident lane, the insertion that does so on a lane that was missing, and the
  release that evicts a lane with its last slot. The contract \<^verbatim>\<open>slot_protocol\<close> is what a client of
  the map promises, and gives the exact accounting under every interleaving.
\<close>

type_synonym 'k lanes = "('k \<times> u64) list"

section \<open>Operations under the shard lock\<close>

text \<open>The hit path: nothing when the lane is missing, else the refusal or the map with the slot.\<close>

definition slot_hit :: "'k \<Rightarrow> u64 \<Rightarrow> 'k lanes \<Rightarrow> (u64 \<times> u64 + 'k lanes) option" where
  "slot_hit key cap m =
     (case map_of m key of
        None \<Rightarrow> None
      | Some current \<Rightarrow>
          Some (if cap \<le> current then Inl (current, cap) else Inr (AList.update key (current + 1) m)))"

text \<open>The cold path: the entry is inserted at zero when it is still missing, then checked.\<close>

definition slot_entry :: "'k \<Rightarrow> u64 \<Rightarrow> 'k lanes \<Rightarrow> (u64 \<times> u64) option \<times> 'k lanes" where
  "slot_entry key cap m =
     (let current = (case map_of m key of None \<Rightarrow> 0 | Some c \<Rightarrow> c);
          m = (if map_of m key = None then AList.update key 0 m else m)
      in if cap \<le> current then (Some (current, cap), m)
         else (None, AList.update key (current + 1) m))"

text \<open>\<open>remove_if\<close> with the decrement as its predicate.\<close>

definition slot_release :: "'k \<Rightarrow> ('k \<times> 'w::len word) list \<Rightarrow> ('k \<times> 'w word) list" where
  "slot_release key m =
     (case map_of m key of
        None \<Rightarrow> m
      | Some current \<Rightarrow>
          if current = 1 then AList.delete key m else AList.update key (current - 1) m)"

definition lane_count :: "('k \<times> 'w::len word) list \<Rightarrow> 'k \<Rightarrow> 'w word" where
  "lane_count m key = (case map_of m key of None \<Rightarrow> 0 | Some c \<Rightarrow> c)"

section \<open>Lane keys\<close>

text \<open>A length-prefixed component: no value can forge the text that follows it.\<close>

definition length_prefixed :: "string \<Rightarrow> string \<Rightarrow> string" where
  "length_prefixed tag v = tag @ dec (length v) @ '':'' @ v"

lemma dec_no_char: "\<not> is_ascii_digit c \<Longrightarrow> c \<notin> set (dec n)"
  using dec_digits by blast

lemma length_prefixed_inj:
  assumes "length_prefixed tag v @ rest = length_prefixed tag v' @ rest'"
  shows "v = v' \<and> rest = rest'"
proof -
  have colon: "CHR '':'' \<notin> set (dec n)" for n
    by (rule dec_no_char) (simp add: is_ascii_digit_def byte_of_def)
  have "dec (length v) @ CHR '':'' # (v @ rest) = dec (length v') @ CHR '':'' # (v' @ rest')"
    using assms by (simp add: length_prefixed_def)
  from split_at_separator [OF colon colon this] show ?thesis by auto
qed

lemma dec_bar_inj: "dec m @ CHR ''|'' # rest = dec n @ CHR ''|'' # rest' \<longleftrightarrow> m = n \<and> rest = rest'"
proof -
  have bar: "CHR ''|'' \<notin> set (dec n)" for n
    by (rule dec_no_char) (simp add: is_ascii_digit_def byte_of_def)
  show ?thesis using split_at_separator [OF bar bar, of m rest n rest'] by auto
qed

section \<open>The contract of a client\<close>

text \<open>What a step may do to the map, given the lane its thread holds before and after.\<close>

inductive lane_move ::
  "('k \<times> 'w::len word) list \<Rightarrow> 'k option \<Rightarrow> ('k \<times> 'w word) list \<Rightarrow> 'k option \<Rightarrow> bool" where
  keep: "lane_move m a m a"
| grant: "lane_count m k < cap \<Longrightarrow> lane_move m None (AList.update k (lane_count m k + 1) m) (Some k)"
| release: "lane_move m (Some k) (slot_release k m) None"

inductive_cases lane_moveE [elim]: "lane_move m a m' b"

text \<open>The lanes count their holders: exactly, with no idle lane and no lane twice.\<close>

definition counted :: "('k \<times> 'w::len word) list \<Rightarrow> ('k \<Rightarrow> nat) \<Rightarrow> bool" where
  "counted m live \<longleftrightarrow>
     distinct (map fst m) \<and> (\<forall>k. unat (lane_count m k) = live k) \<and> (\<forall>k. k \<in> fst ` set m \<longrightarrow> 0 < live k)"

lemma lane_count_update: "lane_count (AList.update k c m) k' = (if k' = k then c else lane_count m k')"
  by (simp add: lane_count_def update_conv')

lemma lane_count_delete: "lane_count (AList.delete k m) k' = (if k' = k then 0 else lane_count m k')"
  by (simp add: lane_count_def delete_conv')

lemma keys_update: "fst ` set (AList.update k c m) = insert k (fst ` set m)"
  by (simp add: dom_update)

lemma keys_delete: "fst ` set (AList.delete k m) = fst ` set m - {k}"
  by (auto simp: AList.delete_eq)

lemma unat_below_Suc: "(x :: 'w::len word) < cap \<Longrightarrow> unat (x + 1) = Suc (unat x)"
  by (rule unat_Suc_less)

lemma counted_keys: "counted m live \<Longrightarrow> fst ` set m = {k. 0 < live k}"
  unfolding counted_def lane_count_def
  by (auto simp: map_of_eq_None_iff [symmetric] split: option.splits) (metis image_eqI fst_conv map_of_eq_None_iff option.distinct(1) option.simps(4) unsigned_0 less_irrefl)

lemma counted_grant:
  assumes "counted m live" "lane_count m k < cap"
  shows "counted (AList.update k (lane_count m k + 1) m) (live(k := Suc (live k)))"
  using assms(1) unat_below_Suc [OF assms(2)]
  by (auto simp: counted_def lane_count_update keys_update distinct_update)

lemma counted_release:
  assumes "counted m live" "0 < live k"
  shows "counted (slot_release k m) (live(k := live k - 1))"
proof -
  have "0 < unat (lane_count m k)" using assms by (simp add: counted_def)
  then obtain c where c: "map_of m k = Some c" "0 < unat c" "lane_count m k = c"
    by (auto simp: lane_count_def split: option.splits)
  have live: "unat c = live k" using assms(1) c(3) by (auto simp: counted_def)
  have "c = 1 \<longleftrightarrow> live k = 1" unfolding live [symmetric] by (simp add: word_unat_eq_iff)
  moreover have "unat (c - 1) = live k - 1" 
    using c(2) live unat_dec [of c] by fastforce
  moreover have "distinct (map fst m)" "\<And>j. unat (lane_count m j) = live j" "\<And>j. j \<in> fst ` set m \<Longrightarrow> 0 < live j"
    "0 < live k" using assms by (simp_all add: counted_def)
  ultimately show ?thesis
    unfolding slot_release_def c(1)
    by (cases "c = 1") (auto simp: counted_def lane_count_update lane_count_delete keys_update keys_delete
      distinct_update distinct_delete)
qed

text \<open>A configured cap keeps its value at the width of the counters.\<close>

lemma unat_cap: "unat (ucast (c :: u32) :: u64) = unat c"
proof -
  have "unat c < 2 ^ 64" using unsigned_less [of c, where ?'a = nat] by simp
  then show ?thesis by (simp add: unsigned_ucast_eq take_bit_nat_eq_self)
qed

lemma cap_eq_0: "(ucast (c :: u32) :: u64) = 0 \<longleftrightarrow> c = 0"
  by (simp add: word_unat_eq_iff unat_cap)

text \<open>The operations in terms of the count of the lane.\<close>

lemma update_again: "AList.update k c (AList.update k d m) = AList.update k c m"
  by (induction m) auto

lemma slot_hit_cases [consumes 1, case_names refuse grant miss]:
  assumes "slot_hit k cap m = r"
  obtains "r = Some (Inl (lane_count m k, cap))" "cap \<le> lane_count m k"
    | "r = Some (Inr (AList.update k (lane_count m k + 1) m))" "lane_count m k < cap"
    | "r = None" "lane_count m k = 0"
  using assms by (cases "map_of m k") (auto simp: slot_hit_def lane_count_def not_le split: if_splits)

lemma slot_entry_cases [consumes 2, case_names refuse grant]:
  assumes "slot_entry k cap m = r" "cap \<noteq> 0"
  obtains "r = (Some (lane_count m k, cap), m)" "cap \<le> lane_count m k"
    | "r = (None, AList.update k (lane_count m k + 1) m)" "lane_count m k < cap"
  using assms
  by (cases "map_of m k") (auto simp: slot_entry_def lane_count_def Let_def not_le update_again word_gt_0 split: if_splits)

definition all_live :: "('k \<times> 'w::len word) list \<Rightarrow> bool" where
  "all_live m \<longleftrightarrow> (\<forall>k c. map_of m k = Some c \<longrightarrow> c \<noteq> 0)"

lemma counted_all_live: "counted m live \<Longrightarrow> all_live m"
  unfolding counted_def all_live_def lane_count_def
  by (metis domI dom_map_of_conv_image_fst less_irrefl option.simps(5) unsigned_0)

locale slot_protocol =
  fixes step :: "'e \<Rightarrow> 't \<Rightarrow> 's \<Rightarrow> 't \<times> 's"
    and lanes_of :: "'s \<Rightarrow> ('k \<times> 'w::len word) list"
    and held :: "'t \<Rightarrow> 'k option"
    and sinv :: "'s \<Rightarrow> bool"
    and tinv :: "'t \<Rightarrow> bool"
  assumes moves: "sinv s \<Longrightarrow> tinv t \<Longrightarrow> all_live (lanes_of s) \<Longrightarrow> step e t s = (t', s') \<Longrightarrow>
      lane_move (lanes_of s) (held t) (lanes_of s') (held t')"
    and step_sinv: "sinv s \<Longrightarrow> tinv t \<Longrightarrow> step e t s = (t', s') \<Longrightarrow> sinv s'"
    and step_tinv: "sinv s \<Longrightarrow> tinv t \<Longrightarrow> step e t s = (t', s') \<Longrightarrow> tinv t'"
begin

definition live :: "'t list \<Rightarrow> 'k \<Rightarrow> nat" where
  "live ts k = holders (\<lambda>t. held t = Some k) ts"

definition accounted :: "'s \<times> 't list \<Rightarrow> bool" where
  "accounted st \<longleftrightarrow>
     sinv (fst st) \<and> counted (lanes_of (fst st)) (live (snd st)) \<and> (\<forall>t \<in> set (snd st). tinv t)"

lemma live_update:
  assumes "i < length ts"
  shows "live (ts[i := t]) k + of_bool (held (ts ! i) = Some k) = live ts k + of_bool (held t = Some k)"
  unfolding live_def using holders_update [OF assms, where holds = "\<lambda>t. held t = Some k"] .

lemma live_holder: "i < length ts \<Longrightarrow> held (ts ! i) = Some k \<Longrightarrow> 0 < live ts k"
  unfolding live_def holders_def length_greater_0_conv filter_empty_conv using nth_mem by blast

lemma live_pos: "0 < live ts k \<longleftrightarrow> (\<exists>t \<in> set ts. held t = Some k)"
  unfolding live_def holders_def length_greater_0_conv filter_empty_conv by blast

lemma sys_step_accounted:
  assumes "accounted st"
  shows "accounted (sys_step step ie st)"
proof -
  obtain i e s ts where st: "st = (s, ts)" and ie: "ie = (i, e)" by (metis surj_pair)
  obtain s' ts' where eq: "sys_step step (i, e) (s, ts) = (s', ts')" by (metis surj_pair)
  then show ?thesis
  proof (cases rule: sys_step_cases)
    case (move t')
    have sinv: "sinv s" and cnt: "counted (lanes_of s) (live ts)" and tinv: "\<And>t. t \<in> set ts \<Longrightarrow> tinv t"
      using assms by (auto simp: accounted_def st)
    note me = tinv [OF nth_mem [OF move(1)]]
    have "tinv t" if "t \<in> set ts'" for t
      using that move(3) set_update_subset_insert [of ts i t'] step_tinv [OF sinv me move(2)] tinv by auto
    moreover have at: "live ts' k + of_bool (held (ts ! i) = Some k) = live ts k + of_bool (held t' = Some k)" for k
      unfolding move(3) by (rule live_update [OF move(1)])
    have "counted (lanes_of s') (live ts')"
      using moves [OF sinv me counted_all_live [OF cnt] move(2)]
    proof cases
      case keep
      then have "live ts' k = live ts k" for k using at [of k] by simp
      then have "live ts' = live ts" by (rule ext)
      with cnt keep(1) show ?thesis by simp
    next
      case (grant k cap)
      then have "live ts' j = live ts j + of_bool (k = j)" for j using at [of j] by simp
      then have "live ts' = (live ts)(k := Suc (live ts k))" by (intro ext) simp
      with counted_grant [OF cnt grant(4)] grant(2) show ?thesis by simp
    next
      case (release k)
      then have "live ts' j = live ts j - of_bool (k = j)" for j using at [of j] by simp
      then have "live ts' = (live ts)(k := live ts k - 1)" by (intro ext) simp
      with counted_release [OF cnt live_holder [OF move(1) release(1)]] release(2) show ?thesis by simp
    qed
    ultimately show ?thesis using step_sinv [OF sinv me move(2)] by (simp add: accounted_def st ie eq)
  qed (use assms st ie eq in simp)
qed

lemma run_accounted: "accounted st \<Longrightarrow> accounted (run_schedule step sched st)"
  by (induction sched arbitrary: st) (simp_all add: sys_step_accounted)

lemma fresh_accounted:
  assumes "sinv s" "lanes_of s = []" "\<And>t. t \<in> set ts \<Longrightarrow> held t = None \<and> tinv t"
  shows "accounted (s, ts)"
  using assms by (auto simp: accounted_def counted_def lane_count_def live_def holders_def filter_empty_conv)

end

end
