(* ===== verification/Active_Limit.thy ===== *)
theory Active_Limit
  imports Slot_Map
begin

text \<open>
  \<^verbatim>\<open>src/src/backend_active_request_limit.rs\<close>: the ceiling on active requests per logical destination.
  The step function runs the calls of many requests over one limiter, one atomic section at a
  time: the map operations under the shard lock and each update of a process total.
\<close>

section \<open>Definitions\<close>

record DestinationScope =
  scope_namespace :: string
  destination :: string
  policy_port :: u16
  subset_name :: "string option"

definition write_active_key :: "DestinationScope \<Rightarrow> string" where
  "write_active_key scope =
     length_prefixed ''n'' (scope_namespace scope) @ ''|'' @
     length_prefixed ''d'' (destination scope) @ ''|'' @ dec (unat (policy_port scope)) @ ''|'' @
     (case subset_name scope of Some s \<Rightarrow> length_prefixed ''s'' s | None \<Rightarrow> ''n'')"

record BackendActiveRequestLimiter =
  active_lanes :: "string lanes"
  ACTIVE_PERMITS :: u64
  ADMITTED_TOTAL :: u64
  REJECTED_TOTAL :: u64

definition new_active_limiter :: BackendActiveRequestLimiter where
  "new_active_limiter = \<lparr>active_lanes = [], ACTIVE_PERMITS = 0, ADMITTED_TOTAL = 0, REJECTED_TOTAL = 0\<rparr>"

record BackendActiveRequestLimitExceeded =
  exceeded_current :: u64
  exceeded_cap :: u64

definition active_exceeded :: "u64 \<times> u64 \<Rightarrow> BackendActiveRequestLimitExceeded" where
  "active_exceeded cc = \<lparr>exceeded_current = fst cc, exceeded_cap = snd cc\<rparr>"

definition count_rejected :: "BackendActiveRequestLimiter \<Rightarrow> BackendActiveRequestLimiter" where
  "count_rejected s = s\<lparr>REJECTED_TOTAL := REJECTED_TOTAL s + 1\<rparr>"

definition count_admitted :: "BackendActiveRequestLimiter \<Rightarrow> BackendActiveRequestLimiter" where
  "count_admitted s = s\<lparr>ACTIVE_PERMITS := ACTIVE_PERMITS s + 1, ADMITTED_TOTAL := ADMITTED_TOTAL s + 1\<rparr>"

text \<open>\<open>try_acquire\<close> as one call: no guard without a cap, the refusal, or the guard of the scope.\<close>

definition active_try_acquire ::
  "DestinationScope \<Rightarrow> u32 option \<Rightarrow> BackendActiveRequestLimiter \<Rightarrow>
   (BackendActiveRequestLimitExceeded + DestinationScope option) \<times> BackendActiveRequestLimiter" where
  "active_try_acquire scope cap s =
     (case cap of
        None \<Rightarrow> (Inr None, s)
      | Some cap \<Rightarrow>
          (let cap_u64 = ucast cap; key = write_active_key scope in
           if cap_u64 = 0 then (Inl (active_exceeded (0, 0)), count_rejected s)
           else case slot_hit key cap_u64 (active_lanes s) of
                  Some (Inl e) \<Rightarrow> (Inl (active_exceeded e), count_rejected s)
                | Some (Inr m) \<Rightarrow> (Inr (Some scope), count_admitted (s\<lparr>active_lanes := m\<rparr>))
                | None \<Rightarrow>
                    (case slot_entry key cap_u64 (active_lanes s) of
                       (Some e, m) \<Rightarrow> (Inl (active_exceeded e), count_rejected (s\<lparr>active_lanes := m\<rparr>))
                     | (None, m) \<Rightarrow> (Inr (Some scope), count_admitted (s\<lparr>active_lanes := m\<rparr>)))))"

definition active_guard_drop :: "DestinationScope \<Rightarrow> BackendActiveRequestLimiter \<Rightarrow> BackendActiveRequestLimiter" where
  "active_guard_drop scope s =
     s\<lparr>active_lanes := slot_release (write_active_key scope) (active_lanes s), ACTIVE_PERMITS := ACTIVE_PERMITS s - 1\<rparr>"

definition active_current :: "DestinationScope \<Rightarrow> BackendActiveRequestLimiter \<Rightarrow> u64" where
  "active_current scope s = lane_count (active_lanes s) (write_active_key scope)"

definition resident_lanes :: "BackendActiveRequestLimiter \<Rightarrow> nat" where
  "resident_lanes s = length (active_lanes s)"

section \<open>Concurrent requests\<close>

text \<open>Where a request stands: before a call, after the hit path missed, with a slot but before the
  totals, with its permit, with the slot returned but before the total, and refused, before and
  after the total.\<close>

datatype active_thread =
    Ready
  | Missed DestinationScope u64
  | Reserved DestinationScope
  | Permit DestinationScope
  | Returned DestinationScope
  | Refusing BackendActiveRequestLimitExceeded
  | Refused BackendActiveRequestLimitExceeded

datatype active_event = Acquire DestinationScope "u32 option" | Advance

definition active_start :: "DestinationScope \<Rightarrow> u32 option \<Rightarrow> BackendActiveRequestLimiter \<Rightarrow> active_thread \<times> BackendActiveRequestLimiter" where
  "active_start scope cap s =
     (case cap of
        None \<Rightarrow> (Ready, s)
      | Some cap \<Rightarrow>
          (let cap_u64 = ucast cap in
           if cap_u64 = 0 then (Refusing (active_exceeded (0, 0)), s)
           else case slot_hit (write_active_key scope) cap_u64 (active_lanes s) of
                  Some (Inl e) \<Rightarrow> (Refusing (active_exceeded e), s)
                | Some (Inr m) \<Rightarrow> (Reserved scope, s\<lparr>active_lanes := m\<rparr>)
                | None \<Rightarrow> (Missed scope cap_u64, s)))"

definition active_insert :: "DestinationScope \<Rightarrow> u64 \<Rightarrow> BackendActiveRequestLimiter \<Rightarrow> active_thread \<times> BackendActiveRequestLimiter" where
  "active_insert scope cap s =
     (case slot_entry (write_active_key scope) cap (active_lanes s) of
        (Some e, m) \<Rightarrow> (Refusing (active_exceeded e), s\<lparr>active_lanes := m\<rparr>)
      | (None, m) \<Rightarrow> (Reserved scope, s\<lparr>active_lanes := m\<rparr>))"

fun active_step :: "active_event \<Rightarrow> active_thread \<Rightarrow> BackendActiveRequestLimiter \<Rightarrow> active_thread \<times> BackendActiveRequestLimiter" where
  "active_step (Acquire scope cap) Ready s = active_start scope cap s"
| "active_step (Acquire scope cap) (Refused e) s = active_start scope cap s"
| "active_step Advance (Missed scope cap) s = active_insert scope cap s"
| "active_step Advance (Reserved scope) s = (Permit scope, count_admitted s)"
| "active_step Advance (Permit scope) s =
     (Returned scope, s\<lparr>active_lanes := slot_release (write_active_key scope) (active_lanes s)\<rparr>)"
| "active_step Advance (Returned scope) s = (Ready, s\<lparr>ACTIVE_PERMITS := ACTIVE_PERMITS s - 1\<rparr>)"
| "active_step Advance (Refusing e) s = (Refused e, count_rejected s)"
| "active_step _ t s = (t, s)"

fun active_holds :: "active_thread \<Rightarrow> DestinationScope option" where
  "active_holds (Reserved scope) = Some scope"
| "active_holds (Permit scope) = Some scope"
| "active_holds _ = None"

fun active_ok :: "active_thread \<Rightarrow> bool" where
  "active_ok (Missed scope cap) = (cap \<noteq> 0)"
| "active_ok _ = True"

text \<open>The scope and the cap that the next step of a request decides on.\<close>

fun active_asks :: "active_event \<Rightarrow> active_thread \<Rightarrow> (DestinationScope \<times> u64) option" where
  "active_asks (Acquire scope (Some cap)) Ready = Some (scope, ucast cap)"
| "active_asks (Acquire scope (Some cap)) (Refused e) = Some (scope, ucast cap)"
| "active_asks Advance (Missed scope cap) = Some (scope, cap)"
| "active_asks _ _ = None"

section \<open>A call that is not disturbed\<close>

fun active_in_call :: "active_thread \<Rightarrow> bool" where
  "active_in_call (Missed scope cap) = True"
| "active_in_call (Reserved scope) = True"
| "active_in_call (Refusing e) = True"
| "active_in_call _ = False"

definition active_settle :: "active_thread \<times> BackendActiveRequestLimiter \<Rightarrow> active_thread \<times> BackendActiveRequestLimiter" where
  "active_settle ts = (if active_in_call (fst ts) then active_step Advance (fst ts) (snd ts) else ts)"

fun active_outcome :: "BackendActiveRequestLimitExceeded + DestinationScope option \<Rightarrow> active_thread" where
  "active_outcome (Inl e) = Refused e"
| "active_outcome (Inr None) = Ready"
| "active_outcome (Inr (Some scope)) = Permit scope"

text \<open>The steps of one request, run without interference, are the two calls of the source.\<close>

lemma active_alone_acquire:
  "active_settle (active_settle (active_step (Acquire scope cap) Ready s)) =
   map_prod active_outcome id (active_try_acquire scope cap s)"
  by (simp add: active_settle_def active_start_def active_insert_def active_try_acquire_def Let_def
      split: option.split sum.split prod.split)

lemma active_alone_drop:
  "(case active_step Advance (Permit scope) s of (t, s') \<Rightarrow> active_step Advance t s') = (Ready, active_guard_drop scope s)"
  by (simp add: active_guard_drop_def)

section \<open>Lanes isolate destinations\<close>

lemma write_active_key_inj: "write_active_key a = write_active_key b \<longleftrightarrow> a = b"
proof
  assume eq: "write_active_key a = write_active_key b"
  let ?tail = "\<lambda>s. case subset_name s of Some s \<Rightarrow> length_prefixed ''s'' s | None \<Rightarrow> ''n''"
  let ?dest = "\<lambda>s. length_prefixed ''d'' (destination s) @ ''|'' @ dec (unat (policy_port s)) @ CHR ''|'' # ?tail s"
  have 1: "length_prefixed ''n'' (scope_namespace a) @ (''|'' @ ?dest a) =
      length_prefixed ''n'' (scope_namespace b) @ (''|'' @ ?dest b)"
    using eq by (simp add: write_active_key_def)
  note ns = length_prefixed_inj [OF 1]
  have 2: "?dest a = ?dest b" using ns by simp
  note dest = length_prefixed_inj [OF 2]
  have port: "unat (policy_port a) = unat (policy_port b)" "?tail a = ?tail b"
    using dest by (simp_all add: dec_bar_inj)
  have "length_prefixed ''s'' x \<noteq> ''n''" for x by (simp add: length_prefixed_def)
  then have "subset_name a = subset_name b"
    using port(2) length_prefixed_inj [of "''s''" _ "[]" _ "[]"]
    by (cases "subset_name a"; cases "subset_name b") (simp_all, metis)
  with ns dest port(1) show "a = b" by (simp add: word_unat_eq_iff DestinationScope.equality)
qed simp

section \<open>Accounting under every interleaving\<close>

lemma active_start_cases [consumes 1, case_names none zero refuse grant miss]:
  assumes "active_start scope cap s = (t', s')"
  obtains "cap = None" "t' = Ready" "s' = s"
    | "cap = Some 0" "t' = Refusing (active_exceeded (0, 0))" "s' = s"
    | c where "cap = Some c" "c \<noteq> 0" "t' = Refusing (active_exceeded (active_current scope s, ucast c))" "s' = s"
        "ucast c \<le> active_current scope s"
    | c where "cap = Some c" "c \<noteq> 0" "t' = Reserved scope" "active_current scope s < ucast c"
        "s' = s\<lparr>active_lanes := AList.update (write_active_key scope) (active_current scope s + 1) (active_lanes s)\<rparr>"
    | c where "cap = Some c" "c \<noteq> 0" "t' = Missed scope (ucast c)" "s' = s" "active_current scope s = 0"
proof (cases cap)
  case None
  with assms that(1) show ?thesis by (simp add: active_start_def)
next
  case (Some c)
  show ?thesis
  proof (cases "c = 0")
    case True
    with assms Some that(2) show ?thesis by (simp add: active_start_def)
  next
    case False
    have start: "(t', s') = (case slot_hit (write_active_key scope) (ucast c) (active_lanes s) of
        Some (Inl e) \<Rightarrow> (Refusing (active_exceeded e), s)
      | Some (Inr m) \<Rightarrow> (Reserved scope, s\<lparr>active_lanes := m\<rparr>)
      | None \<Rightarrow> (Missed scope (ucast c), s))"
      using assms Some False by (simp add: active_start_def cap_eq_0 Let_def)
    have "slot_hit (write_active_key scope) (ucast c) (active_lanes s) =
        slot_hit (write_active_key scope) (ucast c) (active_lanes s)" ..
    then show ?thesis
    proof (cases rule: slot_hit_cases)
      case refuse
      with start show ?thesis by (intro that(3) [OF Some False]) (simp_all add: active_current_def)
    next
      case grant
      with start show ?thesis by (intro that(4) [OF Some False]) (simp_all add: active_current_def)
    next
      case miss
      with start show ?thesis by (intro that(5) [OF Some False]) (simp_all add: active_current_def)
    qed
  qed
qed


lemma active_insert_cases [consumes 2, case_names refuse grant]:
  assumes "active_insert scope cap s = (t', s')" "cap \<noteq> 0"
  obtains "t' = Refusing (active_exceeded (active_current scope s, cap))" "s' = s" "cap \<le> active_current scope s"
    | "t' = Reserved scope" "active_current scope s < cap"
        "s' = s\<lparr>active_lanes := AList.update (write_active_key scope) (active_current scope s + 1) (active_lanes s)\<rparr>"
proof -
  have "slot_entry (write_active_key scope) cap (active_lanes s) = slot_entry (write_active_key scope) cap (active_lanes s)" ..
  from this assms(2) show ?thesis
  proof (cases rule: slot_entry_cases)
    case refuse
    with assms(1) show ?thesis by (intro that(1)) (auto simp: active_insert_def active_current_def)
  next
    case grant
    with assms(1) show ?thesis by (intro that(2)) (simp_all add: active_insert_def active_current_def)
  qed
qed

abbreviation active_lane :: "active_thread \<Rightarrow> string option" where
  "active_lane t \<equiv> map_option write_active_key (active_holds t)"

lemma active_start_moves:
  "active_start scope cap s = (t', s') \<Longrightarrow> lane_move (active_lanes s) None (active_lanes s') (active_lane t')"
  "active_start scope cap s = (t', s') \<Longrightarrow> active_ok t'"
  by (erule active_start_cases; auto simp: active_current_def cap_eq_0 intro: lane_move.intros)+

lemma active_insert_moves:
  "active_insert scope cap s = (t', s') \<Longrightarrow> cap \<noteq> 0 \<Longrightarrow> lane_move (active_lanes s) None (active_lanes s') (active_lane t')"
  "active_insert scope cap s = (t', s') \<Longrightarrow> cap \<noteq> 0 \<Longrightarrow> active_ok t'"
  by (erule (1) active_insert_cases; auto simp: active_current_def intro: lane_move.intros)+

interpretation active: slot_protocol active_step active_lanes active_lane "\<lambda>s. True" active_ok
proof
  fix e t s t' s'
  assume ok: "active_ok t" and step: "active_step e t s = (t', s')"
  show "lane_move (active_lanes s) (active_lane t) (active_lanes s') (active_lane t')"
    using step ok
    by (cases "(e, t, s)" rule: active_step.cases)
      (auto simp: count_admitted_def count_rejected_def active_start_moves active_insert_moves intro: lane_move.intros)
  show "active_ok t'"
    using step ok
    by (cases "(e, t, s)" rule: active_step.cases)
      (auto simp: active_start_moves active_insert_moves)
qed simp

text \<open>The gauge of active permits lags the lanes by the requests between the two updates.\<close>

fun active_gauged :: "active_thread \<Rightarrow> bool" where
  "active_gauged (Permit scope) = True"
| "active_gauged (Returned scope) = True"
| "active_gauged _ = False"

lemma active_start_gauge:
  "active_start scope cap s = (t', s') \<Longrightarrow> ACTIVE_PERMITS s' = ACTIVE_PERMITS s \<and> \<not> active_gauged t'"
  by (erule active_start_cases) auto

lemma active_insert_gauge:
  "active_insert scope cap s = (t', s') \<Longrightarrow> ACTIVE_PERMITS s' = ACTIVE_PERMITS s \<and> \<not> active_gauged t'"
  by (auto simp: active_insert_def split: prod.splits option.splits)

interpretation active_gauge:
  exact_accounting active_step "\<lambda>s. True" "\<lambda>t. True" ACTIVE_PERMITS active_gauged
proof
  fix e t s t' s'
  assume step: "active_step e t s = (t', s')"
  show "ACTIVE_PERMITS s' + of_bool (active_gauged t) = ACTIVE_PERMITS s + of_bool (active_gauged t')"
    using step
    by (cases "(e, t, s)" rule: active_step.cases)
      (auto simp: count_admitted_def count_rejected_def dest: active_start_gauge active_insert_gauge)
qed simp_all

definition active_requests :: "DestinationScope \<Rightarrow> active_thread list \<Rightarrow> nat" where
  "active_requests scope ts = holders (\<lambda>t. active_holds t = Some scope) ts"

lemma active_live: "active.live ts (write_active_key scope) = active_requests scope ts"
proof -
  have "active_lane t = Some (write_active_key scope) \<longleftrightarrow> active_holds t = Some scope" for t
    by (cases "active_holds t") (simp_all add: write_active_key_inj)
  then show ?thesis by (simp add: active.live_def active_requests_def)
qed

lemma active_run:
  assumes "run_schedule active_step sched (new_active_limiter, replicate n Ready) = (s, ts)"
  shows "counted (active_lanes s) (active.live ts)" "\<And>t. t \<in> set ts \<Longrightarrow> active_ok t"
    "ACTIVE_PERMITS s = of_nat (holders active_gauged ts)"
proof -
  have "active.accounted (new_active_limiter, replicate n Ready)"
    by (rule active.fresh_accounted) (simp_all add: new_active_limiter_def)
  from active.run_accounted [OF this, of sched]
  show "counted (active_lanes s) (active.live ts)" "\<And>t. t \<in> set ts \<Longrightarrow> active_ok t"
    by (simp_all add: assms active.accounted_def)
  have "active_gauge.balanced 0 (new_active_limiter, replicate n Ready)"
    by (simp add: active_gauge.balanced_def new_active_limiter_def holders_def)
  from active_gauge.run_exact [OF this, of sched]
  show "ACTIVE_PERMITS s = of_nat (holders active_gauged ts)" by (simp add: assms active_gauge.balanced_def)
qed

lemma active_decision:
  assumes "active_ok t" "active_asks e t = Some (scope, cap)" "active_step e t s = (t', s')"
  shows "t' = Reserved scope' \<Longrightarrow> active_current scope s < cap" "t' = Refusing x \<Longrightarrow> cap \<le> active_current scope s"
  using assms
  by (cases "(e, t)" rule: active_asks.cases;
      auto elim!: active_start_cases active_insert_cases simp: cap_eq_0)+

lemma active_granted:
  assumes "active_asks e t = Some (scope, cap)" "active_step e t s = (Reserved x, s')"
  shows "x = scope"
  using assms
  by (cases "(e, t)" rule: active_asks.cases)
    (auto elim!: active_start_cases simp: active_insert_def split: prod.splits option.splits)

text \<open>C15. Under every interleaving of requests to any destinations, also while caps change: the lane of a
  destination counts exactly the requests that hold a slot of that destination and no other, lanes
  exist for exactly the destinations with such a request, the gauge counts the permits, and
  admission is exact at the step that decides it: a slot is granted only below the cap of the
  request and refused only at or above it.\<close>

theorem active_admission_exact:
  assumes "run_schedule active_step sched (new_active_limiter, replicate n Ready) = (s, ts)"
  shows "(\<forall>scope. unat (active_current scope s) = active_requests scope ts) \<and>
         fst ` set (active_lanes s) = write_active_key ` {scope. 0 < active_requests scope ts} \<and>
         ACTIVE_PERMITS s = of_nat (holders active_gauged ts) \<and>
         (\<forall>i e scope cap t' s'. i < length ts \<longrightarrow> active_asks e (ts ! i) = Some (scope, cap) \<longrightarrow>
            active_step e (ts ! i) s = (t', s') \<longrightarrow>
            (\<forall>x. t' = Reserved x \<longrightarrow> x = scope \<and> active_requests scope ts < unat cap) \<and>
            (\<forall>x. t' = Refusing x \<longrightarrow> unat cap \<le> active_requests scope ts))"
proof -
  note run = active_run [OF assms]
  have count: "unat (active_current scope s) = active_requests scope ts" for scope
    using run(1) by (simp add: counted_def active_current_def active_live)
  have "fst ` set (active_lanes s) = {k. 0 < active.live ts k}" using run(1) by (rule counted_keys)
  also have "\<dots> = write_active_key ` {scope. 0 < active_requests scope ts}"
    by (auto simp: active.live_pos active_live [symmetric])
  finally have keys: "fst ` set (active_lanes s) = write_active_key ` {scope. 0 < active_requests scope ts}" .
  have "x = scope \<and> active_requests scope ts < unat cap"
    if "i < length ts" "active_asks e (ts ! i) = Some (scope, cap)" "active_step e (ts ! i) s = (Reserved x, s')"
    for i e scope cap x s'
    using active_decision(1) [OF run(2) that(2,3) refl] active_granted [OF that(2,3)] that(1) count
    by (simp add: word_less_nat_alt)
  moreover have "unat cap \<le> active_requests scope ts"
    if "i < length ts" "active_asks e (ts ! i) = Some (scope, cap)" "active_step e (ts ! i) s = (Refusing x, s')"
    for i e scope cap x s'
    using active_decision(2) [OF run(2) that(2,3) refl] that(1) count by (simp add: word_le_nat_alt)
  ultimately show ?thesis using count keys run(3) by blast
qed

definition sample_scope :: DestinationScope where
  "sample_scope = \<lparr>scope_namespace = ''ns'', destination = ''svc'', policy_port = 80, subset_name = None\<rparr>"

text \<open>Two requests race for the one slot of a destination: both miss, one inserts.\<close>

definition sample_race :: "(nat \<times> active_event) list" where
  "sample_race = [(0, Acquire sample_scope (Some 1)), (1, Acquire sample_scope (Some 1)), (1, Advance)]"

theorem active_admission_exact_witness:
  "(\<exists>s. run_schedule active_step sample_race (new_active_limiter, replicate 2 Ready) =
      (s, [Missed sample_scope 1, Reserved sample_scope]) \<and>
    unat (active_current sample_scope s) = 1 \<and>
    (\<forall>x s'. active_step Advance (Missed sample_scope 1) s \<noteq> (Reserved x, s')))"
proof -
  define s where "s = fst (run_schedule active_step sample_race (new_active_limiter, replicate 2 Ready))"
  have run: "run_schedule active_step sample_race (new_active_limiter, replicate 2 Ready) =
      (s, [Missed sample_scope 1, Reserved sample_scope])"
    unfolding s_def by code_simp
  have one: "active_requests sample_scope [Missed sample_scope 1, Reserved sample_scope] = 1" by code_simp
  note exact = active_admission_exact [OF run, unfolded one]
  have "active_step Advance (Missed sample_scope 1) s \<noteq> (Reserved x, s')" for x s'
    using conjunct2 [OF conjunct2 [OF conjunct2 [OF exact]], rule_format, of 0 Advance sample_scope 1 "Reserved x" s'] one
    by auto
  with run exact one show ?thesis by auto
qed

end
