(* ===== verification/Slot_Threads.thy ===== *)
theory Slot_Threads
  imports Slot_Map
begin

text \<open>
  Many callers over one map of slots, with the lane of a caller given by a key function: the
  protocol of \<^verbatim>\<open>src/src/backend_pending_limit.rs\<close> and \<^verbatim>\<open>src/src/backend_conn_limit.rs\<close>. One call of
  \<^verbatim>\<open>try_acquire\<close> is up to two sections under the shard lock, the drop of a guard is one.
\<close>

section \<open>One call\<close>

text \<open>A call with a configured cap: the refusal with count and cap, or the reserved slot.\<close>

definition slot_acquire :: "'k \<Rightarrow> u32 \<Rightarrow> 'k lanes \<Rightarrow> (u64 \<times> u64 + unit) \<times> 'k lanes" where
  "slot_acquire key cap m =
     (let cap_u64 = ucast cap in
      if cap_u64 = 0 then (Inl (0, 0), m)
      else case slot_hit key cap_u64 m of
             Some (Inl e) \<Rightarrow> (Inl e, m)
           | Some (Inr m') \<Rightarrow> (Inr (), m')
           | None \<Rightarrow>
               (case slot_entry key cap_u64 m of
                  (Some e, m') \<Rightarrow> (Inl e, m')
                | (None, m') \<Rightarrow> (Inr (), m')))"

section \<open>Concurrent callers\<close>

datatype 'p slot_thread = Free | Pending 'p u64 | Guard 'p | Denied u64 u64

datatype 'p slot_event = Request 'p "u32 option" | Continue

definition slot_start :: "('p \<Rightarrow> 'k) \<Rightarrow> 'p \<Rightarrow> u32 option \<Rightarrow> 'k lanes \<Rightarrow> 'p slot_thread \<times> 'k lanes" where
  "slot_start key_of p cap m =
     (case cap of
        None \<Rightarrow> (Free, m)
      | Some cap \<Rightarrow>
          (let cap_u64 = ucast cap in
           if cap_u64 = 0 then (Denied 0 0, m)
           else case slot_hit (key_of p) cap_u64 m of
                  Some (Inl (current, cap)) \<Rightarrow> (Denied current cap, m)
                | Some (Inr m') \<Rightarrow> (Guard p, m')
                | None \<Rightarrow> (Pending p cap_u64, m)))"

definition slot_insert :: "('p \<Rightarrow> 'k) \<Rightarrow> 'p \<Rightarrow> u64 \<Rightarrow> 'k lanes \<Rightarrow> 'p slot_thread \<times> 'k lanes" where
  "slot_insert key_of p cap m =
     (case slot_entry (key_of p) cap m of
        (Some (current, cap), m') \<Rightarrow> (Denied current cap, m')
      | (None, m') \<Rightarrow> (Guard p, m'))"

fun slot_step :: "('p \<Rightarrow> 'k) \<Rightarrow> 'p slot_event \<Rightarrow> 'p slot_thread \<Rightarrow> 'k lanes \<Rightarrow> 'p slot_thread \<times> 'k lanes" where
  "slot_step key_of (Request p cap) Free m = slot_start key_of p cap m"
| "slot_step key_of (Request p cap) (Denied x y) m = slot_start key_of p cap m"
| "slot_step key_of Continue (Pending p cap) m = slot_insert key_of p cap m"
| "slot_step key_of Continue (Guard p) m = (Free, slot_release (key_of p) m)"
| "slot_step _ _ t m = (t, m)"

fun slot_holds :: "'p slot_thread \<Rightarrow> 'p option" where
  "slot_holds (Guard p) = Some p"
| "slot_holds _ = None"

fun slot_ok :: "'p slot_thread \<Rightarrow> bool" where
  "slot_ok (Pending p cap) = (cap \<noteq> 0)"
| "slot_ok _ = True"

fun slot_asks :: "'p slot_event \<Rightarrow> 'p slot_thread \<Rightarrow> ('p \<times> u64) option" where
  "slot_asks (Request p (Some cap)) Free = Some (p, ucast cap)"
| "slot_asks (Request p (Some cap)) (Denied x y) = Some (p, ucast cap)"
| "slot_asks Continue (Pending p cap) = Some (p, cap)"
| "slot_asks _ _ = None"

text \<open>The two sections of a call, run without interference, are the call.\<close>

definition slot_settle :: "('p \<Rightarrow> 'k) \<Rightarrow> 'p slot_thread \<times> 'k lanes \<Rightarrow> 'p slot_thread \<times> 'k lanes" where
  "slot_settle key_of ts =
     (case fst ts of Pending p cap \<Rightarrow> slot_step key_of Continue (fst ts) (snd ts) | _ \<Rightarrow> ts)"

lemma slot_alone:
  "slot_settle key_of (slot_step key_of (Request p (Some cap)) Free m) =
   (case slot_acquire (key_of p) cap m of
      (Inl (current, c), m') \<Rightarrow> (Denied current c, m')
    | (Inr (), m') \<Rightarrow> (Guard p, m'))"
  by (simp add: slot_settle_def slot_start_def slot_insert_def slot_acquire_def Let_def
      split: option.split sum.split prod.split unit.split)

section \<open>Accounting\<close>

lemma slot_start_cases [consumes 1, case_names none zero refuse grant miss]:
  assumes "slot_start key_of p cap m = (t', m')"
  obtains "cap = None" "t' = Free" "m' = m"
    | "cap = Some 0" "t' = Denied 0 0" "m' = m"
    | c where "cap = Some c" "c \<noteq> 0" "t' = Denied (lane_count m (key_of p)) (ucast c)" "m' = m"
        "ucast c \<le> lane_count m (key_of p)"
    | c where "cap = Some c" "c \<noteq> 0" "t' = Guard p" "lane_count m (key_of p) < ucast c"
        "m' = AList.update (key_of p) (lane_count m (key_of p) + 1) m"
    | c where "cap = Some c" "c \<noteq> 0" "t' = Pending p (ucast c)" "m' = m" "lane_count m (key_of p) = 0"
proof (cases cap)
  case None
  with assms that(1) show ?thesis by (simp add: slot_start_def)
next
  case (Some c)
  show ?thesis
  proof (cases "c = 0")
    case True
    with assms Some that(2) show ?thesis by (simp add: slot_start_def)
  next
    case False
    have start: "(t', m') = (case slot_hit (key_of p) (ucast c) m of
        Some (Inl (current, cap)) \<Rightarrow> (Denied current cap, m)
      | Some (Inr m') \<Rightarrow> (Guard p, m')
      | None \<Rightarrow> (Pending p (ucast c), m))"
      using assms Some False by (simp add: slot_start_def cap_eq_0 Let_def)
    have "slot_hit (key_of p) (ucast c) m = slot_hit (key_of p) (ucast c) m" ..
    then show ?thesis
    proof (cases rule: slot_hit_cases)
      case refuse
      with start show ?thesis by (intro that(3) [OF Some False]) simp_all
    next
      case grant
      with start show ?thesis by (intro that(4) [OF Some False]) simp_all
    next
      case miss
      with start show ?thesis by (intro that(5) [OF Some False]) simp_all
    qed
  qed
qed

lemma slot_insert_cases [consumes 2, case_names refuse grant]:
  assumes "slot_insert key_of p cap m = (t', m')" "cap \<noteq> 0"
  obtains "t' = Denied (lane_count m (key_of p)) cap" "m' = m" "cap \<le> lane_count m (key_of p)"
    | "t' = Guard p" "lane_count m (key_of p) < cap" "m' = AList.update (key_of p) (lane_count m (key_of p) + 1) m"
proof -
  have "slot_entry (key_of p) cap m = slot_entry (key_of p) cap m" ..
  from this assms(2) show ?thesis
  proof (cases rule: slot_entry_cases)
    case refuse
    with assms(1) show ?thesis by (intro that(1)) (auto simp: slot_insert_def)
  next
    case grant
    with assms(1) show ?thesis by (intro that(2)) (auto simp: slot_insert_def)
  qed
qed

lemma slot_acquire_granted:
  assumes "slot_acquire k cap m = (Inr u, m')"
  shows "lane_count m k < ucast cap"
proof -
  have c: "(ucast cap :: u64) \<noteq> 0" using assms by (auto simp: slot_acquire_def Let_def)
  have "slot_hit k (ucast cap) m = slot_hit k (ucast cap) m" "slot_entry k (ucast cap) m = slot_entry k (ucast cap) m"
    by (rule refl)+
  from this(1) show ?thesis
  proof (cases rule: slot_hit_cases)
    case miss
    from refl c show ?thesis
      by (cases rule: slot_entry_cases [of k "ucast cap" m "slot_entry k (ucast cap) m"])
        (use assms c miss in \<open>simp_all add: slot_acquire_def Let_def\<close>)
  qed (use assms c in \<open>simp_all add: slot_acquire_def Let_def\<close>)
qed

abbreviation slot_lane :: "('p \<Rightarrow> 'k) \<Rightarrow> 'p slot_thread \<Rightarrow> 'k option" where
  "slot_lane key_of t \<equiv> map_option key_of (slot_holds t)"

lemma slot_start_moves:
  "slot_start key_of p cap m = (t', m') \<Longrightarrow> lane_move m None m' (slot_lane key_of t')"
  "slot_start key_of p cap m = (t', m') \<Longrightarrow> slot_ok t'"
  by (erule slot_start_cases; auto simp: cap_eq_0 intro: lane_move.intros)+

lemma slot_insert_moves:
  "slot_insert key_of p cap m = (t', m') \<Longrightarrow> cap \<noteq> 0 \<Longrightarrow> lane_move m None m' (slot_lane key_of t')"
  "slot_insert key_of p cap m = (t', m') \<Longrightarrow> cap \<noteq> 0 \<Longrightarrow> slot_ok t'"
  by (erule (1) slot_insert_cases; auto intro: lane_move.intros)+

interpretation slots: slot_protocol "slot_step key_of" id "slot_lane key_of" "\<lambda>m. True" slot_ok for key_of
proof
  fix e t m t' m'
  assume ok: "slot_ok t" and step: "slot_step key_of e t m = (t', m')"
  show "lane_move (id m) (slot_lane key_of t) (id m') (slot_lane key_of t')"
    using step ok
    by (cases "(key_of, e, t, m)" rule: slot_step.cases)
      (auto simp: slot_start_moves slot_insert_moves intro: lane_move.intros)
  show "slot_ok t'"
    using step ok
    by (cases "(key_of, e, t, m)" rule: slot_step.cases) (auto simp: slot_start_moves slot_insert_moves)
qed simp

text \<open>The live guards of a lane, and the exactness of the count and of every decision.\<close>

definition live_guards :: "('p \<Rightarrow> 'k) \<Rightarrow> 'k \<Rightarrow> 'p slot_thread list \<Rightarrow> nat" where
  "live_guards key_of k ts = holders (\<lambda>t. slot_lane key_of t = Some k) ts"

lemma slot_run:
  assumes "run_schedule (slot_step key_of) sched ([], replicate n Free) = (m, ts)"
  shows "counted m (\<lambda>k. live_guards key_of k ts)" "\<And>t. t \<in> set ts \<Longrightarrow> slot_ok t"
proof -
  have "slots.accounted key_of ([], replicate n Free)"
    by (rule slots.fresh_accounted) simp_all
  then have "slots.accounted key_of (m, ts)"
    unfolding assms [symmetric] by (rule slots.run_accounted)
  moreover have "slots.live key_of ts = (\<lambda>k. live_guards key_of k ts)"
    by (simp add: fun_eq_iff slots.live_def live_guards_def)
  ultimately show "counted m (\<lambda>k. live_guards key_of k ts)" "\<And>t. t \<in> set ts \<Longrightarrow> slot_ok t"
    by (simp_all add: slots.accounted_def)
qed

lemma slot_decision:
  assumes "slot_ok t" "slot_asks e t = Some (p, cap)" "slot_step key_of e t m = (t', m')"
  shows "t' = Guard q \<Longrightarrow> q = p \<and> lane_count m (key_of p) < cap"
    and "t' = Denied x y \<Longrightarrow> cap \<le> lane_count m (key_of p)"
  using assms
  by (cases "(e, t)" rule: slot_asks.cases; auto elim!: slot_start_cases slot_insert_cases simp: cap_eq_0)+

lemma slot_exact:
  assumes "run_schedule (slot_step key_of) sched ([], replicate n Free) = (m, ts)"
  shows "unat (lane_count m k) = live_guards key_of k ts"
    and "fst ` set m = {k. 0 < live_guards key_of k ts}"
    and "i < length ts \<Longrightarrow> slot_asks e (ts ! i) = Some (p, cap) \<Longrightarrow> slot_step key_of e (ts ! i) m = (Guard q, m') \<Longrightarrow>
      q = p \<and> live_guards key_of (key_of p) ts < unat cap"
    and "i < length ts \<Longrightarrow> slot_asks e (ts ! i) = Some (p, cap) \<Longrightarrow> slot_step key_of e (ts ! i) m = (Denied x y, m') \<Longrightarrow>
      unat cap \<le> live_guards key_of (key_of p) ts"
proof -
  note run = slot_run [OF assms]
  have count: "unat (lane_count m k) = live_guards key_of k ts" for k
    using run(1) by (simp add: counted_def)
  then show "unat (lane_count m k) = live_guards key_of k ts" .
  show "fst ` set m = {k. 0 < live_guards key_of k ts}" using run(1) by (rule counted_keys)
  show "q = p \<and> live_guards key_of (key_of p) ts < unat cap"
    if "i < length ts" "slot_asks e (ts ! i) = Some (p, cap)" "slot_step key_of e (ts ! i) m = (Guard q, m')"
    using slot_decision(1) [OF run(2) that(2,3) refl] that(1) count [of "key_of p"] by (simp add: word_less_nat_alt)
  show "unat cap \<le> live_guards key_of (key_of p) ts"
    if "i < length ts" "slot_asks e (ts ! i) = Some (p, cap)" "slot_step key_of e (ts ! i) m = (Denied x y, m')"
    using slot_decision(2) [OF run(2) that(2,3) refl] that(1) count [of "key_of p"] by (simp add: word_le_nat_alt)
qed

end
