(* ===== verification/Pending_Limit.thy ===== *)
theory Pending_Limit
  imports Slot_Threads
begin

text \<open>
  \<^verbatim>\<open>src/src/backend_pending_limit.rs\<close>: the ceiling on in-flight HTTP/1.1 requests per logical
  destination. The identity of a destination is rendered once into a prefix; the lane is that
  prefix with the policy port.
\<close>

unbundle bit_operations_syntax

section \<open>Scopes and lanes\<close>

record BackendPendingScopeBase =
  scope_prefix :: string
  scope_digest :: u64

definition fnv1a64 :: "string \<Rightarrow> u64" where
  "fnv1a64 bytes =
     foldl (\<lambda>h c. (h XOR of_nat (byte_of c)) * 0x00000100000001B3) 0xcbf29ce484222325 bytes"

definition scope_text :: "string \<Rightarrow> string \<Rightarrow> string option \<Rightarrow> string option \<Rightarrow> string" where
  "scope_text namespace upstream_id k8s_service_uid sub =
     length_prefixed ''ns'' namespace @ ''|'' @ length_prefixed ''id'' upstream_id @
     (case k8s_service_uid of
        None \<Rightarrow> []
      | Some uid \<Rightarrow> if uid = [] then [] else ''|'' @ length_prefixed ''uid'' uid) @
     ''|'' @ (case sub of Some s \<Rightarrow> length_prefixed ''s'' s | None \<Rightarrow> ''n'') @ ''|''"

definition new_BackendPendingScopeBase ::
  "string \<Rightarrow> string \<Rightarrow> string option \<Rightarrow> string option \<Rightarrow> BackendPendingScopeBase" where
  "new_BackendPendingScopeBase namespace upstream_id k8s_service_uid sub =
     (let buf = scope_text namespace upstream_id k8s_service_uid sub in
      \<lparr>scope_prefix = buf, scope_digest = fnv1a64 buf\<rparr>)"

definition write_pending_key :: "BackendPendingScopeBase \<Rightarrow> u16 \<Rightarrow> string" where
  "write_pending_key scope port = scope_prefix scope @ dec (unat port)"

section \<open>The limiter\<close>

record BackendPendingLimitExceeded =
  pending_current :: u64
  pending_cap :: u64

text \<open>A guard is the key of its counter.\<close>

definition pending_try_acquire ::
  "BackendPendingScopeBase \<Rightarrow> u16 \<Rightarrow> u32 option \<Rightarrow> string lanes \<Rightarrow>
   (BackendPendingLimitExceeded + string option) \<times> string lanes" where
  "pending_try_acquire scope port cap m =
     (case cap of
        None \<Rightarrow> (Inr None, m)
      | Some cap \<Rightarrow>
          (let key = write_pending_key scope port in
           case slot_acquire key cap m of
             (Inl (current, cap), m') \<Rightarrow> (Inl \<lparr>pending_current = current, pending_cap = cap\<rparr>, m')
           | (Inr (), m') \<Rightarrow> (Inr (Some key), m')))"

definition pending_guard_drop :: "string \<Rightarrow> string lanes \<Rightarrow> string lanes" where
  "pending_guard_drop key m = slot_release key m"

definition current_pending :: "BackendPendingScopeBase \<Rightarrow> u16 \<Rightarrow> string lanes \<Rightarrow> u64" where
  "current_pending scope port m = lane_count m (write_pending_key scope port)"

section \<open>Lanes isolate logical destinations\<close>

text \<open>A request by the components its scope was built from; an empty uid counts as none.\<close>

record pending_request =
  req_namespace :: string
  req_upstream :: string
  req_uid :: "string option"
  req_subset :: "string option"
  req_port :: u16

definition request_scope :: "pending_request \<Rightarrow> BackendPendingScopeBase" where
  "request_scope r = new_BackendPendingScopeBase (req_namespace r) (req_upstream r) (req_uid r) (req_subset r)"

definition pending_key :: "pending_request \<Rightarrow> string" where
  "pending_key r = write_pending_key (request_scope r) (req_port r)"

definition known_uid :: "pending_request \<Rightarrow> string option" where
  "known_uid r = (if req_uid r = Some [] then None else req_uid r)"

definition same_destination :: "pending_request \<Rightarrow> pending_request \<Rightarrow> bool" where
  "same_destination a b \<longleftrightarrow>
     req_namespace a = req_namespace b \<and> req_upstream a = req_upstream b \<and> known_uid a = known_uid b \<and>
     req_subset a = req_subset b \<and> req_port a = req_port b"

definition uid_text :: "string option \<Rightarrow> string" where
  "uid_text uid = (case uid of None \<Rightarrow> [] | Some u \<Rightarrow> ''|'' @ length_prefixed ''uid'' u)"

definition subset_text :: "string option \<Rightarrow> string" where
  "subset_text s = (case s of Some s \<Rightarrow> length_prefixed ''s'' s | None \<Rightarrow> ''n'')"

lemma pending_key_text:
  "pending_key r = length_prefixed ''ns'' (req_namespace r) @ ''|'' @ length_prefixed ''id'' (req_upstream r) @
     uid_text (known_uid r) @ ''|'' @ subset_text (req_subset r) @ ''|'' @ dec (unat (req_port r))"
  by (simp add: pending_key_def request_scope_def new_BackendPendingScopeBase_def write_pending_key_def Let_def
      scope_text_def known_uid_def uid_text_def subset_text_def split: option.split)

lemma subset_text_inj:
  assumes "subset_text s @ ''|'' @ rest = subset_text s' @ ''|'' @ rest'"
  shows "s = s' \<and> rest = rest'"
proof (cases s)
  case None
  then show ?thesis using assms by (cases s') (auto simp: subset_text_def length_prefixed_def)
next
  case (Some x)
  then obtain y where y: "s' = Some y"
    using assms by (cases s') (auto simp: subset_text_def length_prefixed_def)
  have "length_prefixed ''s'' x @ (''|'' @ rest) = length_prefixed ''s'' y @ (''|'' @ rest')"
    using assms Some y by (simp add: subset_text_def)
  from length_prefixed_inj [OF this] Some y show ?thesis by simp
qed

lemma subset_text_first: "\<exists>c cs. subset_text s = c # cs \<and> c \<noteq> CHR ''u''"
  by (cases s) (simp_all add: subset_text_def length_prefixed_def)

lemma uid_text_inj:
  assumes "uid_text u @ ''|'' @ subset_text s @ rest = uid_text u' @ ''|'' @ subset_text s' @ rest'"
  shows "u = u' \<and> subset_text s @ rest = subset_text s' @ rest'"
proof -
  obtain c cs where c: "subset_text s = c # cs" "c \<noteq> CHR ''u''" using subset_text_first by blast
  obtain d ds where d: "subset_text s' = d # ds" "d \<noteq> CHR ''u''" using subset_text_first by blast
  show ?thesis
  proof (cases u)
    case None
    then show ?thesis using assms c by (cases u') (auto simp: uid_text_def length_prefixed_def)
  next
    case (Some x)
    then obtain y where y: "u' = Some y"
      using assms d by (cases u') (auto simp: uid_text_def length_prefixed_def)
    have "length_prefixed ''uid'' x @ (''|'' @ subset_text s @ rest) = length_prefixed ''uid'' y @ (''|'' @ subset_text s' @ rest')"
      using assms Some y by (simp add: uid_text_def)
    from length_prefixed_inj [OF this] Some y show ?thesis by simp
  qed
qed

lemma pending_key_inj: "pending_key a = pending_key b \<longleftrightarrow> same_destination a b"
proof
  assume eq: "pending_key a = pending_key b"
  let ?port = "\<lambda>r. dec (unat (req_port r))"
  let ?rest = "\<lambda>r. uid_text (known_uid r) @ ''|'' @ subset_text (req_subset r) @ ''|'' @ ?port r"
  note ns = length_prefixed_inj [OF eq [unfolded pending_key_text]]
  have 1: "length_prefixed ''id'' (req_upstream a) @ ?rest a = length_prefixed ''id'' (req_upstream b) @ ?rest b"
    using ns by simp
  note up = length_prefixed_inj [OF 1]
  note uid = uid_text_inj [OF conjunct2 [OF up]]
  note sub = subset_text_inj [OF conjunct2 [OF uid]]
  show "same_destination a b"
    using ns up uid sub by (simp add: same_destination_def word_unat_eq_iff)
qed (simp add: same_destination_def pending_key_text)

section \<open>Accounting\<close>

definition in_flight :: "pending_request \<Rightarrow> pending_request slot_thread list \<Rightarrow> nat" where
  "in_flight r ts = holders (\<lambda>t. \<exists>q. slot_holds t = Some q \<and> same_destination q r) ts"

lemma in_flight_guards: "live_guards pending_key (pending_key r) ts = in_flight r ts"
  by (simp add: live_guards_def in_flight_def pending_key_inj)

text \<open>C35. Under every interleaving of HTTP/1.1 dispatches the counter of a lane is the number of requests in
  flight to that logical destination: the same namespace, upstream, service uid, subset and
  policy port, whatever text these hold. A dispatch is admitted only below its cap and shed only
  at or above it, and without requests in flight no counter remains.\<close>

theorem pending_admission_exact:
  assumes "run_schedule (slot_step pending_key) sched ([], replicate n Free) = (m, ts)"
  shows "(\<forall>r. unat (current_pending (request_scope r) (req_port r) m) = in_flight r ts) \<and>
         (\<forall>i e r cap q m'. i < length ts \<longrightarrow> slot_asks e (ts ! i) = Some (r, cap) \<longrightarrow>
            slot_step pending_key e (ts ! i) m = (Guard q, m') \<longrightarrow> q = r \<and> in_flight r ts < unat cap) \<and>
         (\<forall>i e r cap x y m'. i < length ts \<longrightarrow> slot_asks e (ts ! i) = Some (r, cap) \<longrightarrow>
            slot_step pending_key e (ts ! i) m = (Denied x y, m') \<longrightarrow> unat cap \<le> in_flight r ts) \<and>
         ((\<forall>t \<in> set ts. slot_holds t = None) \<longrightarrow> m = [])"
proof -
  note exact = slot_exact [OF assms]
  have "unat (current_pending (request_scope r) (req_port r) m) = in_flight r ts" for r
    using exact(1) [of "pending_key r"] by (simp add: current_pending_def pending_key_def [symmetric] in_flight_guards)
  moreover have "q = r \<and> in_flight r ts < unat cap" if "i < length ts" "slot_asks e (ts ! i) = Some (r, cap)"
    "slot_step pending_key e (ts ! i) m = (Guard q, m')" for i e r cap q m'
    using exact(3) [OF that] by (simp add: in_flight_guards)
  moreover have "unat cap \<le> in_flight r ts" if "i < length ts" "slot_asks e (ts ! i) = Some (r, cap)"
    "slot_step pending_key e (ts ! i) m = (Denied x y, m')" for i e r cap x y m'
    using exact(4) [OF that] by (simp add: in_flight_guards)
  moreover have "m = []" if "\<forall>t \<in> set ts. slot_holds t = None"
    using exact(2) that by (auto simp: live_guards_def holders_def)
  ultimately show ?thesis by blast
qed

definition sample_request :: "string option \<Rightarrow> pending_request" where
  "sample_request uid = \<lparr>req_namespace = ''ns'', req_upstream = ''svc'', req_uid = uid, req_subset = None, req_port = 80\<rparr>"

theorem pending_admission_exact_witness:
  "\<exists>m. run_schedule (slot_step pending_key)
         [(0, Request (sample_request None) (Some 2)), (0, Continue), (1, Request (sample_request (Some [])) (Some 2)),
          (2, Request (sample_request (Some ''u1'')) (Some 2))] ([], replicate 3 Free) =
       (m, [Guard (sample_request None), Guard (sample_request (Some [])), Pending (sample_request (Some ''u1'')) 2]) \<and>
     unat (current_pending (request_scope (sample_request None)) 80 m) = 2"
proof -
  let ?sched = "[(0, Request (sample_request None) (Some 2)), (0, Continue), (1, Request (sample_request (Some [])) (Some 2)),
          (2, Request (sample_request (Some ''u1'')) (Some 2))]"
  define m where "m = fst (run_schedule (slot_step pending_key) ?sched ([], replicate 3 Free))"
  have run: "run_schedule (slot_step pending_key) ?sched ([], replicate 3 Free) =
      (m, [Guard (sample_request None), Guard (sample_request (Some [])), Pending (sample_request (Some ''u1'')) 2])"
    unfolding m_def by code_simp
  have two: "in_flight (sample_request None)
      [Guard (sample_request None), Guard (sample_request (Some [])), Pending (sample_request (Some ''u1'')) 2] = 2"
    by (simp add: in_flight_def holders_def same_destination_def sample_request_def known_uid_def)
  have port: "req_port (sample_request None) = 80" by (simp add: sample_request_def)
  show ?thesis
    using pending_admission_exact [OF run] run two port by metis
qed

end
