(* ===== verification/Backend_Conn_Limit.thy ===== *)
theory Backend_Conn_Limit
  imports Slot_Threads
begin

text \<open>
  \<^verbatim>\<open>src/src/backend_conn_limit.rs\<close>: the ceiling on open backend connections per destination, shared by
  every transport, and the lanes that bind a dial of the HTTP client to the policy of the
  dispatches in flight. Hosts are ASCII, as DNS names and address literals are.
\<close>

section \<open>Destinations\<close>

definition strip_first :: "char \<Rightarrow> string \<Rightarrow> string" where
  "strip_first c s = (case s of [] \<Rightarrow> [] | x # xs \<Rightarrow> if x = c then xs else s)"

definition strip_last :: "char \<Rightarrow> string \<Rightarrow> string" where
  "strip_last c s = (if s \<noteq> [] \<and> last s = c then butlast s else s)"

definition push_normalized_host :: "string \<Rightarrow> string" where
  "push_normalized_host host =
     map to_ascii_lowercase (strip_last (CHR '']'') (strip_first (CHR ''['') host))"

record BackendConnKey =
  conn_host :: string
  conn_port :: u16

definition new_BackendConnKey :: "string \<Rightarrow> u16 \<Rightarrow> BackendConnKey" where
  "new_BackendConnKey host port = \<lparr>conn_host = push_normalized_host host, conn_port = port\<rparr>"

section \<open>The limiter\<close>

record BackendConnectionLimitExceeded =
  conn_current :: u64
  conn_cap :: u64

type_synonym conn_lanes = "BackendConnKey lanes"

text \<open>A guard is the key of its counter.\<close>

definition conn_acquire_slot ::
  "string \<Rightarrow> u16 \<Rightarrow> u32 \<Rightarrow> conn_lanes \<Rightarrow> (BackendConnectionLimitExceeded + BackendConnKey) \<times> conn_lanes" where
  "conn_acquire_slot host port cap m =
     (let key = new_BackendConnKey host port in
      case slot_acquire key cap m of
        (Inl (current, cap), m') \<Rightarrow> (Inl \<lparr>conn_current = current, conn_cap = cap\<rparr>, m')
      | (Inr (), m') \<Rightarrow> (Inr key, m'))"

definition conn_try_acquire ::
  "string \<Rightarrow> u16 \<Rightarrow> u32 option \<Rightarrow> conn_lanes \<Rightarrow> (BackendConnectionLimitExceeded + BackendConnKey option) \<times> conn_lanes" where
  "conn_try_acquire host port cap m =
     (case cap of None \<Rightarrow> (Inr None, m)
      | Some cap \<Rightarrow> map_prod (map_sum id Some) id (conn_acquire_slot host port cap m))"

definition conn_try_acquire_shared ::
  "string \<Rightarrow> u16 \<Rightarrow> u32 \<Rightarrow> conn_lanes \<Rightarrow> (BackendConnectionLimitExceeded + BackendConnKey) \<times> conn_lanes" where
  "conn_try_acquire_shared host port cap m = conn_acquire_slot host port cap m"

definition conn_guard_drop :: "BackendConnKey \<Rightarrow> conn_lanes \<Rightarrow> conn_lanes" where
  "conn_guard_drop key m = slot_release key m"

definition current_connections :: "string \<Rightarrow> u16 \<Rightarrow> conn_lanes \<Rightarrow> u64" where
  "current_connections host port m = lane_count m (new_BackendConnKey host port)"

text \<open>The part of a resolved port override that connection admission reads.\<close>

record ResolvedPortOverride =
  max_connections :: "u32 option"
  override_policy_port :: "u16 option"

record PooledConnectionAdmission =
  pooled_host :: string
  pooled_policy_port :: u16
  pooled_cap :: u32

definition pooled_resolve ::
  "bool \<Rightarrow> (u16 \<times> ResolvedPortOverride) list option \<Rightarrow> string \<Rightarrow> u16 \<Rightarrow> PooledConnectionAdmission option" where
  "pooled_resolve limiter_installed dispatch_port_overrides dial_host override_port =
     (if \<not> limiter_installed then None
      else case Option.bind dispatch_port_overrides (\<lambda>overrides. map_of overrides override_port) of
             None \<Rightarrow> None
           | Some e \<Rightarrow>
               (case max_connections e of
                  None \<Rightarrow> None
                | Some cap \<Rightarrow> Some
                    \<lparr>pooled_host = dial_host,
                     pooled_policy_port = (case override_policy_port e of Some p \<Rightarrow> p | None \<Rightarrow> override_port),
                     pooled_cap = cap\<rparr>))"

definition pooled_acquire ::
  "PooledConnectionAdmission \<Rightarrow> conn_lanes \<Rightarrow> (BackendConnectionLimitExceeded + BackendConnKey) \<times> conn_lanes" where
  "pooled_acquire a m = conn_try_acquire_shared (pooled_host a) (pooled_policy_port a) (pooled_cap a) m"

section \<open>Dial lanes of the HTTP client\<close>

text \<open>Lanes are ordered by cap, then by port: the strictest first.\<close>

datatype ReqwestLane = ReqwestLane (lane_cap: u32) (lane_policy_port: u16)

instantiation ReqwestLane :: linorder
begin

definition less_eq_ReqwestLane :: "ReqwestLane \<Rightarrow> ReqwestLane \<Rightarrow> bool" where
  "less_eq_ReqwestLane a b \<longleftrightarrow>
     lane_cap a < lane_cap b \<or> lane_cap a = lane_cap b \<and> lane_policy_port a \<le> lane_policy_port b"

definition less_ReqwestLane :: "ReqwestLane \<Rightarrow> ReqwestLane \<Rightarrow> bool" where
  "less_ReqwestLane a b \<longleftrightarrow>
     lane_cap a < lane_cap b \<or> lane_cap a = lane_cap b \<and> lane_policy_port a < lane_policy_port b"

instance
  by standard (auto simp: less_eq_ReqwestLane_def less_ReqwestLane_def intro: ReqwestLane.expand)

end

record ReqwestDialLaneState =
  dial_generation :: u64
  dial_lane :: ReqwestLane
  dial_leases :: u64

definition dial_acquire :: "u64 \<Rightarrow> ReqwestLane \<Rightarrow> ReqwestDialLaneState \<Rightarrow> ReqwestDialLaneState" where
  "dial_acquire generation lane st =
     (let st = st\<lparr>dial_leases := dial_leases st + 1\<rparr> in
      if dial_leases st = 1 \<or> dial_generation st < generation
      then st\<lparr>dial_generation := generation, dial_lane := lane\<rparr>
      else if generation = dial_generation st \<and> lane < dial_lane st then st\<lparr>dial_lane := lane\<rparr>
      else st)"

definition release_is_idle :: "ReqwestDialLaneState \<Rightarrow> bool \<times> ReqwestDialLaneState" where
  "release_is_idle st =
     (let st = st\<lparr>dial_leases := dial_leases st - 1\<rparr> in (dial_leases st = 0, st))"

definition write_lane_key :: "string \<Rightarrow> u16 \<Rightarrow> string" where
  "write_lane_key host dial_port = push_normalized_host host @ ''|'' @ dec (unat dial_port)"

type_synonym dial_lanes = "(string \<times> ReqwestDialLaneState) list"

text \<open>The lease folds its publication into the entry, inserted when it is missing. A lease is
  the key of its entry.\<close>

definition lease_lane :: "u64 \<Rightarrow> string \<Rightarrow> u16 \<Rightarrow> u16 \<Rightarrow> u32 \<Rightarrow> dial_lanes \<Rightarrow> string \<times> dial_lanes" where
  "lease_lane config_generation dial_host dial_port policy_port cap m =
     (let lane = ReqwestLane cap policy_port;
          key = write_lane_key dial_host dial_port;
          st = (case map_of m key of
                  Some st \<Rightarrow> st
                | None \<Rightarrow> \<lparr>dial_generation = config_generation, dial_lane = lane, dial_leases = 0\<rparr>)
      in (key, AList.update key (dial_acquire config_generation lane st) m))"

definition lease_drop :: "string \<Rightarrow> dial_lanes \<Rightarrow> dial_lanes" where
  "lease_drop key m =
     (case map_of m key of
        None \<Rightarrow> m
      | Some st \<Rightarrow>
          (case release_is_idle st of
             (True, _) \<Rightarrow> AList.delete key m
           | (False, st') \<Rightarrow> AList.update key st' m))"

definition lane_for :: "string \<Rightarrow> u16 \<Rightarrow> dial_lanes \<Rightarrow> ReqwestLane option" where
  "lane_for host port m = map_option dial_lane (map_of m (write_lane_key host port))"

text \<open>The connector hook on a dial URI, given by its host, port and scheme.\<close>

record dial_uri =
  uri_host :: "string option"
  uri_port :: "u16 option"
  uri_scheme :: "string option"

datatype admission_token = Unlimited | Slot BackendConnKey

definition admit_dial ::
  "dial_uri \<Rightarrow> dial_lanes \<Rightarrow> conn_lanes \<Rightarrow> (BackendConnectionLimitExceeded + admission_token) \<times> conn_lanes" where
  "admit_dial dst lanes m =
     (case uri_host dst of
        None \<Rightarrow> (Inr Unlimited, m)
      | Some host \<Rightarrow>
          (let port = (case uri_port dst of Some p \<Rightarrow> p
                       | None \<Rightarrow> if uri_scheme dst = Some ''https'' then 443 else 80)
           in case lane_for host port lanes of
                None \<Rightarrow> (Inr Unlimited, m)
              | Some lane \<Rightarrow>
                  map_prod (map_sum id Slot) id
                    (conn_try_acquire_shared host (lane_policy_port lane) (lane_cap lane) m)))"

section \<open>Connections are counted per destination\<close>

definition conn_key :: "string \<times> u16 \<Rightarrow> BackendConnKey" where
  "conn_key d = new_BackendConnKey (fst d) (snd d)"

text \<open>The guards open to a destination, whatever spelling of the host they were taken with.\<close>

definition open_connections :: "string \<Rightarrow> u16 \<Rightarrow> (string \<times> u16) slot_thread list \<Rightarrow> nat" where
  "open_connections host port ts =
     holders (\<lambda>t. \<exists>h. slot_holds t = Some (h, port) \<and> push_normalized_host h = push_normalized_host host) ts"

lemma open_connections_guards:
  "live_guards conn_key (new_BackendConnKey host port) ts = open_connections host port ts"
proof -
  have "map_option conn_key (slot_holds t) = Some (new_BackendConnKey host port) \<longleftrightarrow>
      (\<exists>h. slot_holds t = Some (h, port) \<and> push_normalized_host h = push_normalized_host host)" for t
    by (cases "slot_holds t") (auto simp: conn_key_def new_BackendConnKey_def)
  then show ?thesis by (simp add: live_guards_def open_connections_def)
qed



section \<open>Dial lanes govern the dispatches in flight\<close>

datatype lease_thread = NoLease | Lease string u64 ReqwestLane

datatype lease_event = TakeLease u64 string u16 u16 u32 | EndLease

fun lease_step :: "lease_event \<Rightarrow> lease_thread \<Rightarrow> dial_lanes \<Rightarrow> lease_thread \<times> dial_lanes" where
  "lease_step (TakeLease generation host port policy_port cap) NoLease m =
     (let (key, m') = lease_lane generation host port policy_port cap m
      in (Lease key generation (ReqwestLane cap policy_port), m'))"
| "lease_step EndLease (Lease key generation lane) m = (NoLease, lease_drop key m)"
| "lease_step _ t m = (t, m)"

fun lease_key :: "lease_thread \<Rightarrow> string option" where
  "lease_key (Lease key generation lane) = Some key"
| "lease_key NoLease = None"

definition governs :: "ReqwestDialLaneState \<Rightarrow> u64 \<Rightarrow> ReqwestLane \<Rightarrow> bool" where
  "governs st generation lane \<longleftrightarrow>
     generation < dial_generation st \<or> generation = dial_generation st \<and> dial_lane st \<le> lane"

definition published :: "lease_event set \<Rightarrow> string \<Rightarrow> ReqwestDialLaneState \<Rightarrow> bool" where
  "published es key st \<longleftrightarrow>
     (\<exists>host port policy_port cap. TakeLease (dial_generation st) host port policy_port cap \<in> es \<and>
        key = write_lane_key host port \<and> dial_lane st = ReqwestLane cap policy_port)"

definition lease_holders :: "string \<Rightarrow> lease_thread list \<Rightarrow> nat" where
  "lease_holders key ts = holders (\<lambda>t. lease_key t = Some key) ts"

definition entry_ok :: "lease_event set \<Rightarrow> lease_thread list \<Rightarrow> string \<Rightarrow> ReqwestDialLaneState \<Rightarrow> bool" where
  "entry_ok es ts key st \<longleftrightarrow>
     published es key st \<and> unat (dial_leases st) = lease_holders key ts \<and> 0 < lease_holders key ts \<and>
     (\<forall>generation lane. Lease key generation lane \<in> set ts \<longrightarrow> governs st generation lane)"

definition leases_ok :: "lease_event set \<Rightarrow> dial_lanes \<Rightarrow> lease_thread list \<Rightarrow> bool" where
  "leases_ok es m ts \<longleftrightarrow>
     distinct (map fst m) \<and>
     (\<forall>key. case map_of m key of None \<Rightarrow> lease_holders key ts = 0 | Some st \<Rightarrow> entry_ok es ts key st)"

lemma dial_acquire_fresh:
  "dial_acquire g l \<lparr>dial_generation = g', dial_lane = l', dial_leases = 0\<rparr> =
   \<lparr>dial_generation = g, dial_lane = l, dial_leases = 1\<rparr>"
  by (simp add: dial_acquire_def)

lemma dial_acquire_governs:
  "governs (dial_acquire g l st) g l"
  "dial_leases st \<noteq> 0 \<Longrightarrow> governs st g' l' \<Longrightarrow> governs (dial_acquire g l st) g' l'"
  by (auto simp: governs_def dial_acquire_def Let_def)

lemma dial_acquire_leases: "dial_leases (dial_acquire g l st) = dial_leases st + 1"
  by (simp add: dial_acquire_def Let_def)

lemma dial_acquire_from:
  "dial_generation (dial_acquire g l st) = g \<and> dial_lane (dial_acquire g l st) = l \<or>
   dial_generation (dial_acquire g l st) = dial_generation st \<and> dial_lane (dial_acquire g l st) = dial_lane st"
  by (simp add: dial_acquire_def Let_def)

lemma lease_holders_update:
  assumes "i < length ts"
  shows "lease_holders key (ts[i := t]) + of_bool (lease_key (ts ! i) = Some key) =
         lease_holders key ts + of_bool (lease_key t = Some key)"
  unfolding lease_holders_def using holders_update [OF assms, where holds = "\<lambda>t. lease_key t = Some key"] .

lemma lease_holders_pos: "Lease key g l \<in> set ts \<Longrightarrow> 0 < lease_holders key ts"
  unfolding lease_holders_def holders_def length_greater_0_conv filter_empty_conv by force

lemma lease_holders_le: "lease_holders key ts \<le> length ts"
  by (simp add: lease_holders_def holders_def)

lemma in_update: "x \<in> set (ts[i := t]) \<Longrightarrow> x = t \<or> x \<in> set ts"
  using set_update_subset_insert [of ts i t] by auto

lemma leases_okD:
  assumes "leases_ok es m ts"
  shows "distinct (map fst m)" "map_of m k = None \<Longrightarrow> lease_holders k ts = 0" "map_of m k = Some x \<Longrightarrow> entry_ok es ts k x"
  using assms spec [OF conjunct2 [OF assms [unfolded leases_ok_def]], of k] by (simp_all add: leases_ok_def)

lemma leases_okI:
  assumes "distinct (map fst m)" "\<And>k. map_of m k = None \<Longrightarrow> lease_holders k ts = 0"
    and "\<And>k x. map_of m k = Some x \<Longrightarrow> entry_ok es ts k x"
  shows "leases_ok es m ts"
  unfolding leases_ok_def using assms(1) by (auto split: option.split intro: assms(2,3) simp del: map_of_eq_None_iff)

lemma leases_ok_take:
  assumes ok: "leases_ok es m ts" and i: "i < length ts" "ts ! i = NoLease" and n: "length ts < 2 ^ 64"
    and e: "TakeLease g host port pp cap \<in> es" and "lease_lane g host port pp cap m = (key, m')"
  shows "leases_ok es m' (ts[i := Lease key g (ReqwestLane cap pp)])" (is "leases_ok es m' ?ts")
proof -
  let ?lane = "ReqwestLane cap pp"
  define st where "st = (case map_of m key of Some st \<Rightarrow> st | None \<Rightarrow> \<lparr>dial_generation = g, dial_lane = ?lane, dial_leases = 0\<rparr>)"
  have key: "key = write_lane_key host port" and m': "m' = AList.update key (dial_acquire g ?lane st) m"
    using assms(6) by (auto simp: lease_lane_def Let_def st_def)
  have cnt: "lease_holders k ?ts = lease_holders k ts + of_bool (key = k)" for k
    using lease_holders_update [OF i(1), of k "Lease key g ?lane"] i(2) by simp
  note none = leases_okD(2) [OF ok] and old = leases_okD(3) [OF ok]
  have leases: "unat (dial_leases st) = lease_holders key ts"
    using old none by (auto simp: st_def entry_ok_def split: option.split)
  have "lease_holders key ts < 2 ^ 64 - 1"
    using lease_holders_le [of key ?ts] n cnt [of key] by simp
  then have "unat (dial_leases st + 1) = lease_holders key ?ts"
    using leases by (simp add: cnt unat_word_ariths)
  moreover have "published es key (dial_acquire g ?lane st)"
  proof (cases "map_of m key")
    case None
    with e key show ?thesis by (auto simp: published_def st_def dial_acquire_fresh)
  next
    case (Some x)
    with old have "published es key x" "st = x" by (simp_all add: entry_ok_def st_def)
    with dial_acquire_from [of g ?lane st] e key show ?thesis unfolding published_def by metis
  qed
  moreover have "governs (dial_acquire g ?lane st) g' l'" if "Lease key g' l' \<in> set ?ts" for g' l'
  proof (cases "Lease key g' l' \<in> set ts")
    case True
    from lease_holders_pos [OF this] none obtain x where x: "map_of m key = Some x" by (cases "map_of m key") auto
    with old [OF x] True lease_holders_pos [OF True] leases show ?thesis
      by (intro dial_acquire_governs(2)) (auto simp: st_def entry_ok_def)
  next
    case False
    with in_update [OF that] show ?thesis by (simp add: dial_acquire_governs(1))
  qed
  ultimately have new: "entry_ok es ?ts key (dial_acquire g ?lane st)"
    by (auto simp: entry_ok_def dial_acquire_leases cnt)
  have "entry_ok es ?ts k x" if "map_of m k = Some x" "k \<noteq> key" for k x
    using old [OF that(1)] that(2) by (auto simp: entry_ok_def cnt dest!: in_update)
  with new none leases_okD(1) [OF ok] show ?thesis
    unfolding m' by (intro leases_okI) (auto simp: update_conv' distinct_update cnt split: if_splits)
qed

lemma leases_ok_drop:
  assumes ok: "leases_ok es m ts" and i: "i < length ts" "ts ! i = Lease key g l"
  shows "leases_ok es (lease_drop key m) (ts[i := NoLease])" (is "leases_ok es _ ?ts")
proof -
  have cnt: "lease_holders k ?ts + of_bool (key = k) = lease_holders k ts" for k
    using lease_holders_update [OF i(1), of k NoLease] i(2) by simp
  note none = leases_okD(2) [OF ok] and old = leases_okD(3) [OF ok]
  have gone: "lease_holders k ?ts = 0" if "map_of m k = None" for k using none [OF that] cnt [of k] by simp
  have "0 < lease_holders key ts" using i nth_mem lease_holders_pos by metis
  with none obtain st where st: "map_of m key = Some st" by (cases "map_of m key") auto
  note ent = old [OF st]
  have less: "unat (dial_leases st - 1) = lease_holders key ?ts"
    using ent cnt [of key] unat_dec [of "dial_leases st"] by (cases "dial_leases st = 0") (auto simp: entry_ok_def)
  have other: "entry_ok es ?ts k x" if "map_of m k = Some x" "k \<noteq> key" for k x
    using old [OF that(1)] cnt [of k] that(2) by (auto simp: entry_ok_def dest!: in_update)
  show ?thesis
  proof (cases "lease_holders key ?ts = 0")
    case True
    then have "dial_leases st - 1 = 0" using less by (simp add: word_unat_eq_iff)
    then have "lease_drop key m = AList.delete key m"
      by (simp add: lease_drop_def st release_is_idle_def)
    with True other leases_okD(1) [OF ok] gone show ?thesis
      by (intro leases_okI) (auto simp: delete_conv' distinct_delete split: if_splits)
  next
    case False
    then have "dial_leases st - 1 \<noteq> 0" using less by (auto simp: word_unat_eq_iff)
    then have drop: "lease_drop key m = AList.update key (st\<lparr>dial_leases := dial_leases st - 1\<rparr>) m"
      by (simp add: lease_drop_def st release_is_idle_def)
    have "entry_ok es ?ts key (st\<lparr>dial_leases := dial_leases st - 1\<rparr>)"
      using ent less False by (auto simp: entry_ok_def published_def governs_def dest!: in_update)
    with other leases_okD(1) [OF ok] gone show ?thesis
      unfolding drop by (intro leases_okI) (auto simp: update_conv' distinct_update split: if_splits)
  qed
qed

lemma leases_ok_step:
  assumes "leases_ok es (fst st) (snd st)" "length (snd st) < 2 ^ 64" "snd ie \<in> es"
  shows "leases_ok es (fst (sys_step lease_step ie st)) (snd (sys_step lease_step ie st)) \<and>
         length (snd (sys_step lease_step ie st)) = length (snd st)"
proof -
  obtain i e m ts where st: "st = (m, ts)" and ie: "ie = (i, e)" by (metis surj_pair)
  obtain m' ts' where eq: "sys_step lease_step (i, e) (m, ts) = (m', ts')" by (metis surj_pair)
  then show ?thesis
  proof (cases rule: sys_step_cases)
    case (move t')
    have same: "ts[i := t] = ts" if "ts ! i = t" for t using that by auto
    have "leases_ok es m' (ts[i := t'])"
      using move(1,2) assms st ie
      by (cases "(e, ts ! i, m)" rule: lease_step.cases)
        (auto simp: leases_ok_drop same split: prod.splits intro: leases_ok_take)
    with move st ie eq show ?thesis by simp
  qed (use assms st ie eq in simp)
qed

lemma leases_ok_run:
  assumes "snd ` set sched \<subseteq> es" "leases_ok es (fst st) (snd st)" "length (snd st) < 2 ^ 64"
  shows "leases_ok es (fst (run_schedule lease_step sched st)) (snd (run_schedule lease_step sched st))"
  using assms
proof (induction sched arbitrary: st)
  case (Cons ie sched)
  then have "snd ie \<in> es" by simp
  from leases_ok_step [OF Cons.prems(2,3) this] Cons show ?case by simp
qed simp

lemma admit_dial_governed:
  assumes "lane_for host port lanes = Some gov" "uri_host dst = Some host" "uri_port dst = Some port"
    and "admit_dial dst lanes c = (r, c')"
  shows "r \<noteq> Inr Unlimited"
    and "r = Inr (Slot k) \<Longrightarrow> current_connections host (lane_policy_port gov) c < ucast (lane_cap gov)"
proof -
  have r: "(r, c') = map_prod (map_sum id Slot) id (conn_acquire_slot host (lane_policy_port gov) (lane_cap gov) c)"
    using assms by (simp add: admit_dial_def conn_try_acquire_shared_def)
  show "r \<noteq> Inr Unlimited"
    using r by (auto simp: map_prod_def map_sum_def split: prod.splits sum.splits)
  show "current_connections host (lane_policy_port gov) c < ucast (lane_cap gov)" if slot: "r = Inr (Slot k)"
  proof -
    obtain key where "fst (conn_acquire_slot host (lane_policy_port gov) (lane_cap gov) c) = Inr key"
      using r slot by (cases "fst (conn_acquire_slot host (lane_policy_port gov) (lane_cap gov) c)") (simp_all add: prod_eq_iff)
    then obtain m' where "slot_acquire (new_BackendConnKey host (lane_policy_port gov)) (lane_cap gov) c = (Inr (), m')"
      by (auto simp: conn_acquire_slot_def Let_def split: prod.splits sum.splits)
    from slot_acquire_granted [OF this] show ?thesis by (simp add: current_connections_def)
  qed
qed

definition superseded :: "(nat \<times> lease_event) list \<Rightarrow> string \<Rightarrow> u64 \<Rightarrow> ReqwestLane \<Rightarrow> bool" where
  "superseded sched key generation gov \<longleftrightarrow>
     (\<exists>i g h p. generation < g \<and> (i, TakeLease g h p (lane_policy_port gov) (lane_cap gov)) \<in> set sched \<and>
        write_lane_key h p = key)"

lemma lease_governed:
  assumes ok: "leases_ok (snd ` set sched) lanes ts" and lease: "Lease (write_lane_key host port) generation lane \<in> set ts"
  shows "\<exists>gov. lane_for host port lanes = Some gov \<and> (gov \<le> lane \<or> superseded sched (write_lane_key host port) generation gov)"
proof -
  from lease_holders_pos [OF lease] leases_okD(2) [OF ok] obtain st
    where st: "map_of lanes (write_lane_key host port) = Some st"
    by (cases "map_of lanes (write_lane_key host port)") auto
  with leases_okD(3) [OF ok st] lease have gov: "governs st generation lane"
    and pub: "published (snd ` set sched) (write_lane_key host port) st" by (auto simp: entry_ok_def)
  from pub obtain i h p pp cap where "(i, TakeLease (dial_generation st) h p pp cap) \<in> set sched"
    "write_lane_key host port = write_lane_key h p" "dial_lane st = ReqwestLane cap pp"
    unfolding published_def by auto
  then have "(i, TakeLease (dial_generation st) h p (lane_policy_port (dial_lane st)) (lane_cap (dial_lane st))) \<in> set sched"
    "write_lane_key h p = write_lane_key host port" by simp_all
  with gov have "dial_lane st \<le> lane \<or> superseded sched (write_lane_key host port) generation (dial_lane st)"
    unfolding governs_def superseded_def by blast
  with st show ?thesis by (simp add: lane_for_def)
qed

lemma lanes_drain:
  assumes "leases_ok es lanes ts" "\<forall>t \<in> set ts. t = NoLease"
  shows "lanes = []"
proof -
  have "lease_holders k ts = 0" for k using assms(2) by (auto simp: lease_holders_def holders_def filter_empty_conv)
  then have "map_of lanes k = None" for k
    using leases_okD(3) [OF assms(1), of k] by (cases "map_of lanes k") (auto simp: entry_ok_def)
  then show ?thesis by (cases lanes) (auto, metis map_of_Cons_code(2) option.distinct(1))
qed


text \<open>Two dispatches of one generation with different caps; the stricter one has ended.\<close>

definition sample_dispatches :: "(nat \<times> lease_event) list" where
  "sample_dispatches = [(0, TakeLease 1 ''b.com'' 80 80 5), (1, TakeLease 1 ''B.com'' 80 80 3), (1, EndLease)]"


end
