(* ===== verification/Conn_Limiter.thy ===== *)
theory Conn_Limiter
  imports Slot_Map Std_Net
begin

text \<open>
  \<^verbatim>\<open>src/src/util/conn_limit.rs\<close>: connection admission before authentication, with a global pool of
  slots and a share per source address. The pool is a semaphore of the async runtime, a parameter
  with its documented contract. The step function runs accepts and closes of many connections,
  one atomic operation at a time.
\<close>

section \<open>The semaphore\<close>

record 'h semaphore_lib =
  sem_new :: "nat \<Rightarrow> 'h"
  sem_try_acquire :: "'h \<Rightarrow> 'h option"
  sem_release :: "'h \<Rightarrow> 'h"
  sem_available :: "'h \<Rightarrow> nat"

text \<open>A new semaphore has its permits; a try takes one if there is one and never waits; a dropped
  permit returns.\<close>

definition sem_contract :: "'h semaphore_lib \<Rightarrow> bool" where
  "sem_contract lib \<longleftrightarrow>
     (\<forall>n. sem_available lib (sem_new lib n) = n) \<and>
     (\<forall>h. case sem_try_acquire lib h of
            None \<Rightarrow> sem_available lib h = 0
          | Some h' \<Rightarrow> sem_available lib h = Suc (sem_available lib h')) \<and>
     (\<forall>h. sem_available lib (sem_release lib h) = Suc (sem_available lib h))"

section \<open>The limiter\<close>

datatype ConnRejectReason = MaxConnections | MaxConnectionsPerIp

definition as_label :: "ConnRejectReason \<Rightarrow> string" where
  "as_label r = (case r of MaxConnections \<Rightarrow> ''max_connections'' | MaxConnectionsPerIp \<Rightarrow> ''max_connections_per_ip'')"

record 'h ConnLimiter =
  pool :: "'h option"
  max_connections :: nat
  max_connections_per_ip :: nat
  per_ip_active :: "(IpAddr \<times> u32) list"
  active_count :: u64
  rejected_max_connections :: u64
  rejected_max_connections_per_ip :: u64

definition new_ConnLimiter :: "'h semaphore_lib \<Rightarrow> nat \<Rightarrow> nat \<Rightarrow> nat \<Rightarrow> 'h ConnLimiter" where
  "new_ConnLimiter lib MAX_PERMITS max_conns max_per_ip =
     \<lparr>pool = (if 0 < max_conns then Some (sem_new lib (min max_conns MAX_PERMITS)) else None),
      max_connections = max_conns, max_connections_per_ip = max_per_ip, per_ip_active = [],
      active_count = 0, rejected_max_connections = 0, rejected_max_connections_per_ip = 0\<rparr>"

text \<open>The three sections of \<open>try_acquire\<close>: the global slot, the per-address entry, the gauge.\<close>

definition acquire_global :: "'h semaphore_lib \<Rightarrow> 'h ConnLimiter \<Rightarrow> (ConnRejectReason + bool) \<times> 'h ConnLimiter" where
  "acquire_global lib s =
     (case pool s of
        None \<Rightarrow> (Inr False, s)
      | Some h \<Rightarrow>
          (case sem_try_acquire lib h of
             Some h' \<Rightarrow> (Inr True, s\<lparr>pool := Some h'\<rparr>)
           | None \<Rightarrow> (Inl MaxConnections, s\<lparr>rejected_max_connections := rejected_max_connections s + 1\<rparr>)))"

definition acquire_per_ip :: "IpAddr \<Rightarrow> 'h ConnLimiter \<Rightarrow> (ConnRejectReason + bool) \<times> 'h ConnLimiter" where
  "acquire_per_ip ip s =
     (if 0 < max_connections_per_ip s then
        (case map_of (per_ip_active s) ip of
           Some count \<Rightarrow>
             if max_connections_per_ip s \<le> unat count
             then (Inl MaxConnectionsPerIp,
                   s\<lparr>rejected_max_connections_per_ip := rejected_max_connections_per_ip s + 1\<rparr>)
             else (Inr True, s\<lparr>per_ip_active := AList.update ip (count + 1) (per_ip_active s)\<rparr>)
         | None \<Rightarrow> (Inr True, s\<lparr>per_ip_active := AList.update ip 1 (per_ip_active s)\<rparr>))
      else (Inr False, s))"

definition release_global :: "'h semaphore_lib \<Rightarrow> bool \<Rightarrow> 'h ConnLimiter \<Rightarrow> 'h ConnLimiter" where
  "release_global lib has s = (if has then s\<lparr>pool := map_option (sem_release lib) (pool s)\<rparr> else s)"

record ConnPermit =
  permit_ip :: IpAddr
  per_ip_tracked :: bool
  has_global :: bool

definition conn_limiter_try_acquire ::
  "'h semaphore_lib \<Rightarrow> IpAddr \<Rightarrow> 'h ConnLimiter \<Rightarrow> (ConnRejectReason + ConnPermit) \<times> 'h ConnLimiter" where
  "conn_limiter_try_acquire lib ip s =
     (case acquire_global lib s of
        (Inl r, s) \<Rightarrow> (Inl r, s)
      | (Inr global, s) \<Rightarrow>
          (case acquire_per_ip ip s of
             (Inl r, s) \<Rightarrow> (Inl r, release_global lib global s)
           | (Inr tracked, s) \<Rightarrow>
               (Inr \<lparr>permit_ip = ip, per_ip_tracked = tracked, has_global = global\<rparr>,
                s\<lparr>active_count := active_count s + 1\<rparr>)))"

definition release_per_ip :: "IpAddr \<Rightarrow> bool \<Rightarrow> 'h ConnLimiter \<Rightarrow> 'h ConnLimiter" where
  "release_per_ip ip tracked s =
     (if tracked then
        (case map_of (per_ip_active s) ip of
           None \<Rightarrow> s
         | Some count \<Rightarrow>
             (let count = saturating_sub count 1 in
              if count = 0 then s\<lparr>per_ip_active := AList.delete ip (per_ip_active s)\<rparr>
              else s\<lparr>per_ip_active := AList.update ip count (per_ip_active s)\<rparr>))
      else s)"

definition conn_release :: "IpAddr \<Rightarrow> bool \<Rightarrow> 'h ConnLimiter \<Rightarrow> 'h ConnLimiter" where
  "conn_release ip tracked s = release_per_ip ip tracked (s\<lparr>active_count := active_count s - 1\<rparr>)"

definition permit_drop :: "'h semaphore_lib \<Rightarrow> ConnPermit \<Rightarrow> 'h ConnLimiter \<Rightarrow> 'h ConnLimiter" where
  "permit_drop lib p s = release_global lib (has_global p) (conn_release (permit_ip p) (per_ip_tracked p) s)"

definition tracked_source_ips :: "'h ConnLimiter \<Rightarrow> nat" where
  "tracked_source_ips s = length (per_ip_active s)"

section \<open>Concurrent connections\<close>

text \<open>Where a connection stands in \<open>try_acquire\<close>, in its life and in the drop of its permit.\<close>

datatype conn_thread =
    Outside
  | GlobalTaken IpAddr bool
  | Rejecting ConnRejectReason bool
  | Counting ConnPermit
  | Admitted ConnPermit
  | Uncounted ConnPermit
  | IpReleased ConnPermit

datatype conn_event = Arrive IpAddr | Proceed

fun conn_step :: "'h semaphore_lib \<Rightarrow> conn_event \<Rightarrow> conn_thread \<Rightarrow> 'h ConnLimiter \<Rightarrow> conn_thread \<times> 'h ConnLimiter" where
  "conn_step lib (Arrive ip) Outside s =
     (case acquire_global lib s of
        (Inl r, s') \<Rightarrow> (Outside, s')
      | (Inr global, s') \<Rightarrow> (GlobalTaken ip global, s'))"
| "conn_step lib Proceed (GlobalTaken ip global) s =
     (case acquire_per_ip ip s of
        (Inl r, s') \<Rightarrow> (Rejecting r global, s')
      | (Inr tracked, s') \<Rightarrow> (Counting \<lparr>permit_ip = ip, per_ip_tracked = tracked, has_global = global\<rparr>, s'))"
| "conn_step lib Proceed (Rejecting r global) s = (Outside, release_global lib global s)"
| "conn_step lib Proceed (Counting p) s = (Admitted p, s\<lparr>active_count := active_count s + 1\<rparr>)"
| "conn_step lib Proceed (Admitted p) s = (Uncounted p, s\<lparr>active_count := active_count s - 1\<rparr>)"
| "conn_step lib Proceed (Uncounted p) s = (IpReleased p, release_per_ip (permit_ip p) (per_ip_tracked p) s)"
| "conn_step lib Proceed (IpReleased p) s = (Outside, release_global lib (has_global p) s)"
| "conn_step lib _ t s = (t, s)"

fun holds_global :: "conn_thread \<Rightarrow> bool" where
  "holds_global (GlobalTaken ip global) = global"
| "holds_global (Rejecting r global) = global"
| "holds_global (Counting p) = has_global p"
| "holds_global (Admitted p) = has_global p"
| "holds_global (Uncounted p) = has_global p"
| "holds_global (IpReleased p) = has_global p"
| "holds_global Outside = False"

definition tracked_ip :: "ConnPermit \<Rightarrow> IpAddr option" where
  "tracked_ip p = (if per_ip_tracked p then Some (permit_ip p) else None)"

fun holds_ip :: "conn_thread \<Rightarrow> IpAddr option" where
  "holds_ip (Counting p) = tracked_ip p"
| "holds_ip (Admitted p) = tracked_ip p"
| "holds_ip (Uncounted p) = tracked_ip p"
| "holds_ip _ = None"

fun is_admitted :: "conn_thread \<Rightarrow> bool" where
  "is_admitted (Admitted p) = True"
| "is_admitted _ = False"

fun admitted_from :: "IpAddr \<Rightarrow> conn_thread \<Rightarrow> bool" where
  "admitted_from ip (Admitted p) = (permit_ip p = ip)"
| "admitted_from _ _ = False"

section \<open>Invariants\<close>

text \<open>The flags of a connection agree with the caps the limiter was built with.\<close>

definition permit_ok :: "bool \<Rightarrow> bool \<Rightarrow> ConnPermit \<Rightarrow> bool" where
  "permit_ok capped tracked p \<longleftrightarrow> has_global p = capped \<and> per_ip_tracked p = tracked"

fun conn_ok :: "bool \<Rightarrow> bool \<Rightarrow> conn_thread \<Rightarrow> bool" where
  "conn_ok capped tracked Outside = True"
| "conn_ok capped tracked (GlobalTaken ip global) = (global = capped)"
| "conn_ok capped tracked (Rejecting r global) = (global = capped)"
| "conn_ok capped tracked (Counting p) = permit_ok capped tracked p"
| "conn_ok capped tracked (Admitted p) = permit_ok capped tracked p"
| "conn_ok capped tracked (Uncounted p) = permit_ok capped tracked p"
| "conn_ok capped tracked (IpReleased p) = permit_ok capped tracked p"

definition limiter_ok :: "bool \<Rightarrow> nat \<Rightarrow> 'h ConnLimiter \<Rightarrow> bool" where
  "limiter_ok capped per_ip s \<longleftrightarrow>
     (pool s \<noteq> None) = capped \<and> max_connections_per_ip s = per_ip \<and> per_ip < 2 ^ 32 \<and>
     (\<forall>ip. unat (lane_count (per_ip_active s) ip) \<le> per_ip)"

lemma acquire_global_cases [consumes 1, case_names unlimited granted full]:
  assumes "acquire_global lib s = (r, s')"
  obtains "pool s = None" "r = Inr False" "s' = s"
    | h h' where "pool s = Some h" "sem_try_acquire lib h = Some h'" "r = Inr True" "s' = s\<lparr>pool := Some h'\<rparr>"
    | h where "pool s = Some h" "sem_try_acquire lib h = None" "r = Inl MaxConnections"
        "s' = s\<lparr>rejected_max_connections := rejected_max_connections s + 1\<rparr>"
  using assms by (auto simp: acquire_global_def split: option.splits)

lemma small_count:
  assumes "unat (c :: u32) < k" "k < 2 ^ 32"
  shows "c < of_nat k" "unat (c + 1) = Suc (unat c)" "unat (c + 1) \<le> k"
proof -
  have k: "unat (of_nat k :: u32) = k" using assms(2) by (simp add: unat_of_nat)
  then show less: "c < of_nat k" using assms(1) by (simp add: word_less_nat_alt)
  then show "unat (c + 1) = Suc (unat c)" by (rule unat_below_Suc)
  with assms(1) show "unat (c + 1) \<le> k" by simp
qed

lemma acquire_per_ip_cases [consumes 1, case_names untracked granted full]:
  assumes "acquire_per_ip ip s = (r, s')"
  obtains "max_connections_per_ip s = 0" "r = Inr False" "s' = s"
    | "0 < max_connections_per_ip s" "r = Inr True" "unat (lane_count (per_ip_active s) ip) < max_connections_per_ip s"
        "s' = s\<lparr>per_ip_active := AList.update ip (lane_count (per_ip_active s) ip + 1) (per_ip_active s)\<rparr>"
    | "0 < max_connections_per_ip s" "r = Inl MaxConnectionsPerIp"
        "s' = s\<lparr>rejected_max_connections_per_ip := rejected_max_connections_per_ip s + 1\<rparr>"
proof (cases "0 < max_connections_per_ip s")
  case False
  with assms show ?thesis by (intro that(1)) (auto simp: acquire_per_ip_def)
next
  case True
  show ?thesis
  proof (cases "map_of (per_ip_active s) ip")
    case None
    with assms True show ?thesis
      by (intro that(2)) (auto simp: acquire_per_ip_def lane_count_def)
  next
    case (Some c)
    show ?thesis
    proof (cases "max_connections_per_ip s \<le> unat c")
      case True
      with assms Some \<open>0 < max_connections_per_ip s\<close> show ?thesis
        by (intro that(3)) (auto simp: acquire_per_ip_def)
    next
      case False
      with assms Some True show ?thesis
        by (intro that(2)) (auto simp: acquire_per_ip_def lane_count_def)
    qed
  qed
qed

lemma release_per_ip_lanes:
  assumes "all_live (per_ip_active s)"
  shows "per_ip_active (release_per_ip ip tracked s) =
    (if tracked then slot_release ip (per_ip_active s) else per_ip_active s)"
proof -
  have "saturating_sub c 1 = c - 1" if "c \<noteq> 0" for c :: u32
    using that by (simp add: word_unat_eq_iff unat_saturating_sub unat_dec)
  moreover have "c - 1 = 0 \<longleftrightarrow> c = 1" for c :: u32 by simp
  ultimately show ?thesis
    using assms by (auto simp: release_per_ip_def slot_release_def all_live_def Let_def split: option.split)
qed

lemma conn_release_frame [simp]:
  "per_ip_active (release_global lib g s) = per_ip_active s"
  "active_count (release_global lib g s) = active_count s"
  "max_connections_per_ip (release_global lib g s) = max_connections_per_ip s"
  "pool (release_per_ip ip t s) = pool s" "active_count (release_per_ip ip t s) = active_count s"
  "max_connections_per_ip (release_per_ip ip t s) = max_connections_per_ip s"
  by (simp_all add: release_global_def release_per_ip_def Let_def split: option.split)

lemma release_per_ip_counts:
  "unat (lane_count (per_ip_active (release_per_ip ip tracked s)) k) \<le> unat (lane_count (per_ip_active s) k)"
  by (auto simp: release_per_ip_def Let_def lane_count_def update_conv' delete_conv' unat_saturating_sub
      split: option.split)

lemma limiter_ok_step:
  assumes "limiter_ok capped per_ip s" "conn_ok capped (0 < per_ip) t" "conn_step lib e t s = (t', s')"
  shows "limiter_ok capped per_ip s'" "conn_ok capped (0 < per_ip) t'"
  using assms
  by (cases "(lib, e, t, s)" rule: conn_step.cases;
      auto simp: limiter_ok_def permit_ok_def release_global_def lane_count_update small_count
        intro: order_trans [OF release_per_ip_counts] elim!: acquire_global_cases acquire_per_ip_cases
        split: prod.splits sum.splits)+

section \<open>Accounting\<close>

lemma per_ip_grant_moves:
  assumes "limiter_ok capped k s" "unat (lane_count (per_ip_active s) ip) < k"
  shows "lane_move (per_ip_active s) None (AList.update ip (lane_count (per_ip_active s) ip + 1) (per_ip_active s)) (Some ip)"
  using assms small_count(1) [OF assms(2)] by (auto simp: limiter_ok_def intro: lane_move.grant)

interpretation per_ip: slot_protocol "conn_step lib" per_ip_active holds_ip "limiter_ok capped k" "conn_ok capped (0 < k)"
  for lib capped k
proof
  fix e t t' and s s' :: "'a ConnLimiter"
  assume ok: "limiter_ok capped k s" "conn_ok capped (0 < k) t" and step: "conn_step lib e t s = (t', s')"
  from limiter_ok_step [OF ok step] show "limiter_ok capped k s'" "conn_ok capped (0 < k) t'" by auto
  assume "all_live (per_ip_active s)"
  with ok step show "lane_move (per_ip_active s) (holds_ip t) (per_ip_active s') (holds_ip t')"
    by (cases "(lib, e, t, s)" rule: conn_step.cases)
      (auto simp: tracked_ip_def limiter_ok_def release_per_ip_lanes
        intro: lane_move.intros per_ip_grant_moves [OF ok(1)] elim!: acquire_global_cases acquire_per_ip_cases
        split: prod.splits sum.splits)
qed

interpretation gauge: exact_accounting "conn_step lib" "limiter_ok capped k" "conn_ok capped (0 < k)" active_count is_admitted
  for lib capped k
proof
  fix e t t' and s s' :: "'a ConnLimiter"
  assume ok: "limiter_ok capped k s" "conn_ok capped (0 < k) t" and step: "conn_step lib e t s = (t', s')"
  from limiter_ok_step [OF ok step] show "limiter_ok capped k s'" "conn_ok capped (0 < k) t'" by auto
  show "active_count s' + of_bool (is_admitted t) = active_count s + of_bool (is_admitted t')"
    using step by (cases "(lib, e, t, s)" rule: conn_step.cases)
      (auto elim!: acquire_global_cases acquire_per_ip_cases split: prod.splits sum.splits)
qed

text \<open>The permits taken from the pool, as the negated rest, are the connections that hold one.\<close>

definition pool_balance :: "'h semaphore_lib \<Rightarrow> 'h ConnLimiter \<Rightarrow> int" where
  "pool_balance lib s = (case pool s of None \<Rightarrow> 0 | Some h \<Rightarrow> - int (sem_available lib h))"

lemma sem_contractD:
  assumes "sem_contract lib"
  shows "sem_available lib (sem_new lib n) = n"
    and "sem_try_acquire lib h = Some h' \<Longrightarrow> sem_available lib h = Suc (sem_available lib h')"
    and "sem_available lib (sem_release lib h) = Suc (sem_available lib h)"
  using assms unfolding sem_contract_def by (auto split: option.splits)

interpretation global_pool:
  exact_accounting "conn_step lib" "\<lambda>s. sem_contract lib \<and> limiter_ok capped k s" "conn_ok capped (0 < k)"
    "pool_balance lib" "\<lambda>t. capped \<and> holds_global t"
  for lib capped k
proof
  fix e t t' and s s' :: "'a ConnLimiter"
  assume ok: "sem_contract lib \<and> limiter_ok capped k s" "conn_ok capped (0 < k) t" and step: "conn_step lib e t s = (t', s')"
  from limiter_ok_step [OF conjunct2 [OF ok(1)] ok(2) step] ok(1)
  show "sem_contract lib \<and> limiter_ok capped k s'" "conn_ok capped (0 < k) t'" by auto
  have "pool_balance lib (release_global lib capped s) + of_bool capped = pool_balance lib s"
    using ok(1) by (auto simp: pool_balance_def release_global_def limiter_ok_def sem_contractD(3) split: option.split)
  with ok step sem_contractD(2) [OF conjunct1 [OF ok(1)]]
  show "pool_balance lib s' + of_bool (capped \<and> holds_global t) = pool_balance lib s + of_bool (capped \<and> holds_global t')"
    by (cases "(lib, e, t, s)" rule: conn_step.cases)
      (auto simp: pool_balance_def permit_ok_def limiter_ok_def elim!: acquire_global_cases acquire_per_ip_cases
        split: prod.splits sum.splits)
qed

lemma conn_limiter_run:
  fixes lib :: "'h semaphore_lib"
  assumes "sem_contract lib" "max_per_ip < 2 ^ 32"
    and run: "run_schedule (conn_step lib) sched (new_ConnLimiter lib MAX_PERMITS max_conns max_per_ip, replicate n Outside) = (s, ts)"
  shows "limiter_ok (0 < max_conns) max_per_ip s" "\<And>t. t \<in> set ts \<Longrightarrow> conn_ok (0 < max_conns) (0 < max_per_ip) t"
    and "counted (per_ip_active s) (\<lambda>ip. holders (\<lambda>t. holds_ip t = Some ip) ts)"
    and "active_count s = of_nat (holders is_admitted ts)"
    and "pool_balance lib s =
      (if 0 < max_conns then - int (min max_conns MAX_PERMITS) else 0) + int (holders (\<lambda>t. 0 < max_conns \<and> holds_global t) ts)"
proof -
  let ?s = "new_ConnLimiter lib MAX_PERMITS max_conns max_per_ip" and ?g = "0 < max_conns"
  have ok: "limiter_ok ?g max_per_ip ?s"
    using assms(2) by (simp add: limiter_ok_def new_ConnLimiter_def lane_count_def)
  have "per_ip.accounted ?g max_per_ip (?s, replicate n Outside)"
    by (rule per_ip.fresh_accounted [OF ok]) (simp_all add: new_ConnLimiter_def)
  from per_ip.run_accounted [OF this, of lib sched]
  show "limiter_ok ?g max_per_ip s" "\<And>t. t \<in> set ts \<Longrightarrow> conn_ok ?g (0 < max_per_ip) t"
    "counted (per_ip_active s) (\<lambda>ip. holders (\<lambda>t. holds_ip t = Some ip) ts)"
    by (simp_all add: run per_ip.accounted_def per_ip.live_def [abs_def])
  have "gauge.balanced ?g max_per_ip 0 (?s, replicate n Outside)"
    unfolding gauge.balanced_def using ok by (auto simp: new_ConnLimiter_def holders_def)
  from gauge.run_exact [OF this, of lib sched] show "active_count s = of_nat (holders is_admitted ts)"
    by (simp add: run gauge.balanced_def)
  let ?base = "if ?g then - int (min max_conns MAX_PERMITS) else 0"
  have "global_pool.balanced lib ?g max_per_ip ?base (?s, replicate n Outside)"
    unfolding global_pool.balanced_def using ok assms(1)
    by (auto simp: pool_balance_def new_ConnLimiter_def holders_def sem_contractD(1))
  from global_pool.run_exact [OF this, of sched]
  show "pool_balance lib s = ?base + int (holders (\<lambda>t. ?g \<and> holds_global t) ts)"
    by (simp add: run global_pool.balanced_def)
qed

lemma holders_mono: "(\<And>t. t \<in> set ts \<Longrightarrow> P t \<Longrightarrow> Q t) \<Longrightarrow> holders P ts \<le> holders Q ts"
proof (induction ts)
  case (Cons t ts)
  then have "holders P ts \<le> holders Q ts" "P t \<longrightarrow> Q t" by simp_all
  then show ?case by (auto simp: holders_def)
qed (simp add: holders_def)

lemma admitted_holds:
  "conn_ok capped tracked t \<Longrightarrow> is_admitted t \<Longrightarrow> capped \<Longrightarrow> holds_global t"
  "conn_ok capped tracked t \<Longrightarrow> admitted_from ip t \<Longrightarrow> tracked \<Longrightarrow> holds_ip t = Some ip"
  by (cases t; auto simp: permit_ok_def tracked_ip_def)+

text \<open>C19. Under every interleaving of accepts and closes, on the whole listener surface: the admitted
  connections never exceed the global cap, those of one source never exceed its share, the gauge
  counts them, addresses are tracked only while one of their connections holds a slot, and when all
  are closed every slot is back.\<close>

theorem connection_caps_hold:
  assumes "sem_contract lib" "max_per_ip < 2 ^ 32"
    and "run_schedule (conn_step lib) sched
           (new_ConnLimiter lib MAX_PERMITS max_conns max_per_ip, replicate n Outside) = (s, ts)"
  shows "(0 < max_conns \<longrightarrow> holders is_admitted ts \<le> min max_conns MAX_PERMITS) \<and>
         (0 < max_per_ip \<longrightarrow> (\<forall>ip. holders (admitted_from ip) ts \<le> max_per_ip)) \<and>
         active_count s = of_nat (holders is_admitted ts) \<and>
         fst ` set (per_ip_active s) = {ip. \<exists>t \<in> set ts. holds_ip t = Some ip} \<and>
         ((\<forall>t \<in> set ts. t = Outside) \<longrightarrow>
            per_ip_active s = [] \<and> (\<forall>h. pool s = Some h \<longrightarrow> sem_available lib h = min max_conns MAX_PERMITS))"
proof -
  note run = conn_limiter_run [OF assms]
  have "holders is_admitted ts \<le> min max_conns MAX_PERMITS" if "0 < max_conns"
  proof -
    have "holders is_admitted ts \<le> holders (\<lambda>t. 0 < max_conns \<and> holds_global t) ts"
      using admitted_holds(1) [OF run(2)] that by (intro holders_mono) auto
    moreover have "pool_balance lib s \<le> 0" by (simp add: pool_balance_def split: option.split)
    ultimately show ?thesis using run(5) that by auto
  qed
  moreover have "holders (admitted_from ip) ts \<le> max_per_ip" if "0 < max_per_ip" for ip
  proof -
    have "holders (admitted_from ip) ts \<le> holders (\<lambda>t. holds_ip t = Some ip) ts"
      using admitted_holds(2) [OF run(2)] that by (intro holders_mono) auto
    also have "\<dots> = unat (lane_count (per_ip_active s) ip)" using run(3) by (simp add: counted_def)
    also have "\<dots> \<le> max_per_ip" using run(1) by (simp add: limiter_ok_def)
    finally show ?thesis .
  qed
  moreover have keys: "fst ` set (per_ip_active s) = {ip. \<exists>t \<in> set ts. holds_ip t = Some ip}"
    unfolding counted_keys [OF run(3)] holders_def length_greater_0_conv filter_empty_conv by blast
  moreover have "per_ip_active s = []" if "\<forall>t \<in> set ts. t = Outside"
  proof -
    have "fst ` set (per_ip_active s) = {}" using that unfolding keys by fastforce
    then show ?thesis by simp
  qed
  moreover have "sem_available lib h = min max_conns MAX_PERMITS" if "\<forall>t \<in> set ts. t = Outside" "pool s = Some h" for h
  proof -
    have "holders (\<lambda>t. 0 < max_conns \<and> holds_global t) ts = 0"
      using that(1) by (auto simp: holders_def filter_empty_conv)
    with run(1,5) that(2) show ?thesis by (auto simp: pool_balance_def limiter_ok_def)
  qed
  ultimately show ?thesis using run(4) by auto
qed

definition counting_semaphore :: "nat semaphore_lib" where
  "counting_semaphore =
     \<lparr>sem_new = (\<lambda>n. n), sem_try_acquire = (\<lambda>h. if h = 0 then None else Some (h - 1)), sem_release = Suc,
      sem_available = (\<lambda>h. h)\<rparr>"

lemma counting_semaphore_contract: "sem_contract counting_semaphore"
  by (simp add: sem_contract_def counting_semaphore_def)

text \<open>Three connections of one source, whose share is two.\<close>

definition sample_accepts :: "(nat \<times> conn_event) list" where
  "sample_accepts =
     [(0, Arrive (V4 1)), (1, Arrive (V4 1)), (2, Arrive (V4 1)), (0, Proceed), (1, Proceed), (0, Proceed),
      (2, Proceed), (1, Proceed), (2, Proceed)]"

theorem connection_caps_hold_witness:
  "sem_contract counting_semaphore \<and>
   (let (s, ts) = run_schedule (conn_step counting_semaphore) sample_accepts
      (new_ConnLimiter counting_semaphore 1000 3 2, replicate 3 Outside)
    in map is_admitted ts = [True, True, False] \<and> rejected_max_connections_per_ip s = 1 \<and>
       holders (admitted_from (V4 1)) ts \<le> 2 \<and> pool s = Some 1)"
proof -
  obtain s ts where run: "run_schedule (conn_step counting_semaphore) sample_accepts
      (new_ConnLimiter counting_semaphore 1000 3 2, replicate 3 Outside) = (s, ts)" by (metis surj_pair)
  have "map is_admitted (snd (run_schedule (conn_step counting_semaphore) sample_accepts
      (new_ConnLimiter counting_semaphore 1000 3 2, replicate 3 Outside))) = [True, True, False]"
    "rejected_max_connections_per_ip (fst (run_schedule (conn_step counting_semaphore) sample_accepts
      (new_ConnLimiter counting_semaphore 1000 3 2, replicate 3 Outside))) = 1"
    "pool (fst (run_schedule (conn_step counting_semaphore) sample_accepts
      (new_ConnLimiter counting_semaphore 1000 3 2, replicate 3 Outside))) = Some 1" by code_simp+
  moreover have "holders (admitted_from (V4 1)) ts \<le> 2"
    using connection_caps_hold [OF counting_semaphore_contract _ run] by simp
  ultimately show ?thesis by (simp add: run counting_semaphore_contract)
qed

end
