(* ===== verification/Wildcard_Match.thy ===== *)
theory Wildcard_Match
  imports Std_Net
begin

text \<open>
  The glob matcher of mesh authorization (\<^verbatim>\<open>wildcard_match\<close> of \<^verbatim>\<open>src/src/modes/mesh/policy.rs\<close>) and
  its correctness: the single forward pass with anchored ends decides the usual meaning of a glob.
\<close>

section \<open>The matcher\<close>

text \<open>\<open>str::find\<close>: the first position at which a text occurs.\<close>

fun find_str :: "string \<Rightarrow> string \<Rightarrow> nat option" where
  "find_str part [] = (if part = [] then Some 0 else None)"
| "find_str part (c # cs) = (if starts_with part (c # cs) then Some 0 else map_option Suc (find_str part cs))"

definition ends_with :: "string \<Rightarrow> string \<Rightarrow> bool" where
  "ends_with suf s = starts_with (rev suf) (rev s)"

fun wildcard_loop :: "bool \<Rightarrow> string \<Rightarrow> nat \<Rightarrow> string list \<Rightarrow> nat \<Rightarrow> bool" where
  "wildcard_loop anchored_end v value_limit [] value_pos = True"
| "wildcard_loop anchored_end v value_limit (part # parts) value_pos =
     (if anchored_end \<and> parts = [] then True
      else case find_str part (take (value_limit - value_pos) (drop value_pos v)) of
             None \<Rightarrow> False
           | Some index \<Rightarrow> wildcard_loop anchored_end v value_limit parts (value_pos + (index + length part)))"

text \<open>The end of the pattern, with the parts that remain and the position after the anchored start.\<close>

definition wildcard_rest :: "string \<Rightarrow> string \<Rightarrow> string list \<Rightarrow> nat \<Rightarrow> bool" where
  "wildcard_rest pattern v parts value_pos =
     (let anchored_end = (\<not> ends_with ''*'' pattern) in
      if anchored_end then
        (case rev (filter (\<lambda>part. part \<noteq> []) (split_on (CHR ''*'') pattern)) of
           [] \<Rightarrow> True
         | last_part # _ \<Rightarrow>
             if \<not> ends_with last_part v then False
             else
               (let suffix_start = length v - length last_part in
                if suffix_start < value_pos then False
                else wildcard_loop anchored_end v suffix_start parts value_pos))
      else wildcard_loop anchored_end v (length v) parts value_pos)"

definition wildcard_match :: "string \<Rightarrow> string \<Rightarrow> bool" where
  "wildcard_match pattern v =
     (if pattern = ''*'' then True
      else if CHR ''*'' \<notin> set pattern then pattern = v
      else
        (let anchored_start = (\<not> starts_with ''*'' pattern);
             parts = filter (\<lambda>part. part \<noteq> []) (split_on (CHR ''*'') pattern)
         in case parts of
              [] \<Rightarrow> True
            | first # others \<Rightarrow>
                if anchored_start then
                  (if \<not> starts_with first v then False else wildcard_rest pattern v others (length first))
                else wildcard_rest pattern v parts 0))"

section \<open>Globs\<close>

text \<open>A star stands for any text, every other character for itself.\<close>

function glob :: "string \<Rightarrow> string \<Rightarrow> bool" where
  "glob [] v = (v = [])"
| "glob (c # p) v =
     (if c = CHR ''*'' then glob p v \<or> (case v of [] \<Rightarrow> False | _ # v' \<Rightarrow> glob (c # p) v')
      else case v of [] \<Rightarrow> False | d # v' \<Rightarrow> d = c \<and> glob p v')"
  by pat_completeness auto
termination by (relation "measure (\<lambda>(p, v). length p + length v)") auto

lemma glob_star: "glob (CHR ''*'' # p) v \<longleftrightarrow> (\<exists>a b. v = a @ b \<and> glob p b)"
proof (induction v)
  case (Cons x xs)
  have "(\<exists>a b. x # xs = a @ b \<and> glob p b) \<longleftrightarrow> glob p (x # xs) \<or> (\<exists>a b. xs = a @ b \<and> glob p b)"
    by (metis append_Cons append_Nil append_eq_Cons_conv)
  with Cons show ?case by simp
qed simp

text \<open>The same by the parts between the stars.\<close>

fun glob_parts :: "string list \<Rightarrow> string \<Rightarrow> bool" where
  "glob_parts [] v = False"
| "glob_parts [f] v = (v = f)"
| "glob_parts (f # g # ps) v = (\<exists>a b. v = f @ a @ b \<and> glob_parts (g # ps) b)"

lemma split_on_Cons: "\<exists>f ps. split_on c s = f # ps"
  by (induction s) (auto split: list.split)

lemma glob_parts_Cons: "glob_parts ((c # f) # ps) v \<longleftrightarrow> v \<noteq> [] \<and> hd v = c \<and> glob_parts (f # ps) (tl v)"
  by (cases ps; cases v) auto

lemma glob_split: "glob p v \<longleftrightarrow> glob_parts (split_on (CHR ''*'') p) v"
proof (induction p arbitrary: v)
  case (Cons c p)
  obtain f ps where split: "split_on (CHR ''*'') p = f # ps" using split_on_Cons by blast
  show ?case
  proof (cases "c = CHR ''*''")
    case True
    then show ?thesis unfolding True glob_star Cons.IH by (simp add: split)
  next
    case False
    then show ?thesis using Cons.IH by (simp add: split glob_parts_Cons split: list.split)
  qed
qed simp

text \<open>Parts in order with gaps, between a first and a last part at the ends.\<close>

fun in_order :: "string list \<Rightarrow> string \<Rightarrow> bool" where
  "in_order [] s = True"
| "in_order (p # ps) s = (\<exists>a b. s = a @ p @ b \<and> in_order ps b)"

lemma glob_parts_ends:
  "glob_parts (f # mid @ [l]) v \<longleftrightarrow> (\<exists>m. v = f @ m @ l \<and> in_order mid m)"
proof (induction mid arbitrary: f v)
  case (Cons g mid)
  have "glob_parts (f # (g # mid) @ [l]) v \<longleftrightarrow> (\<exists>a b. v = f @ a @ b \<and> (\<exists>m. b = g @ m @ l \<and> in_order mid m))"
    using Cons.IH [of g] by simp
  also have "\<dots> \<longleftrightarrow> (\<exists>m. v = f @ m @ l \<and> (\<exists>a b. m = a @ g @ b \<and> in_order mid b))"
    by (metis append.assoc)
  finally show ?case by simp
qed auto

lemma in_order_prefix: "in_order ps b \<Longrightarrow> in_order ps (a @ b)"
  by (cases ps) (auto intro: append_assoc [symmetric])

lemma in_order_empty: "in_order ([] # ps) s \<longleftrightarrow> in_order ps s"
proof
  assume "in_order ps s"
  then have "s = [] @ [] @ s \<and> in_order ps s" by simp
  then show "in_order ([] # ps) s" by (simp only: in_order.simps) blast
qed (auto simp: in_order_prefix)

lemma in_order_filter: "in_order (filter (\<lambda>p. p \<noteq> []) ps) s \<longleftrightarrow> in_order ps s"
proof (induction ps arbitrary: s)
  case (Cons p ps)
  then show ?case by (cases "p = []") (simp_all add: in_order_empty del: in_order.simps(2), simp)
qed simp

section \<open>Taking the first occurrence is enough\<close>

lemma starts_with_iff: "starts_with p s \<longleftrightarrow> (\<exists>b. s = p @ b)"
  by (metis starts_with_def append_eq_conv_conj append_take_drop_id)

lemma ends_with_append: "ends_with l s \<longleftrightarrow> (\<exists>b. s = b @ l)"
  unfolding ends_with_def starts_with_iff by (metis rev_append rev_rev_ident)

lemma find_str_None: "find_str p s = None \<Longrightarrow> s \<noteq> a @ p @ b"
proof (induction s arbitrary: a)
  case (Cons c s)
  then show ?case by (cases a) (auto simp: starts_with_iff split: if_splits)
qed (auto split: if_splits)

lemma find_str_Some:
  "find_str p s = Some i \<Longrightarrow> (\<exists>a b. s = a @ p @ b \<and> length a = i) \<and> (s = a' @ p @ b' \<longrightarrow> i \<le> length a')"
proof (induction s arbitrary: i a')
  case (Cons c s)
  show ?case
  proof (cases "starts_with p (c # s)")
    case True
    then show ?thesis using Cons.prems by (auto simp: starts_with_iff)
  next
    case False
    then obtain j where j: "find_str p s = Some j" "i = Suc j" using Cons.prems by auto
    obtain a b where s: "s = a @ p @ b" "length a = j" using Cons.IH [OF j(1)] by blast
    have "c # s = (c # a) @ p @ b \<and> length (c # a) = i" using s j by simp
    moreover have "i \<le> length a'" if "c # s = a' @ p @ b'"
      using that False Cons.IH [OF j(1), of "tl a'"] j(2) by (cases a') (auto simp: starts_with_iff)
    ultimately show ?thesis by blast
  qed
qed (auto split: if_splits)

text \<open>A later occurrence leaves a shorter remainder, and more remainder never hurts.\<close>

lemma in_order_greedy:
  "in_order (p # ps) s =
     (case find_str p s of None \<Rightarrow> False | Some i \<Rightarrow> in_order ps (drop (i + length p) s))"
proof (cases "find_str p s")
  case None
  then show ?thesis using find_str_None by auto
next
  case (Some i)
  obtain a b where s: "s = a @ p @ b" and a: "length a = i" using find_str_Some [OF Some] by blast
  have "in_order ps (drop (i + length p) s)" if split: "s = a' @ p @ b'" and rest: "in_order ps b'" for a' b'
  proof -
    have "i \<le> length a'" using find_str_Some [OF Some] split by blast
    then have "drop (i + length p) s = drop (i + length p) (a' @ p) @ b'" using split by simp
    then show ?thesis using in_order_prefix [OF rest, of "drop (i + length p) (a' @ p)"] by simp
  qed
  moreover have b: "drop (i + length p) s = b" using s a by simp
  ultimately have "in_order (p # ps) s \<longleftrightarrow> in_order ps b" unfolding in_order.simps using s by metis
  then show ?thesis by (simp only: Some b option.case)
qed

lemma wildcard_loop_exact:
  assumes "pos \<le> limit" "limit \<le> length v"
  shows "wildcard_loop ae v limit parts pos =
           in_order (if ae then butlast parts else parts) (take (limit - pos) (drop pos v))"
  using assms(1)
proof (induction parts arbitrary: pos)
  case (Cons p ps)
  let ?s = "take (limit - pos) (drop pos v)"
  show ?case
  proof (cases "ae \<and> ps = []")
    case False
    have step: "wildcard_loop ae v limit ps (pos + (i + length p)) =
                in_order (if ae then butlast ps else ps) (drop (i + length p) ?s)"
      if found: "find_str p ?s = Some i" for i
    proof -
      obtain a b where "?s = a @ p @ b" "length a = i" using find_str_Some [OF found] by blast
      then have "i + length p \<le> limit - pos" using assms(2) by (metis append_assoc length_append length_take min.bounded_iff le_add1)
      then have "pos + (i + length p) \<le> limit" using Cons.prems by linarith
      from Cons.IH [OF this] show ?thesis by (simp add: drop_take add.commute add.left_commute)
    qed
    have "(if ae then butlast (p # ps) else p # ps) = p # (if ae then butlast ps else ps)" using False by auto
    then show ?thesis using False step by (cases ae) (auto simp: in_order_greedy simp del: in_order.simps(2) split: option.split)
  qed simp
qed simp

section \<open>The parts of a pattern\<close>

lemma split_on_first: "c \<notin> set a \<Longrightarrow> split_on c (a @ c # b) = a # split_on c b"
  by (induction a) auto

lemma split_on_some: "c \<in> set s \<Longrightarrow> \<exists>f mid l. split_on c s = f # mid @ [l]"
proof (induction s)
  case (Cons x s)
  obtain g ps where gp: "split_on c s = g # ps" using split_on_Cons by blast
  show ?case
  proof (cases "x = c")
    case True
    then show ?thesis using gp by simp (metis append_Cons append_butlast_last_id list.distinct(1))
  next
    case False
    then show ?thesis using Cons gp by auto
  qed
qed simp

lemma hd_split_on: "hd (split_on c s) = [] \<longleftrightarrow> s = [] \<or> hd s = c"
  by (cases s) (auto split: list.split)

lemma last_split_on: "last (split_on c s) = [] \<longleftrightarrow> s = [] \<or> last s = c"
proof (induction s)
  case (Cons x s)
  obtain g ps where gp: "split_on c s = g # ps" using split_on_Cons by blast
  show ?case
  proof (cases "s = []")
    case False
    then show ?thesis using Cons gp split_on_some [of c s] last_in_set [OF False] by (auto split: if_splits)
  qed simp
qed simp

lemma star_start: "starts_with ''*'' s \<longleftrightarrow> s \<noteq> [] \<and> hd s = CHR ''*''"
  by (cases s) (auto simp: starts_with_iff)

lemma star_end: "ends_with ''*'' s \<longleftrightarrow> s \<noteq> [] \<and> last s = CHR ''*''"
  by (cases s rule: rev_cases) (auto simp: ends_with_append)

lemma framed_by:
  "(\<exists>m. v = f @ m @ l \<and> P m) \<longleftrightarrow>
     starts_with f v \<and> ends_with l v \<and> length f \<le> length v - length l
     \<and> P (take (length v - length l - length f) (drop (length f) v))"
proof
  assume "\<exists>m. v = f @ m @ l \<and> P m"
  then show "starts_with f v \<and> ends_with l v \<and> length f \<le> length v - length l
     \<and> P (take (length v - length l - length f) (drop (length f) v))"
    by (auto simp: starts_with_iff ends_with_append)
next
  assume *: "starts_with f v \<and> ends_with l v \<and> length f \<le> length v - length l
     \<and> P (take (length v - length l - length f) (drop (length f) v))"
  then obtain x y where "v = f @ x" "v = y @ l" unfolding starts_with_iff ends_with_append by blast
  moreover then have "v = f @ drop (length f) y @ l" using * by (auto simp: append_eq_append_conv2)
  ultimately show "\<exists>m. v = f @ m @ l \<and> P m" using * by (intro exI [of _ "drop (length f) y"]) auto
qed

section \<open>The matcher decides globs\<close>

lemma wildcard_rest_exact:
  assumes split: "split_on (CHR ''*'') pattern = f # mid @ [l]" and "pattern \<noteq> []" "pos \<le> length v"
  shows "wildcard_rest pattern v (filter (\<lambda>part. part \<noteq> []) (mid @ [l])) pos \<longleftrightarrow>
           ends_with l v \<and> pos \<le> length v - length l
           \<and> in_order mid (take (length v - length l - pos) (drop pos v))"
proof -
  have l: "ends_with ''*'' pattern \<longleftrightarrow> l = []"
    using last_split_on [of "CHR ''*''" pattern] assms by (simp add: star_end)
  show ?thesis
  proof (cases "l = []")
    case True
    moreover have "ends_with [] v" by (simp add: ends_with_append)
    ultimately show ?thesis
      using assms(3) by (simp add: wildcard_rest_def l Let_def wildcard_loop_exact in_order_filter)
  next
    case False
    have parts: "rev (filter (\<lambda>part. part \<noteq> []) (split_on (CHR ''*'') pattern)) =
                 l # rev (filter (\<lambda>part. part \<noteq> []) (f # mid))"
      using False by (simp add: split)
    have loop: "wildcard_loop True v (length v - length l) (filter (\<lambda>part. part \<noteq> []) (mid @ [l])) pos =
                in_order mid (take (length v - length l - pos) (drop pos v))"
      if "pos \<le> length v - length l"
      using that False by (simp add: wildcard_loop_exact in_order_filter)
    show ?thesis
      unfolding wildcard_rest_def l Let_def parts using False loop by (simp add: not_less)
  qed
qed

lemma wildcard_matcher_glob: "wildcard_match pattern v \<longleftrightarrow> glob pattern v"
proof (cases "CHR ''*'' \<in> set pattern")
  case False
  then show ?thesis by (auto simp: wildcard_match_def glob_split split_on_no_sep)
next
  case True
  obtain f mid l where split: "split_on (CHR ''*'') pattern = f # mid @ [l]"
    using split_on_some [OF True] by blast
  have ne: "pattern \<noteq> []" using True by auto
  have f: "starts_with ''*'' pattern \<longleftrightarrow> f = []"
    using hd_split_on [of "CHR ''*''" pattern] split ne by (simp add: star_start)
  have glob: "glob pattern v \<longleftrightarrow> (\<exists>m. v = f @ m @ l \<and> in_order mid m)"
    unfolding glob_split split by (rule glob_parts_ends)
  note rest = wildcard_rest_exact [OF split ne]
  show ?thesis
  proof (cases "f = []")
    case True
    have parts: "filter (\<lambda>part. part \<noteq> []) (split_on (CHR ''*'') pattern) =
                 filter (\<lambda>part. part \<noteq> []) (mid @ [l])"
      using True by (simp add: split)
    show ?thesis
    proof (cases "filter (\<lambda>part. part \<noteq> []) (mid @ [l])")
      case Nil
      then have "l = []" "in_order mid v" using in_order_filter [of mid v] by (auto split: if_splits)
      then show ?thesis using True Nil \<open>CHR ''*'' \<in> set pattern\<close>
        by (simp add: wildcard_match_def parts glob Let_def del: filter_append)
    next
      case (Cons p ps)
      then have "pattern \<noteq> ''*''" using split by (auto simp: Cons_eq_append_conv)
      with Cons have "wildcard_match pattern v \<longleftrightarrow> wildcard_rest pattern v (filter (\<lambda>part. part \<noteq> []) (mid @ [l])) 0"
        using f True \<open>CHR ''*'' \<in> set pattern\<close> by (simp add: wildcard_match_def parts Let_def del: filter_append)
      then show ?thesis using rest [of 0] True unfolding glob framed_by by (simp add: starts_with_iff)
    qed
  next
    case False
    then have "wildcard_match pattern v \<longleftrightarrow>
        starts_with f v \<and> wildcard_rest pattern v (filter (\<lambda>part. part \<noteq> []) (mid @ [l])) (length f)"
      using f True by (auto simp: wildcard_match_def split Let_def starts_with_iff)
    then show ?thesis using rest [of "length f" v] unfolding glob framed_by by (auto simp: starts_with_iff)
  qed
qed

text \<open>
  C14. The glob matcher of mesh authorization decides globs exactly. Its single pass anchors the text
  before the first star and after the last one and takes the first occurrence of every part between
  them; it accepts precisely the values the pattern denotes, a star standing for any text and every
  other character for itself. No backtracking is missed, overlapping prefix and suffix included.
\<close>

theorem wildcard_match_is_glob: "wildcard_match pattern v \<longleftrightarrow> glob pattern v"
  by (rule wildcard_matcher_glob)

end
