(* ===== verification/Spiffe_Id.thy ===== *)
theory Spiffe_Id
  imports Wildcard_Match Runtime_Keys
begin

text \<open>
  SPIFFE identities (\<^verbatim>\<open>src/src/identity/spiffe/id.rs\<close> and \<^verbatim>\<open>trust_domain.rs\<close>): the validating parser,
  the views of a parsed identity, and that building an identity from its parts and taking it apart
  are inverse to each other. Texts are UTF-8 byte sequences; a character of a text is the sequence of
  its bytes. The Unicode \<open>to_lowercase\<close> is the parameter \<open>lower\<close>.
\<close>

section \<open>Trust domains\<close>

text \<open>The characters of a UTF-8 text, by the length its first byte announces.\<close>

definition utf8_width :: "char \<Rightarrow> nat" where
  "utf8_width c =
     (let b = byte_of c in if b < 0xC0 then 1 else if b < 0xE0 then 2 else if b < 0xF0 then 3 else 4)"

lemma utf8_width_pos: "0 < utf8_width c"
  by (simp add: utf8_width_def Let_def)

function chars :: "string \<Rightarrow> string list" where
  "chars [] = []"
| "chars (c # cs) = take (utf8_width c) (c # cs) # chars (drop (utf8_width c) (c # cs))"
  by pat_completeness auto
termination by (relation "measure length") (auto simp: utf8_width_pos intro: diff_less)

type_synonym TrustDomain = string

datatype TrustDomainError =
  DomainEmpty | NotLowercase string | HasPath string | DomainTooLong nat nat
| InvalidChar string string | BadBoundary string

definition MAX_TRUST_DOMAIN_LEN :: nat where
  "MAX_TRUST_DOMAIN_LEN = 240"

definition is_trust_domain_char :: "string \<Rightarrow> bool" where
  "is_trust_domain_char ch =
     (case ch of
        [c] \<Rightarrow> (97 \<le> byte_of c \<and> byte_of c \<le> 122) \<or> is_ascii_digit c \<or> c \<in> {CHR ''.'', CHR ''-'', CHR ''_''}
      | _ \<Rightarrow> False)"

definition boundary_char :: "string \<Rightarrow> bool" where
  "boundary_char ch \<longleftrightarrow> ch = ''.'' \<or> ch = ''-'' \<or> ch = ''_''"

definition validate :: "(string \<Rightarrow> string) \<Rightarrow> string \<Rightarrow> TrustDomainError + unit" where
  "validate lower raw =
     (if raw = [] then Inl DomainEmpty
      else if MAX_TRUST_DOMAIN_LEN < length raw then Inl (DomainTooLong MAX_TRUST_DOMAIN_LEN (length raw))
      else if CHR ''/'' \<in> set raw then Inl (HasPath raw)
      else if raw \<noteq> lower raw then Inl (NotLowercase raw)
      else case find (\<lambda>ch. \<not> is_trust_domain_char ch) (chars raw) of
             Some ch \<Rightarrow> Inl (InvalidChar raw ch)
           | None \<Rightarrow>
               (let first = (case chars raw of [] \<Rightarrow> ''.'' | ch # _ \<Rightarrow> ch);
                    last = (case rev (chars raw) of [] \<Rightarrow> ''.'' | ch # _ \<Rightarrow> ch)
                in if boundary_char first \<or> boundary_char last then Inl (BadBoundary raw) else Inr ()))"

definition new_trust_domain :: "(string \<Rightarrow> string) \<Rightarrow> string \<Rightarrow> TrustDomainError + TrustDomain" where
  "new_trust_domain lower raw = (case validate lower raw of Inl e \<Rightarrow> Inl e | Inr _ \<Rightarrow> Inr raw)"

section \<open>Identities\<close>

record SpiffeId =
  uri :: string
  path_offset :: nat
  trust_domain :: TrustDomain

datatype SpiffeIdError =
  IdEmpty | IdTooLong string nat nat | InvalidScheme string | Malformed string | HasQuery string
| HasFragment string | TrailingSlash string | EmptyPathSegment string | DotPathSegment string string
| InvalidPathChar string string string | InvalidTrustDomain string TrustDomainError

definition MAX_SPIFFE_ID_LEN :: nat where
  "MAX_SPIFFE_ID_LEN = 2048"

definition is_path_char :: "string \<Rightarrow> bool" where
  "is_path_char ch = (case ch of [c] \<Rightarrow> is_ascii_alphanumeric c \<or> c \<in> {CHR ''-'', CHR ''.'', CHR ''_''} | _ \<Rightarrow> False)"

text \<open>The checks on one path segment, and the first that fails along the path.\<close>

definition segment_error :: "string \<Rightarrow> string \<Rightarrow> SpiffeIdError option" where
  "segment_error u segment =
     (if segment = [] then Some (EmptyPathSegment u)
      else if segment = ''.'' \<or> segment = ''..'' then Some (DotPathSegment u segment)
      else map_option (InvalidPathChar u segment) (find (\<lambda>ch. \<not> is_path_char ch) (chars segment)))"

fun path_error :: "string \<Rightarrow> string list \<Rightarrow> SpiffeIdError option" where
  "path_error u [] = None"
| "path_error u (segment # segments) =
     (case segment_error u segment of Some e \<Rightarrow> Some e | None \<Rightarrow> path_error u segments)"

definition parse_path :: "string \<Rightarrow> string \<Rightarrow> string \<Rightarrow> SpiffeIdError + SpiffeId" where
  "parse_path u td_str path_with_leading_slash =
     (if path_with_leading_slash = []
      then Inr \<lparr>uri = u, path_offset = length u, trust_domain = td_str\<rparr>
      else if ends_with ''/'' path_with_leading_slash then Inl (TrailingSlash u)
      else
        (let path = drop 1 path_with_leading_slash in
         if path = [] then Inl (TrailingSlash u)
         else case path_error u (split_on (CHR ''/'') path) of
                Some e \<Rightarrow> Inl e
              | None \<Rightarrow>
                  Inr \<lparr>uri = u, path_offset = length ''spiffe://'' + length td_str + 1, trust_domain = td_str\<rparr>))"

definition parse :: "(string \<Rightarrow> string) \<Rightarrow> string \<Rightarrow> SpiffeIdError + SpiffeId" where
  "parse lower u =
     (if u = [] then Inl IdEmpty
      else if MAX_SPIFFE_ID_LEN < length u then Inl (IdTooLong u MAX_SPIFFE_ID_LEN (length u))
      else if CHR ''?'' \<in> set u then Inl (HasQuery u)
      else if CHR ''#'' \<in> set u then Inl (HasFragment u)
      else case strip_str_prefix ''spiffe://'' u of
             None \<Rightarrow>
               (case find_str ''://'' u of
                  Some idx \<Rightarrow> Inl (InvalidScheme (take idx u))
                | None \<Rightarrow> Inl (Malformed u))
           | Some after_scheme \<Rightarrow>
               if after_scheme = [] then Inl (Malformed u)
               else
                 (let td_str = takeWhile (\<lambda>c. c \<noteq> CHR ''/'') after_scheme;
                      path_with_leading_slash = dropWhile (\<lambda>c. c \<noteq> CHR ''/'') after_scheme
                  in case new_trust_domain lower td_str of
                       Inl e \<Rightarrow> Inl (InvalidTrustDomain u e)
                     | Inr td \<Rightarrow> parse_path u td path_with_leading_slash))"

definition from_parts :: "(string \<Rightarrow> string) \<Rightarrow> TrustDomain \<Rightarrow> string \<Rightarrow> SpiffeIdError + SpiffeId" where
  "from_parts lower td path =
     (let path = dropWhile (\<lambda>c. c = CHR ''/'') path in
      if path = [] then parse lower (''spiffe://'' @ td)
      else parse lower (''spiffe://'' @ td @ ''/'' @ path))"

definition path :: "SpiffeId \<Rightarrow> string" where
  "path sid = drop (path_offset sid) (uri sid)"

definition path_segments :: "SpiffeId \<Rightarrow> string list" where
  "path_segments sid = filter (\<lambda>s. s \<noteq> []) (split_on (CHR ''/'') (path sid))"

definition kubernetes_identity :: "SpiffeId \<Rightarrow> (string \<times> string) option" where
  "kubernetes_identity sid =
     (case path_segments sid of
        [m1, namespace, m2, service_account] \<Rightarrow>
          if m1 = ''ns'' \<and> m2 = ''sa'' then Some (namespace, service_account) else None
      | _ \<Rightarrow> None)"

text \<open>The segment after the first occurrence of a marker.\<close>

fun segment_after :: "string \<Rightarrow> string list \<Rightarrow> string option" where
  "segment_after marker [] = None"
| "segment_after marker (segment # segments) =
     (if segment = marker then (case segments of [] \<Rightarrow> None | s # _ \<Rightarrow> Some s)
      else segment_after marker segments)"

definition service_account :: "SpiffeId \<Rightarrow> string option" where
  "service_account sid =
     (case kubernetes_identity sid of
        Some (_, account) \<Rightarrow> Some account
      | None \<Rightarrow> segment_after ''sa'' (path_segments sid))"

definition namespace :: "SpiffeId \<Rightarrow> string option" where
  "namespace sid = segment_after ''ns'' (path_segments sid)"

section \<open>What a successful parse says\<close>

lemma concat_chars [simp]: "concat (chars s) = s"
  by (induction s rule: chars.induct) simp_all

definition valid_segment :: "string \<Rightarrow> bool" where
  "valid_segment s \<longleftrightarrow> s \<noteq> [] \<and> s \<noteq> ''.'' \<and> s \<noteq> ''..'' \<and> list_all is_path_char (chars s)"

definition valid_path :: "string \<Rightarrow> bool" where
  "valid_path q \<longleftrightarrow> q \<noteq> [] \<and> list_all valid_segment (split_on (CHR ''/'') q)"

lemma segment_error_None: "segment_error u s = None \<longleftrightarrow> valid_segment s"
  by (auto simp: segment_error_def valid_segment_def find_None_iff list_all_iff)

lemma path_error_None: "path_error u segments = None \<longleftrightarrow> list_all valid_segment segments"
proof (induction segments)
  case (Cons s segments)
  then show ?case using segment_error_None [of u s] by (auto split: option.split)
qed simp

lemma new_trust_domain_Inr:
  "new_trust_domain lower raw = Inr td \<Longrightarrow>
     td = raw \<and> raw \<noteq> [] \<and> CHR ''/'' \<notin> set raw \<and> list_all is_trust_domain_char (chars raw)"
  by (auto simp: new_trust_domain_def validate_def find_None_iff list_all_iff split: if_splits option.splits sum.splits)

lemma valid_path_ends:
  assumes "valid_path q"
  shows "hd q \<noteq> CHR ''/''" "last q \<noteq> CHR ''/''"
  using assms hd_split_on [of "CHR ''/''" q] last_split_on [of "CHR ''/''" q] split_on_Cons [of "CHR ''/''" q]
  by (auto simp: valid_path_def valid_segment_def list_all_iff dest: last_in_set)

text \<open>The shape of a parsed identity: its scheme, its domain and either no path or a valid one.\<close>

lemma parse_path_Inr:
  "parse_path u td p = Inr sid \<longleftrightarrow>
     uri sid = u \<and> trust_domain sid = td \<and>
     (p = [] \<and> path_offset sid = length u
      \<or> p \<noteq> [] \<and> valid_path (drop 1 p) \<and> path_offset sid = length ''spiffe://'' + length td + 1)"
proof (cases "p = []")
  case False
  have "ends_with ''/'' p \<longleftrightarrow> last p = CHR ''/''"
    using False by (cases p rule: rev_cases) (auto simp: ends_with_append)
  moreover have "last p \<noteq> CHR ''/''" if "valid_path (drop 1 p)"
    using valid_path_ends(2) [OF that] that by (cases p) (auto simp: valid_path_def)
  ultimately show ?thesis using False path_error_None [of u "split_on (CHR ''/'') (drop 1 p)"]
    by (auto simp: parse_path_def Let_def valid_path_def split: option.splits)
qed (auto simp: parse_path_def)

lemma parse_Inr:
  assumes "parse lower u = Inr sid"
  obtains td p where "u = ''spiffe://'' @ td @ p" "uri sid = u" "trust_domain sid = td"
    "td \<noteq> []" "CHR ''/'' \<notin> set td"
    "p = [] \<and> path sid = [] \<or> p = CHR ''/'' # path sid \<and> valid_path (path sid)"
proof -
  obtain rest where u: "u = ''spiffe://'' @ rest" and rest: "rest \<noteq> []"
    and parsed: "(case new_trust_domain lower (takeWhile (\<lambda>c. c \<noteq> CHR ''/'') rest) of
                    Inl e \<Rightarrow> Inl (InvalidTrustDomain u e)
                  | Inr td \<Rightarrow> parse_path u td (dropWhile (\<lambda>c. c \<noteq> CHR ''/'') rest)) = Inr sid"
    using assms by (auto simp: parse_def strip_str_prefix_def starts_with_iff Let_def split: if_splits option.splits)
  define td where "td = takeWhile (\<lambda>c. c \<noteq> CHR ''/'') rest"
  define p where "p = dropWhile (\<lambda>c. c \<noteq> CHR ''/'') rest"
  have domain: "new_trust_domain lower td = Inr td" and "parse_path u td p = Inr sid"
    using parsed new_trust_domain_Inr [of lower td] by (auto simp: td_def p_def split: sum.splits)
  then have shape: "uri sid = u" "trust_domain sid = td"
     "p = [] \<and> path_offset sid = length u \<or> p \<noteq> [] \<and> valid_path (drop 1 p) \<and> path_offset sid = 10 + length td"
    by (auto simp: parse_path_Inr)
  have eq: "rest = td @ p" by (simp add: td_def p_def)
  have slash: "p = CHR ''/'' # drop 1 p" if "p \<noteq> []"
    using that hd_dropWhile [of "\<lambda>c. c \<noteq> CHR ''/''" rest] by (cases p) (auto simp: p_def)
  have offset: "drop (10 + length td) (''spiffe://'' @ td @ p) = drop 1 p" by (simp add: eval_nat_numeral)
  have "p = [] \<and> path sid = [] \<or> p = CHR ''/'' # path sid \<and> valid_path (path sid)"
    using shape slash offset by (auto simp: path_def u eq)
  then show ?thesis using new_trust_domain_Inr [OF domain] by (intro that [OF _ shape(1,2)]) (auto simp: u eq)
qed

section \<open>Taking apart and putting together\<close>

lemma path_segments_valid: "valid_path (path sid) \<Longrightarrow> path_segments sid = split_on (CHR ''/'') (path sid)"
  by (auto simp: path_segments_def valid_path_def valid_segment_def list_all_iff filter_id_conv)

lemma allowed_char_bytes:
  "is_trust_domain_char ch \<Longrightarrow> CHR ''?'' \<notin> set ch \<and> CHR ''#'' \<notin> set ch"
  "is_path_char ch \<Longrightarrow> CHR ''?'' \<notin> set ch \<and> CHR ''#'' \<notin> set ch"
  by (auto simp: is_trust_domain_char_def is_path_char_def is_ascii_alphanumeric_def is_ascii_digit_def
      byte_of_def split: list.splits)

lemma allowed_text_bytes:
  assumes "list_all P (chars s)" "\<And>ch. P ch \<Longrightarrow> CHR ''?'' \<notin> set ch \<and> CHR ''#'' \<notin> set ch"
  shows "CHR ''?'' \<notin> set s \<and> CHR ''#'' \<notin> set s"
proof -
  have "CHR ''?'' \<notin> set (concat (chars s)) \<and> CHR ''#'' \<notin> set (concat (chars s))"
    using assms unfolding list_all_iff set_concat by blast
  then show ?thesis by simp
qed

lemma valid_domain_bytes:
  assumes "new_trust_domain lower td = Inr td"
  shows "CHR ''?'' \<notin> set td" "CHR ''#'' \<notin> set td"
  using allowed_text_bytes [of is_trust_domain_char td] new_trust_domain_Inr [OF assms] allowed_char_bytes(1) by simp_all

lemma set_split_on: "x \<in> set s \<Longrightarrow> x = c \<or> (\<exists>part \<in> set (split_on c s). x \<in> set part)"
  by (induction s) (auto split: list.splits)

lemma valid_path_bytes:
  assumes "valid_path q"
  shows "CHR ''?'' \<notin> set q" "CHR ''#'' \<notin> set q"
proof -
  have segment: "CHR ''?'' \<notin> set s \<and> CHR ''#'' \<notin> set s" if "valid_segment s" for s
    using that allowed_text_bytes [of is_path_char s] allowed_char_bytes(2) by (simp add: valid_segment_def)
  show "CHR ''?'' \<notin> set q" "CHR ''#'' \<notin> set q"
    using assms segment set_split_on [of _ q "CHR ''/''"] by (fastforce simp: valid_path_def list_all_iff)+
qed

lemma slash_span:
  assumes "CHR ''/'' \<notin> set a"
  shows "takeWhile (\<lambda>c. c \<noteq> CHR ''/'') (a @ CHR ''/'' # b) = a" "dropWhile (\<lambda>c. c \<noteq> CHR ''/'') (a @ CHR ''/'' # b) = CHR ''/'' # b"
    "takeWhile (\<lambda>c. c \<noteq> CHR ''/'') a = a" "dropWhile (\<lambda>c. c \<noteq> CHR ''/'') a = []"
  using assms by (induction a) auto

lemma from_parts_Inr:
  assumes "new_trust_domain lower td = Inr td" "q = [] \<or> valid_path q"
    and "length td + length q \<le> 2038"
  shows "\<exists>sid. from_parts lower td q = Inr sid \<and> trust_domain sid = td \<and> path sid = q"
proof -
  define p where "p = (if q = [] then [] else CHR ''/'' # q)"
  note td = new_trust_domain_Inr [OF assms(1)]
  have trim: "dropWhile (\<lambda>c. c = CHR ''/'') q = q"
    using assms(2) valid_path_ends(1) [of q] by (cases q) (auto simp: valid_path_def)
  have "from_parts lower td q = parse lower (''spiffe://'' @ td @ p)"
    by (simp add: from_parts_def trim Let_def p_def)
  also have "\<dots> = parse_path (''spiffe://'' @ td @ p) td p"
  proof -
    have "CHR ''?'' \<notin> set (''spiffe://'' @ td @ p)" "CHR ''#'' \<notin> set (''spiffe://'' @ td @ p)"
      using valid_domain_bytes [OF assms(1)] valid_path_bytes [of q] assms(2) by (auto simp: p_def)
    moreover have "takeWhile (\<lambda>c. c \<noteq> CHR ''/'') (td @ p) = td" "dropWhile (\<lambda>c. c \<noteq> CHR ''/'') (td @ p) = p"
      using td slash_span [of td] by (simp_all add: p_def)
    ultimately show ?thesis using td assms(1,3)
      by (simp add: parse_def strip_str_prefix_def starts_with_def MAX_SPIFFE_ID_LEN_def p_def Let_def)
  qed
  also have "\<dots> = Inr \<lparr>uri = ''spiffe://'' @ td @ p, path_offset = length (''spiffe://'' @ td) + (if q = [] then 0 else 1),
                       trust_domain = td\<rparr>"
    using assms(2) by (auto simp: parse_path_Inr p_def)
  finally show ?thesis by (auto simp: path_def p_def)
qed

text \<open>
  C37. Identities round-trip. Building an identity from the trust domain and the path of a parsed
  identity gives that identity back; and from a valid trust domain with a valid path (within the
  length bound) the constructor succeeds, and the identity it builds has that domain and that path.
\<close>

theorem spiffe_id_round_trip:
  "(parse lower u = Inr sid \<longrightarrow> from_parts lower (trust_domain sid) (path sid) = Inr sid)
   \<and> (new_trust_domain lower td = Inr td \<and> (q = [] \<or> valid_path q) \<and> length td + length q \<le> 2038 \<longrightarrow>
      (\<exists>made. from_parts lower td q = Inr made \<and> trust_domain made = td \<and> path made = q))"
proof
  show "parse lower u = Inr sid \<longrightarrow> from_parts lower (trust_domain sid) (path sid) = Inr sid"
  proof
    assume ok: "parse lower u = Inr sid"
    from parse_Inr [OF ok] obtain p where u: "u = ''spiffe://'' @ trust_domain sid @ p"
      and p: "p = [] \<and> path sid = [] \<or> p = CHR ''/'' # path sid \<and> valid_path (path sid)" by metis
    have "dropWhile (\<lambda>c. c = CHR ''/'') (path sid) = path sid"
      using p valid_path_ends(1) [of "path sid"] by (cases "path sid") (auto simp: valid_path_def)
    then show "from_parts lower (trust_domain sid) (path sid) = Inr sid"
      using p u ok by (auto simp: from_parts_def valid_path_def)
  qed
qed (use from_parts_Inr in blast)

theorem spiffe_id_round_trip_witness:
  "from_parts (map to_ascii_lowercase) ''prod.local'' ''ns/shop/sa/web''
     = parse (map to_ascii_lowercase) ''spiffe://prod.local/ns/shop/sa/web''
   \<and> (\<exists>made. from_parts (map to_ascii_lowercase) ''prod.local'' ''ns/shop/sa/web'' = Inr made
        \<and> trust_domain made = ''prod.local'' \<and> path made = ''ns/shop/sa/web'')"
proof -
  let ?lower = "map to_ascii_lowercase" and ?u = "''spiffe://prod.local/ns/shop/sa/web''"
  let ?sid = "\<lparr>uri = ?u, path_offset = 20, trust_domain = ''prod.local''\<rparr>"
  have ok: "parse ?lower ?u = Inr ?sid" by code_simp
  have td: "trust_domain ?sid = ''prod.local''" "path ?sid = ''ns/shop/sa/web''" by code_simp+
  have parts: "new_trust_domain ?lower ''prod.local'' = Inr ''prod.local'' \<and> (''ns/shop/sa/web'' = [] \<or> valid_path ''ns/shop/sa/web'')
      \<and> length ''prod.local'' + length ''ns/shop/sa/web'' \<le> 2038" by code_simp
  show ?thesis
    using conjunct1 [OF spiffe_id_round_trip [of ?lower ?u ?sid], rule_format, OF ok] ok td
      conjunct2 [OF spiffe_id_round_trip [of ?lower ?u ?sid "''prod.local''" "''ns/shop/sa/web''"], rule_format, OF parts]
    by metis
qed

text \<open>A workload identity is one path, and the path determines namespace and account.\<close>

theorem kubernetes_identity_exact:
  assumes "parse lower u = Inr sid"
  shows "kubernetes_identity sid = Some (n, a) \<longleftrightarrow>
           split_on (CHR ''/'') (path sid) = [''ns'', n, ''sa'', a]"
proof -
  from parse_Inr [OF assms] consider "path sid = []" | "valid_path (path sid)" by metis
  then show ?thesis
    by cases (auto simp: kubernetes_identity_def path_segments_valid, auto simp: path_segments_def split: list.splits if_splits)
qed

end
