(* ===== verification/Port_Pattern.thy ===== *)
theory Port_Pattern
  imports Wildcard_Match
begin

text \<open>
  The port wildcards of mesh authorization: the matcher that avoids the general glob
  (\<^verbatim>\<open>port_pattern_matches\<close> of \<^verbatim>\<open>src/src/modes/mesh/policy.rs\<close>) and the admission of patterns at load
  (\<^verbatim>\<open>admit_request_match_port_pattern\<close> of \<^verbatim>\<open>src/src/modes/mesh/config.rs\<close>). The admission is exact:
  it takes just the wildcards some port matches. The \<open>u32\<close> arithmetic of the admission stays below
  \<open>300000\<close>, so it is written over the naturals.
\<close>

section \<open>Matching\<close>

text \<open>The digits are written from the least significant one into the buffer.\<close>

function format_u16_loop :: "u16 \<Rightarrow> string \<Rightarrow> string" where
  "format_u16_loop value buf =
     (if 0 < value then format_u16_loop (value div 10) (digit (unat (value mod 10)) # buf) else buf)"
  by pat_completeness auto
termination
  by (relation "measure (\<lambda>(value, buf). unat value)") (auto simp: unat_div word_gt_0 word_unat_eq_iff)

declare format_u16_loop.simps [simp del]

definition format_u16 :: "u16 \<Rightarrow> string" where
  "format_u16 port = (if port = 0 then ''0'' else format_u16_loop port [])"

definition port_pattern_matches :: "string \<Rightarrow> u16 \<Rightarrow> bool" where
  "port_pattern_matches pattern port =
     (if pattern = ''*'' then True
      else
        (let port_str = format_u16 port in
         case strip_str_suffix ''*'' pattern of
           Some prefix \<Rightarrow> starts_with prefix port_str
         | None \<Rightarrow>
             (case strip_str_prefix ''*'' pattern of
                Some suffix \<Rightarrow> ends_with suffix port_str
              | None \<Rightarrow> pattern = port_str)))"

section \<open>Admission\<close>

datatype PortPatternAdmission = Admissible | Inadmissible | NotAPattern

definition port_prefix_pattern_is_admissible :: "string \<Rightarrow> bool" where
  "port_prefix_pattern_is_admissible prefix =
     (if prefix \<noteq> [] \<and> hd prefix = CHR ''0'' then False
      else case parse_uint (2 ^ 32 - 1) prefix of Some v \<Rightarrow> 1 \<le> v \<and> v \<le> 65535 | None \<Rightarrow> False)"

text \<open>The search from a first candidate in steps of the modulus \<open>10 ^ len\<close>.\<close>

function suffix_candidate_loop :: "nat \<Rightarrow> nat \<Rightarrow> bool" where
  "suffix_candidate_loop len candidate =
     (if candidate \<le> 65535
      then (if 1 \<le> candidate then True
            else if candidate + 10 ^ len < 2 ^ 32 then suffix_candidate_loop len (candidate + 10 ^ len)
            else False)
      else False)"
  by pat_completeness auto
termination
proof (relation "measure (\<lambda>(len, candidate). 65536 - candidate)")
  fix len candidate :: nat
  assume "candidate \<le> 65535"
  then show "((len, candidate + 10 ^ len), len, candidate) \<in> measure (\<lambda>(len, candidate). 65536 - candidate)"
    by (simp add: diff_less_mono2)
qed simp

declare suffix_candidate_loop.simps [simp del]

definition first_suffix_candidate :: "nat \<Rightarrow> nat \<Rightarrow> nat" where
  "first_suffix_candidate len target =
     (let modulus = 10 ^ len;
          min_with_len = (if len = 1 then 1 else 10 ^ (len - 1));
          rem = min_with_len mod modulus
      in if rem \<le> target then min_with_len + (target - rem)
         else min_with_len + (modulus - rem) + target)"

definition port_suffix_pattern_is_admissible :: "string \<Rightarrow> bool" where
  "port_suffix_pattern_is_admissible suffix =
     (let len = length suffix in
      if 5 < len then False
      else case parse_uint (2 ^ 32 - 1) suffix of
             None \<Rightarrow> False
           | Some target \<Rightarrow> suffix_candidate_loop len (first_suffix_candidate len target))"

definition admit_request_match_port_pattern :: "string \<Rightarrow> PortPatternAdmission" where
  "admit_request_match_port_pattern pattern =
     (if pattern = ''*'' then Admissible
      else case strip_str_suffix ''*'' pattern of
             Some prefix \<Rightarrow>
               if prefix = [] \<or> CHR ''*'' \<in> set prefix then NotAPattern
               else if \<not> list_all is_ascii_digit prefix then NotAPattern
               else if port_prefix_pattern_is_admissible prefix then Admissible else Inadmissible
           | None \<Rightarrow>
               (case strip_str_prefix ''*'' pattern of
                  Some suffix \<Rightarrow>
                    if suffix = [] \<or> CHR ''*'' \<in> set suffix then NotAPattern
                    else if \<not> list_all is_ascii_digit suffix then NotAPattern
                    else if port_suffix_pattern_is_admissible suffix then Admissible else Inadmissible
                | None \<Rightarrow> NotAPattern))"

section \<open>Decimal numerals\<close>

lemma format_u16_loop_dec:
  "0 < p \<Longrightarrow> format_u16_loop p buf = dec (unat p) @ buf"
proof (induction p buf rule: format_u16_loop.induct)
  case (1 p buf)
  have ten: "unat (p div 10) = unat p div 10" "unat (p mod 10) = unat p mod 10"
    by (simp_all add: unat_div unat_mod)
  show ?case
  proof (cases "unat p < 10")
    case True
    then have "p div 10 = 0" "unat p mod 10 = unat p" using ten(1) by (simp_all add: word_unat_eq_iff)
    then show ?thesis using 1(2) True
      by (simp add: format_u16_loop.simps [of p] format_u16_loop.simps [of 0] ten dec.simps [of "unat p"])
  next
    case False
    then have "0 < p div 10" using ten(1) by (simp add: word_gt_0 word_unat_eq_iff)
    with 1 False show ?thesis by (simp add: format_u16_loop.simps [of p] ten dec.simps [of "unat p"])
  qed
qed

lemma format_u16_dec: "format_u16 port = dec (unat port)"
proof (cases "port = 0")
  case True
  have "dec 0 = ''0''" by code_simp
  with True show ?thesis by (simp add: format_u16_def)
qed (simp add: format_u16_def format_u16_loop_dec word_gt_0)

lemma length_dec_bounds: "0 < n \<Longrightarrow> 10 ^ (length (dec n) - 1) \<le> n \<and> n < 10 ^ length (dec n)"
proof (induction n rule: dec.induct)
  case (1 n)
  show ?case
  proof (cases "n < 10")
    case True
    then show ?thesis using 1 by (simp add: dec.simps [of n])
  next
    case False
    then have ih: "10 ^ (length (dec (n div 10)) - 1) \<le> n div 10" "n div 10 < 10 ^ length (dec (n div 10))"
      using 1 by auto
    have "length (dec (n div 10)) = Suc (length (dec (n div 10)) - 1)"
      by (simp add: dec.simps [of "n div 10"])
    then have "(10::nat) ^ length (dec (n div 10)) = 10 * 10 ^ (length (dec (n div 10)) - 1)"
      by (metis power_Suc)
    then show ?thesis using ih False by (auto simp: dec.simps [of n] div_less_iff_less_mult less_eq_div_iff_mult_less_eq)
  qed
qed

lemma dec_value_append: "dec_value (a @ b) = dec_value a * 10 ^ length b + dec_value b"
proof (induction b rule: rev_induct)
  case (snoc c b)
  then show ?case
    by (simp add: dec_value_snoc append_assoc [symmetric] algebra_simps del: append_assoc)
qed (simp add: dec_value_def)

lemma digit_value_less: "is_ascii_digit c \<Longrightarrow> digit_value c < 10"
  by (auto simp: is_ascii_digit_def digit_value_def)

lemma dec_value_less: "list_all is_ascii_digit s \<Longrightarrow> dec_value s < 10 ^ length s"
proof (induction s rule: rev_induct)
  case (snoc c s)
  then show ?case using digit_value_less [of c] by (simp add: dec_value_snoc)
qed (simp add: dec_value_def)

lemma digit_value_inj: "is_ascii_digit c \<Longrightarrow> is_ascii_digit d \<Longrightarrow> digit_value c = digit_value d \<Longrightarrow> c = d"
  by (metis byte_of_eq_iff digit_value_def eq_diff_iff is_ascii_digit_def)

lemma dec_value_inj:
  assumes "length s = length t" "list_all is_ascii_digit s" "list_all is_ascii_digit t" "dec_value s = dec_value t"
  shows "s = t"
  using assms
proof (induction s arbitrary: t rule: rev_induct)
  case (snoc c s)
  from snoc.prems(1) obtain u d where t: "t = u @ [d]" by (cases t rule: rev_cases) auto
  have digits: "is_ascii_digit c" "is_ascii_digit d" using snoc.prems t by simp_all
  have "dec_value s * 10 + digit_value c = dec_value u * 10 + digit_value d"
    using snoc.prems(4) t by (simp add: dec_value_snoc)
  then have "digit_value c = digit_value d \<and> dec_value s = dec_value u"
    using digit_value_less [OF digits(1)] digit_value_less [OF digits(2)] by presburger
  then show ?case using snoc t digits digit_value_inj by simp
qed simp

lemma dec_all_digits: "list_all is_ascii_digit (dec n)"
  by (auto simp: list_all_iff dec_digits)

lemma dec_length_at_least:
  assumes "0 < n" "0 < k"
  shows "k \<le> length (dec n) \<longleftrightarrow> 10 ^ (k - 1) \<le> n"
proof
  assume "k \<le> length (dec n)"
  then have "(10::nat) ^ (k - 1) \<le> 10 ^ (length (dec n) - 1)" by (intro power_increasing) auto
  then show "10 ^ (k - 1) \<le> n" using length_dec_bounds [OF assms(1)] by linarith
next
  assume low: "10 ^ (k - 1) \<le> n"
  show "k \<le> length (dec n)"
  proof (rule ccontr)
    assume "\<not> k \<le> length (dec n)"
    then have "(10::nat) ^ length (dec n) \<le> 10 ^ (k - 1)" by (intro power_increasing) auto
    then show False using low length_dec_bounds [OF assms(1)] by linarith
  qed
qed

lemma dec_value_lead:
  assumes digits: "list_all is_ascii_digit s" and ne: "s \<noteq> []" and lead: "hd s \<noteq> CHR ''0''"
  shows "10 ^ (length s - 1) \<le> dec_value s" "0 < dec_value s"
proof -
  obtain c r where s: "s = [c] @ r" using ne by (cases s) auto
  have "1 \<le> digit_value c"
    using digits lead digit_value_inj [of c "CHR ''0''"] s
    by (cases "digit_value c") (auto simp: digit_value_def is_ascii_digit_def byte_of_def)
  then have "10 ^ length r \<le> digit_value c * 10 ^ length r" by simp
  also have "\<dots> \<le> dec_value s" unfolding s dec_value_append by (simp add: dec_value_def)
  finally show low: "10 ^ (length s - 1) \<le> dec_value s" by (simp add: s)
  have "0 < (10::nat) ^ (length s - 1)" by simp
  then show "0 < dec_value s" using low by linarith
qed

text \<open>A numeral without a leading zero is the numeral of its value.\<close>

lemma dec_dec_value:
  assumes digits: "list_all is_ascii_digit s" and ne: "s \<noteq> []" and lead: "hd s \<noteq> CHR ''0''"
  shows "dec (dec_value s) = s"
proof -
  note low = dec_value_lead [OF assms]
  have "length s \<le> length (dec (dec_value s))" "\<not> Suc (length s) \<le> length (dec (dec_value s))"
    using dec_length_at_least [OF low(2)] low(1) dec_value_less [OF digits] ne by auto
  then show ?thesis
    by (intro dec_value_inj) (use digits in \<open>auto simp: dec_all_digits dec_value_dec\<close>)
qed

text \<open>A numeral ends in given digits when the number leaves them as the remainder and is long enough.\<close>

lemma dec_ends_with:
  assumes digits: "list_all is_ascii_digit s" and "s \<noteq> []" "0 < n"
  shows "ends_with s (dec n) \<longleftrightarrow> n mod 10 ^ length s = dec_value s \<and> 10 ^ (length s - 1) \<le> n"
proof
  assume "ends_with s (dec n)"
  then obtain b where b: "dec n = b @ s" by (auto simp: ends_with_append)
  have "n = dec_value b * 10 ^ length s + dec_value s"
    using dec_value_append [of b s] dec_value_dec [of n] b by simp
  then have "n mod 10 ^ length s = dec_value s" using dec_value_less [OF digits] by simp
  moreover have "length s \<le> length (dec n)" by (simp add: b)
  ultimately show "n mod 10 ^ length s = dec_value s \<and> 10 ^ (length s - 1) \<le> n"
    using dec_length_at_least [of n "length s"] assms by simp
next
  assume *: "n mod 10 ^ length s = dec_value s \<and> 10 ^ (length s - 1) \<le> n"
  then have long: "length s \<le> length (dec n)" using dec_length_at_least [of n "length s"] assms by simp
  define t where "t = drop (length (dec n) - length s) (dec n)"
  define b where "b = take (length (dec n) - length s) (dec n)"
  have bt: "dec n = b @ t" and len: "length t = length s" using long by (simp_all add: b_def t_def)
  have t: "list_all is_ascii_digit t" using dec_all_digits [of n] bt by simp
  have "n = dec_value b * 10 ^ length s + dec_value t"
    using dec_value_append [of b t] dec_value_dec [of n] bt len by simp
  then have "dec_value t = dec_value s" using * dec_value_less [OF t] len by (metis mod_less mod_mult_self3)
  then show "ends_with s (dec n)" using dec_value_inj [OF len t digits] bt by (auto simp: ends_with_append)
qed

section \<open>Admission is exact\<close>

lemma some_port: "(\<exists>port :: u16. port \<noteq> 0 \<and> P (unat port)) \<longleftrightarrow> (\<exists>n. 0 < n \<and> n \<le> 65535 \<and> P n)"
proof
  assume "\<exists>port :: u16. port \<noteq> 0 \<and> P (unat port)"
  then obtain port :: u16 where "port \<noteq> 0" "P (unat port)" by blast
  moreover have "unat port < 65536" using unsigned_less [of port] by simp
  ultimately show "\<exists>n. 0 < n \<and> n \<le> 65535 \<and> P n"
    by (intro exI [of _ "unat port"]) (auto simp: word_unat_eq_iff)
next
  assume "\<exists>n. 0 < n \<and> n \<le> 65535 \<and> P n"
  then obtain n where n: "0 < n" "n \<le> 65535" "P n" by blast
  then have "unat (of_nat n :: u16) = n" by (simp add: unat_of_nat)
  with n show "\<exists>port :: u16. port \<noteq> 0 \<and> P (unat port)"
    by (intro exI [of _ "of_nat n"]) (auto simp: word_unat_eq_iff)
qed

lemma plus_sign: "(case s of CHR ''+'' # rest \<Rightarrow> rest | _ \<Rightarrow> s) = (if s \<noteq> [] \<and> hd s = CHR ''+'' then tl s else s)"
  by (auto split: list.split char.split bool.split)

lemma parse_digits:
  "list_all is_ascii_digit s \<Longrightarrow> s \<noteq> [] \<Longrightarrow>
     parse_uint bound s = (if dec_value s \<le> bound then Some (dec_value s) else None)"
  by (cases s) (auto simp: parse_uint_def plus_sign Let_def is_ascii_digit_def byte_of_def)

lemma prefix_admission_exact:
  assumes digits: "list_all is_ascii_digit p" and ne: "p \<noteq> []"
  shows "port_prefix_pattern_is_admissible p \<longleftrightarrow> (\<exists>n. 0 < n \<and> n \<le> 65535 \<and> starts_with p (dec n))"
proof
  assume "port_prefix_pattern_is_admissible p"
  then have "hd p \<noteq> CHR ''0''" "1 \<le> dec_value p" "dec_value p \<le> 65535"
    using ne by (auto simp: port_prefix_pattern_is_admissible_def parse_digits [OF digits ne] split: if_splits)
  then show "\<exists>n. 0 < n \<and> n \<le> 65535 \<and> starts_with p (dec n)"
    using dec_dec_value [OF digits ne] by (intro exI [of _ "dec_value p"]) (auto simp: starts_with_iff)
next
  assume "\<exists>n. 0 < n \<and> n \<le> 65535 \<and> starts_with p (dec n)"
  then obtain n r where n: "0 < n" "n \<le> 65535" and split: "dec n = p @ r" by (auto simp: starts_with_iff)
  have lead: "hd p \<noteq> CHR ''0''" using dec_no_leading_zero [of n] n split ne by (cases p) auto
  have eq: "n = dec_value p * 10 ^ length r + dec_value r"
    using dec_value_append [of p r] dec_value_dec [of n] split by simp
  have "dec_value p * 1 \<le> dec_value p * 10 ^ length r" by (intro mult_le_mono2) simp
  then have high: "dec_value p \<le> 65535" using eq n by linarith
  have "0 < dec_value p" by (rule dec_value_lead(2) [OF digits ne lead])
  then show "port_prefix_pattern_is_admissible p"
    using lead high ne by (auto simp: port_prefix_pattern_is_admissible_def parse_digits [OF digits ne])
qed

lemma first_candidate:
  assumes "0 < len" "target < 10 ^ len"
  shows "first_suffix_candidate len target = (if 10 ^ (len - 1) \<le> target then target else 10 ^ len + target)"
proof -
  have less: "(10::nat) ^ (len - 1) < 10 ^ len" using assms(1) by (intro power_strict_increasing) auto
  have "(if len = 1 then 1 else 10 ^ (len - 1)) = (10::nat) ^ (len - 1)" by simp
  then show ?thesis using less by (simp add: first_suffix_candidate_def Let_def)
qed

lemma suffix_admission_exact:
  assumes digits: "list_all is_ascii_digit s" and ne: "s \<noteq> []"
  shows "port_suffix_pattern_is_admissible s \<longleftrightarrow> (\<exists>n. 0 < n \<and> n \<le> 65535 \<and> ends_with s (dec n))"
proof -
  let ?k = "length s" and ?t = "dec_value s"
  have k: "0 < ?k" and t: "?t < 10 ^ ?k" using ne dec_value_less [OF digits] by auto
  have pos: "0 < (10::nat) ^ (?k - 1)" by simp
  let ?f = "first_suffix_candidate ?k ?t"
  have f: "?f = (if 10 ^ (?k - 1) \<le> ?t then ?t else 10 ^ ?k + ?t)" by (rule first_candidate [OF k t])
  have f_pos: "1 \<le> ?f"
  proof (cases "10 ^ (?k - 1) \<le> ?t")
    case True
    then have "?f = ?t" using f by simp
    then show ?thesis using True pos by linarith
  next
    case False
    have "0 < (10::nat) ^ ?k" by simp
    with False f show ?thesis by (simp add: Suc_le_eq del: zero_less_power)
  qed
  have pow: "(10::nat) ^ (?k - 1) \<le> 10 ^ ?k" by (intro power_increasing) auto
  have "10 ^ (?k - 1) \<le> ?f" unfolding f by (auto simp del: One_nat_def intro: trans_le_add1 [OF pow])
  moreover have "?f mod 10 ^ ?k = ?t" using f t by simp
  ultimately have f_ends: "ends_with s (dec ?f)" using dec_ends_with [OF digits ne, of ?f] f_pos by simp
  have f_least: "?f \<le> n" if "0 < n" "ends_with s (dec n)" for n
  proof -
    have n: "n mod 10 ^ ?k = ?t" "10 ^ (?k - 1) \<le> n" using dec_ends_with [OF digits ne that(1)] that(2) by auto
    show ?thesis using n f t div_mult_mod_eq [of n "10 ^ ?k"] by (cases "n div 10 ^ ?k") auto
  qed
  have parsed: "parse_uint (2 ^ 32 - 1) s = Some ?t" if "?k \<le> 5"
  proof -
    have "(10::nat) ^ ?k \<le> 10 ^ 5" using that by (intro power_increasing) auto
    then show ?thesis using t by (simp add: parse_digits [OF digits ne])
  qed
  have short: "\<not> 5 < ?k" if "0 < n" "n \<le> 65535" "ends_with s (dec n)" for n
  proof
    assume "5 < ?k"
    then have "(10::nat) ^ 5 \<le> 10 ^ (?k - 1)" by (intro power_increasing) auto
    then show False using dec_ends_with [OF digits ne that(1)] that by simp
  qed
  have loop: "suffix_candidate_loop ?k ?f \<longleftrightarrow> ?f \<le> 65535"
    using f_pos by (simp add: suffix_candidate_loop.simps [of ?k ?f])
  have "port_suffix_pattern_is_admissible s \<longleftrightarrow> ?k \<le> 5 \<and> ?f \<le> 65535"
    using parsed loop by (auto simp: port_suffix_pattern_is_admissible_def Let_def)
  also have "\<dots> \<longleftrightarrow> (\<exists>n. 0 < n \<and> n \<le> 65535 \<and> ends_with s (dec n))"
  proof
    assume "?k \<le> 5 \<and> ?f \<le> 65535"
    then show "\<exists>n. 0 < n \<and> n \<le> 65535 \<and> ends_with s (dec n)"
      using f_pos f_ends by (intro exI [of _ ?f]) linarith
  next
    assume "\<exists>n. 0 < n \<and> n \<le> 65535 \<and> ends_with s (dec n)"
    then obtain n where n: "0 < n" "n \<le> 65535" "ends_with s (dec n)" by blast
    show "?k \<le> 5 \<and> ?f \<le> 65535" using short [OF n] f_least [OF n(1,3)] n(2) by linarith
  qed
  finally show ?thesis .
qed

lemma digit_not_star: "list_all is_ascii_digit s \<Longrightarrow> CHR ''*'' \<notin> set s"
  by (auto simp: list_all_iff is_ascii_digit_def byte_of_def)

lemma strip_star_suffix: "strip_str_suffix ''*'' s = (if s \<noteq> [] \<and> last s = CHR ''*'' then Some (butlast s) else None)"
  unfolding strip_str_suffix_def ends_with_def [symmetric] star_end by (simp add: butlast_conv_take)

lemma strip_star_prefix: "strip_str_prefix ''*'' s = (if s \<noteq> [] \<and> hd s = CHR ''*'' then Some (tl s) else None)"
  unfolding strip_str_prefix_def star_start by (simp add: drop_Suc)

lemma admitted_shapes:
  assumes "admit_request_match_port_pattern pattern \<noteq> NotAPattern"
  obtains "pattern = ''*''"
  | p where "pattern = p @ ''*''" "p \<noteq> []" "list_all is_ascii_digit p"
  | s where "pattern = CHR ''*'' # s" "s \<noteq> []" "list_all is_ascii_digit s"
proof (cases "pattern = ''*''")
  case False
  show ?thesis
  proof (cases "pattern \<noteq> [] \<and> last pattern = CHR ''*''")
    case True
    then show ?thesis using assms False append_butlast_last_id [of pattern]
      by (intro that(2) [of "butlast pattern"])
        (auto simp: admit_request_match_port_pattern_def strip_star_suffix split: if_splits)
  next
    case not_suffix: False
    then show ?thesis using assms False
      by (cases pattern; intro that(3) [of "tl pattern"])
        (auto simp: admit_request_match_port_pattern_def strip_star_suffix strip_star_prefix split: if_splits)
  qed
qed (rule that(1))

lemma prefix_pattern:
  assumes "p \<noteq> []" "list_all is_ascii_digit p"
  shows "port_pattern_matches (p @ ''*'') port \<longleftrightarrow> starts_with p (dec (unat port))"
    and "wildcard_match (p @ ''*'') v \<longleftrightarrow> starts_with p v"
    and "admit_request_match_port_pattern (p @ ''*'') = Admissible \<longleftrightarrow> port_prefix_pattern_is_admissible p"
proof -
  note star = digit_not_star [OF assms(2)]
  have shape: "p @ ''*'' \<noteq> ''*''" "strip_str_suffix ''*'' (p @ ''*'') = Some p"
    using assms(1) by (simp_all add: strip_star_suffix)
  show "port_pattern_matches (p @ ''*'') port \<longleftrightarrow> starts_with p (dec (unat port))"
    unfolding port_pattern_matches_def shape(2) Let_def option.case format_u16_dec using shape(1) by simp
  show "wildcard_match (p @ ''*'') v \<longleftrightarrow> starts_with p v"
    unfolding wildcard_matcher_glob glob_split split_on_first [OF star] by (simp add: starts_with_iff)
  show "admit_request_match_port_pattern (p @ ''*'') = Admissible \<longleftrightarrow> port_prefix_pattern_is_admissible p"
    unfolding admit_request_match_port_pattern_def shape(2) option.case using shape(1) assms star by simp
qed

lemma suffix_pattern:
  assumes "s \<noteq> []" "list_all is_ascii_digit s"
  shows "port_pattern_matches (CHR ''*'' # s) port \<longleftrightarrow> ends_with s (dec (unat port))"
    and "wildcard_match (CHR ''*'' # s) v \<longleftrightarrow> ends_with s v"
    and "admit_request_match_port_pattern (CHR ''*'' # s) = Admissible \<longleftrightarrow> port_suffix_pattern_is_admissible s"
proof -
  note star = digit_not_star [OF assms(2)]
  have last: "last s \<noteq> CHR ''*''" using star last_in_set [OF assms(1)] by metis
  have shape: "CHR ''*'' # s \<noteq> ''*''" "strip_str_suffix ''*'' (CHR ''*'' # s) = None"
      "strip_str_prefix ''*'' (CHR ''*'' # s) = Some s"
    using assms(1) last by (simp_all add: strip_star_suffix strip_star_prefix)
  show "port_pattern_matches (CHR ''*'' # s) port \<longleftrightarrow> ends_with s (dec (unat port))"
    unfolding port_pattern_matches_def shape(2,3) Let_def option.case format_u16_dec using shape(1) by simp
  show "wildcard_match (CHR ''*'' # s) v \<longleftrightarrow> ends_with s v"
    unfolding wildcard_matcher_glob glob_split split_on.simps split_on_no_sep [OF star] by (simp add: ends_with_append)
  show "admit_request_match_port_pattern (CHR ''*'' # s) = Admissible \<longleftrightarrow> port_suffix_pattern_is_admissible s"
    unfolding admit_request_match_port_pattern_def shape(2,3) option.case using shape(1) assms star by simp
qed

text \<open>
  C28. Port wildcards mean what they say. The allocation-free matcher of the request path agrees with
  the general glob matcher on the decimal form of the port for every pattern the configuration admits;
  and the admission is exact: of the wildcards (a star, digits before a star, digits after a star) it
  admits precisely those that at least one port from 1 to 65535 matches.
\<close>

theorem port_patterns_exact:
  assumes "admit_request_match_port_pattern pattern \<noteq> NotAPattern"
  shows "(port_pattern_matches pattern port \<longleftrightarrow> wildcard_match pattern (dec (unat port)))
    \<and> (admit_request_match_port_pattern pattern = Admissible \<longleftrightarrow>
         (\<exists>p :: u16. p \<noteq> 0 \<and> port_pattern_matches pattern p))"
  using assms
proof (cases rule: admitted_shapes)
  case 1
  have "\<exists>p :: u16. p \<noteq> 0" by (rule exI [of _ 1]) simp
  then show ?thesis unfolding 1 port_pattern_matches_def wildcard_match_def admit_request_match_port_pattern_def by auto
next
  case (2 p)
  show ?thesis
    unfolding 2(1) prefix_pattern [OF 2(2,3)] some_port [of "\<lambda>n. starts_with p (dec n)"]
      prefix_admission_exact [OF 2(3,2)] by simp
next
  case (3 s)
  show ?thesis
    unfolding 3(1) suffix_pattern [OF 3(2,3)] some_port [of "\<lambda>n. ends_with s (dec n)"]
      suffix_admission_exact [OF 3(3,2)] by simp
qed

theorem port_patterns_exact_witness:
  "(port_pattern_matches ''80*'' 8080 \<longleftrightarrow> wildcard_match ''80*'' (dec (unat (8080 :: u16))))
   \<and> (\<not> (\<exists>p :: u16. p \<noteq> 0 \<and> port_pattern_matches ''*70000'' p))"
proof -
  have "admit_request_match_port_pattern ''80*'' \<noteq> NotAPattern"
    by (simp add: admit_request_match_port_pattern_def strip_star_suffix is_ascii_digit_def byte_of_def)
  moreover have "admit_request_match_port_pattern ''*70000'' = Inadmissible"
    by (simp add: admit_request_match_port_pattern_def strip_star_suffix strip_star_prefix is_ascii_digit_def byte_of_def
        port_suffix_pattern_is_admissible_def parse_digits dec_value_def digit_value_def first_suffix_candidate_def
        suffix_candidate_loop.simps [of _ 70000])
  moreover then have "admit_request_match_port_pattern ''*70000'' \<noteq> NotAPattern" by simp
  ultimately show ?thesis
    using port_patterns_exact [of "''80*''" 8080] port_patterns_exact [of "''*70000''" 0]
    by (metis PortPatternAdmission.distinct(1))
qed

end
