(* ===== verification/Mesh_Host.thy ===== *)
theory Mesh_Host
  imports Wildcard_Match
begin

text \<open>
  Hosts in mesh authorization: the normalisation of the authority of a request
  (\<^verbatim>\<open>normalize_match_host\<close> of \<^verbatim>\<open>src/src/modes/mesh/policy.rs\<close>), the normalisation of a configured host pattern
  (\<^verbatim>\<open>normalize_request_match_host_pattern\<close> of \<^verbatim>\<open>config.rs\<close>), and that the two agree.
\<close>

section \<open>Normalisation\<close>

definition parse_authority_port :: "string \<Rightarrow> u16 option" where
  "parse_authority_port port =
     (if port = [] \<or> \<not> list_all is_ascii_digit port then None
      else map_option of_nat (parse_uint 65535 port))"

record NormalizedHost =
  host_name :: string
  authority :: string

definition rsplit_once :: "char \<Rightarrow> string \<Rightarrow> (string \<times> string) option" where
  "rsplit_once c s = map_option (\<lambda>i. (take i s, drop (Suc i) s)) (rfind c s)"

abbreviation ascii_lower :: "string \<Rightarrow> string" where
  "ascii_lower \<equiv> map to_ascii_lowercase"

definition strip_dot :: "string \<Rightarrow> string" where
  "strip_dot s = (case strip_str_suffix ''.'' s of Some t \<Rightarrow> t | None \<Rightarrow> s)"

definition normalize_hostname :: "string \<Rightarrow> string option" where
  "normalize_hostname host =
     (let host = strip_dot host in if host \<noteq> [] then Some (ascii_lower host) else None)"

definition with_port :: "string \<Rightarrow> u16 \<Rightarrow> string" where
  "with_port name port = name @ '':'' @ dec (unat port)"

definition normalize_bracketed_host :: "string \<Rightarrow> NormalizedHost option" where
  "normalize_bracketed_host host =
     (case split_once (CHR '']'') host of
        None \<Rightarrow> None
      | Some (inside, suffix) \<Rightarrow>
          (let name = ascii_lower (inside @ '']'') in
           if suffix = [] then Some \<lparr>host_name = name, authority = name\<rparr>
           else case strip_str_prefix '':'' suffix of
                  None \<Rightarrow> None
                | Some port_str \<Rightarrow>
                    map_option (\<lambda>port. \<lparr>host_name = name, authority = with_port name port\<rparr>)
                      (parse_authority_port port_str)))"

definition normalize_match_host :: "string \<Rightarrow> NormalizedHost option" where
  "normalize_match_host raw =
     (let host = trim raw in
      if host = [] \<or> CHR ''@'' \<in> set host then None
      else if starts_with ''['' host then normalize_bracketed_host host
      else case rsplit_once (CHR '':'') host of
             Some (name, port_str) \<Rightarrow>
               if CHR '':'' \<notin> set name then
                 (case parse_authority_port port_str of
                    None \<Rightarrow> None
                  | Some port \<Rightarrow>
                      map_option (\<lambda>name. \<lparr>host_name = name, authority = with_port name port\<rparr>)
                        (normalize_hostname name))
               else None
           | None \<Rightarrow> map_option (\<lambda>name. \<lparr>host_name = name, authority = name\<rparr>) (normalize_hostname host))"

definition normalized_host_matches :: "string \<Rightarrow> NormalizedHost \<Rightarrow> bool" where
  "normalized_host_matches pattern host \<longleftrightarrow>
     wildcard_match pattern (host_name host) \<or> wildcard_match pattern (authority host)"

definition normalize_request_match_host_pattern :: "string \<Rightarrow> string" where
  "normalize_request_match_host_pattern raw =
     (let pattern = ascii_lower (trim raw) in
      case rsplit_once (CHR '':'') pattern of
        Some (name, port_str) \<Rightarrow>
          if CHR '':'' \<notin> set name \<or> (starts_with ''['' name \<and> ends_with '']'' name) then
            (let name = strip_dot name in
             case parse_authority_port port_str of
               Some port \<Rightarrow> with_port name port
             | None \<Rightarrow> name @ '':'' @ port_str)
          else strip_dot pattern
      | None \<Rightarrow> strip_dot pattern)"

section \<open>Host patterns\<close>

lemma split_once_Some: "split_once c s = Some (a, b) \<longleftrightarrow> s = a @ c # b \<and> c \<notin> set a"
proof (induction s arbitrary: a)
  case (Cons x s)
  then show ?case by (cases a) auto
qed simp

lemma rsplit_once_Some: "rsplit_once c s = Some (a, b) \<longleftrightarrow> s = a @ c # b \<and> c \<notin> set b"
proof -
  have found: "rsplit_once c (a @ c # b) = Some (a, b)" if "c \<notin> set b" for a b
  proof -
    have "takeWhile (\<lambda>d. d \<noteq> c) (rev (a @ c # b)) = rev b"
      using that by (subst rev_append, subst rev.simps, subst append_assoc, subst takeWhile_append2) auto
    then show ?thesis by (simp add: rsplit_once_def rfind_def)
  qed
  show ?thesis
  proof
    assume split: "rsplit_once c s = Some (a, b)"
    then have "c \<in> set s" by (auto simp: rsplit_once_def rfind_def split: if_splits)
    then obtain a' b' where "s = a' @ c # b'" "c \<notin> set b'" using split_list_last by fast
    then show "s = a @ c # b \<and> c \<notin> set b" using found [of b' a'] split by simp
  qed (use found in simp)
qed

lemma rsplit_once_None: "rsplit_once c s = None \<longleftrightarrow> c \<notin> set s"
  by (simp add: rsplit_once_def rfind_def)

text \<open>Lower-casing touches letters only.\<close>

lemma lower_eq_iff:
  assumes "byte_of x < 65 \<or> 90 < byte_of x" "byte_of x < 97 \<or> 122 < byte_of x"
  shows "to_ascii_lowercase c = x \<longleftrightarrow> c = x"
proof (cases "65 \<le> byte_of c \<and> byte_of c \<le> 90")
  case True
  then have "byte_of (to_ascii_lowercase c) = byte_of c + 32"
    by (simp add: to_ascii_lowercase_def byte_of_def)
  then show ?thesis using True assms by auto
qed (auto simp: to_ascii_lowercase_def)

lemma lower_punctuation:
  "to_ascii_lowercase c = CHR '':'' \<longleftrightarrow> c = CHR '':''" "to_ascii_lowercase c = CHR ''.'' \<longleftrightarrow> c = CHR ''.''"
  "to_ascii_lowercase c = CHR ''['' \<longleftrightarrow> c = CHR ''[''" "to_ascii_lowercase c = CHR '']'' \<longleftrightarrow> c = CHR '']''"
  by (simp_all add: lower_eq_iff byte_of_def)

lemma lower_digit: "is_ascii_digit (to_ascii_lowercase c) \<longleftrightarrow> is_ascii_digit c" "is_ascii_digit c \<Longrightarrow> to_ascii_lowercase c = c"
  by (auto simp: is_ascii_digit_def to_ascii_lowercase_def byte_of_def)

lemma parse_authority_port_lower: "parse_authority_port (ascii_lower s) = parse_authority_port s"
proof (cases "list_all is_ascii_digit s")
  case True
  then have "ascii_lower s = s" by (simp add: list_all_iff lower_digit map_idI)
  then show ?thesis by simp
qed (simp add: parse_authority_port_def list.pred_map comp_def lower_digit)

lemma strip_dot_cases: "strip_dot s = (if s \<noteq> [] \<and> last s = CHR ''.'' then butlast s else s)"
  by (cases s rule: rev_cases) (simp_all add: strip_dot_def strip_str_suffix_def starts_with_def)

lemma strip_dot_lower: "strip_dot (ascii_lower s) = ascii_lower (strip_dot s)"
  by (cases s rule: rev_cases) (simp_all add: strip_dot_cases lower_punctuation)

lemma colon_lower: "CHR '':'' \<in> set (ascii_lower s) \<longleftrightarrow> CHR '':'' \<in> set s"
  by (induction s) (simp_all add: lower_punctuation eq_commute [of "CHR '':''"])

lemma rsplit_lower:
  "rsplit_once (CHR '':'') s = Some (a, b) \<Longrightarrow> rsplit_once (CHR '':'') (ascii_lower s) = Some (ascii_lower a, ascii_lower b)"
  using colon_lower by (auto simp: rsplit_once_Some lower_punctuation)

lemma rsplit_lower_None: "rsplit_once (CHR '':'') s = None \<Longrightarrow> rsplit_once (CHR '':'') (ascii_lower s) = None"
  using colon_lower by (auto simp: rsplit_once_None)

text \<open>White space neither starts nor ends with a printable ASCII byte.\<close>

lemma white_space_bytes:
  "\<forall>w \<in> set white_space. w \<noteq> [] \<and> (byte_of (hd w) \<le> 32 \<or> 126 < byte_of (hd w))
                               \<and> (byte_of (last w) \<le> 32 \<or> 126 < byte_of (last w))"
  by (simp add: white_space_def byte_of_def)

lemma strip_all_stays:
  assumes "s \<noteq> []" "32 < byte_of (hd s)" "byte_of (hd s) \<le> 126"
    and "\<forall>w \<in> set ws. w \<noteq> [] \<longrightarrow> byte_of (hd w) \<le> 32 \<or> 126 < byte_of (hd w)"
  shows "strip_all ws s = s"
proof -
  have "find (\<lambda>w. w \<noteq> [] \<and> starts_with w s) ws = None"
    unfolding find_None_iff starts_with_iff using assms by (metis hd_append2 leD)
  then show ?thesis by (simp add: strip_all.simps [of ws s])
qed

lemma trim_stays:
  assumes "s \<noteq> []" "32 < byte_of (hd s)" "byte_of (hd s) \<le> 126" "32 < byte_of (last s)" "byte_of (last s) \<le> 126"
  shows "trim s = s"
proof -
  have "strip_all white_space s = s" using assms white_space_bytes by (intro strip_all_stays) auto
  moreover have "strip_all (map rev white_space) (rev s) = rev s"
    using assms white_space_bytes by (intro strip_all_stays) (auto simp: hd_rev)
  ultimately show ?thesis by (simp add: trim_def)
qed

lemma glob_refl: "glob p p"
proof (induction p)
  case (Cons c p)
  show ?case
  proof (cases "c = CHR ''*''")
    case True
    have "CHR ''*'' # p = ''*'' @ p \<and> glob p p" using Cons by simp
    then show ?thesis unfolding True glob_star by blast
  qed (use Cons in simp)
qed simp

lemma starts_bracket: "starts_with ''['' s \<longleftrightarrow> s \<noteq> [] \<and> hd s = CHR ''[''"
  by (cases s) (auto simp: starts_with_iff)

lemma ends_bracket: "ends_with '']'' s \<longleftrightarrow> s \<noteq> [] \<and> last s = CHR '']''"
  by (cases s rule: rev_cases) (auto simp: ends_with_append)

lemma port_has_no_colon: "parse_authority_port s = Some port \<Longrightarrow> CHR '':'' \<notin> set s"
  by (auto simp: parse_authority_port_def list_all_iff is_ascii_digit_def byte_of_def split: if_splits)

text \<open>A host outside brackets, with and without a port.\<close>

lemma plain_host_mirrors:
  assumes "trim h \<noteq> []" "\<not> starts_with ''['' (trim h)" "normalize_match_host h = Some host"
  shows "normalize_request_match_host_pattern h = authority host"
proof (cases "rsplit_once (CHR '':'') (trim h)")
  case None
  then have "authority host = ascii_lower (strip_dot (trim h))"
    using assms by (auto simp: normalize_match_host_def normalize_hostname_def Let_def split: if_splits)
  then show ?thesis
    by (simp add: normalize_request_match_host_pattern_def rsplit_lower_None [OF None] strip_dot_lower Let_def)
next
  case (Some split)
  obtain name port_str where split: "split = (name, port_str)" by (cases split)
  have parts: "CHR '':'' \<notin> set name" "\<exists>port. parse_authority_port port_str = Some port
      \<and> authority host = with_port (ascii_lower (strip_dot name)) port"
    using assms Some split
    by (auto simp: normalize_match_host_def normalize_hostname_def Let_def split: if_splits option.splits)
  then obtain port where port: "parse_authority_port (ascii_lower port_str) = Some port"
      "authority host = with_port (ascii_lower (strip_dot name)) port"
    unfolding parse_authority_port_lower by blast
  have "CHR '':'' \<notin> set (ascii_lower name)" using parts(1) unfolding colon_lower .
  then show ?thesis
    unfolding normalize_request_match_host_pattern_def Let_def rsplit_lower [OF Some [unfolded split]] option.case prod.case
    by (simp only: port strip_dot_lower option.case simp_thms if_True)
qed

text \<open>A bracketed literal; a dot before a colon occurs in no address.\<close>

lemma bracket_stays: "strip_dot (s @ '']'') = s @ '']''"
  by (simp add: strip_dot_cases)

lemma bracket_lower: "ascii_lower (s @ '']'') = ascii_lower s @ '']''"
  by (simp add: lower_punctuation)

lemma bracketed_literal_mirrors:
  assumes lit: "trim h = inside @ '']''" and dot: "find_str ''.:'' (trim h) = None"
  shows "normalize_request_match_host_pattern h = ascii_lower (trim h)"
proof -
  have stays: "strip_dot (ascii_lower (trim h)) = ascii_lower (trim h)"
    unfolding lit bracket_lower bracket_stays ..
  show ?thesis
  proof (cases "rsplit_once (CHR '':'') (trim h)")
    case None
    then show ?thesis by (simp add: normalize_request_match_host_pattern_def rsplit_lower_None stays Let_def)
  next
    case (Some split)
    obtain a b where split: "split = (a, b)" by (cases split)
    have th: "trim h = a @ CHR '':'' # b" using Some split by (simp add: rsplit_once_Some)
    have "last (a @ CHR '':'' # b) = CHR '']''" unfolding th [symmetric] lit by simp
    then have "b \<noteq> [] \<and> last b = CHR '']''" by (auto split: if_splits)
    then have "CHR '']'' \<in> set b" by (metis last_in_set)
    moreover have "\<not> is_ascii_digit (CHR '']'')" by (simp add: is_ascii_digit_def byte_of_def)
    ultimately have "\<not> list_all is_ascii_digit b" unfolding list_all_iff by blast
    then have no_port: "parse_authority_port (ascii_lower b) = None"
      unfolding parse_authority_port_lower by (simp add: parse_authority_port_def)
    have "strip_dot a = a"
    proof (rule ccontr)
      assume "strip_dot a \<noteq> a"
      then have "a \<noteq> []" "last a = CHR ''.''" by (auto simp: strip_dot_cases split: if_splits)
      then have "butlast a @ ''.'' = a" using append_butlast_last_id by metis
      then have "trim h = (butlast a @ ''.'') @ CHR '':'' # b" using th by simp
      then have "trim h = butlast a @ ''.:'' @ b" by simp
      then show False using find_str_None [OF dot] by blast
    qed
    moreover have "to_ascii_lowercase (CHR '':'') = CHR '':''" by (simp add: lower_punctuation)
    ultimately have "strip_dot (ascii_lower a) @ '':'' @ ascii_lower b = ascii_lower (trim h)"
      by (simp add: strip_dot_lower th)
    then show ?thesis
      unfolding normalize_request_match_host_pattern_def Let_def rsplit_lower [OF Some [unfolded split]] option.case
        prod.case no_port stays by simp
  qed
qed

lemma bracketed_port_mirrors:
  assumes th: "trim h = inside @ '']:'' @ port_str" and open_bracket: "hd (trim h) = CHR ''[''"
    and port: "parse_authority_port port_str = Some port"
  shows "normalize_request_match_host_pattern h = with_port (ascii_lower (inside @ '']'')) port"
proof -
  have "rsplit_once (CHR '':'') (trim h) = Some (inside @ '']'', port_str)"
    using th port_has_no_colon [OF port] by (simp add: rsplit_once_Some)
  then have split: "rsplit_once (CHR '':'') (ascii_lower (trim h)) = Some (ascii_lower (inside @ '']''), ascii_lower port_str)"
    by (rule rsplit_lower)
  have "inside \<noteq> [] \<and> hd inside = CHR ''[''" using th open_bracket by (cases inside) auto
  then have brackets: "starts_with ''['' (ascii_lower (inside @ '']''))" "ends_with '']'' (ascii_lower (inside @ '']''))"
    by (simp_all add: starts_bracket ends_bracket hd_map lower_punctuation hd_append)
  have stays: "strip_dot (ascii_lower (inside @ '']'')) = ascii_lower (inside @ '']'')"
    unfolding bracket_lower bracket_stays ..
  show ?thesis
    unfolding normalize_request_match_host_pattern_def Let_def split option.case prod.case stays
      parse_authority_port_lower port using brackets by (simp only: simp_thms if_True)
qed

lemma bracketed_host_parts:
  assumes "normalize_bracketed_host s = Some host"
  obtains inside suffix where "s = inside @ CHR '']'' # suffix"
    "suffix = [] \<and> authority host = ascii_lower (inside @ '']'')
     \<or> (\<exists>port_str port. suffix = CHR '':'' # port_str \<and> parse_authority_port port_str = Some port
          \<and> authority host = with_port (ascii_lower (inside @ '']'')) port)"
proof (cases "split_once (CHR '']'') s")
  case None
  then show ?thesis using assms by (simp add: normalize_bracketed_host_def)
next
  case (Some split)
  obtain inside suffix where split: "split = (inside, suffix)" by (cases split)
  have s: "s = inside @ CHR '']'' # suffix" using Some split split_once_Some by simp
  show ?thesis
  proof (cases "suffix = []")
    case True
    then show ?thesis using assms Some split by (intro that [OF s]) (auto simp: normalize_bracketed_host_def Let_def)
  next
    case False
    then show ?thesis using assms Some split
      by (intro that [OF s])
        (auto simp: normalize_bracketed_host_def strip_str_prefix_def starts_with_iff Let_def split: if_splits)
  qed
qed

text \<open>
  C36. A host pattern is normalised at load the way the host of a request is normalised on arrival:
  a text accepted as a request authority becomes, as a pattern, that same authority. So a pattern
  spelt like the host of a request, with whatever case, trailing dot or leading zeroes in the port,
  matches that request. (A bracketed literal with a dot right before a colon, which no address has,
  is left out.)
\<close>

theorem host_pattern_mirrors_request:
  assumes "normalize_match_host h = Some host" "starts_with ''['' (trim h) \<Longrightarrow> find_str ''.:'' (trim h) = None"
  shows "normalize_request_match_host_pattern h = authority host
         \<and> normalized_host_matches (normalize_request_match_host_pattern h) host"
proof -
  have "trim h \<noteq> []" using assms(1) by (auto simp: normalize_match_host_def)
  have mirror: "normalize_request_match_host_pattern h = authority host"
  proof (cases "starts_with ''['' (trim h)")
    case False
    then show ?thesis using plain_host_mirrors assms(1) \<open>trim h \<noteq> []\<close> by blast
  next
    case True
    then have "normalize_bracketed_host (trim h) = Some host"
      using assms(1) by (auto simp: normalize_match_host_def Let_def split: if_splits)
    then obtain inside suffix where split: "trim h = inside @ CHR '']'' # suffix"
      and made: "suffix = [] \<and> authority host = ascii_lower (inside @ '']'')
        \<or> (\<exists>port_str port. suffix = CHR '':'' # port_str \<and> parse_authority_port port_str = Some port
             \<and> authority host = with_port (ascii_lower (inside @ '']'')) port)"
      by (rule bracketed_host_parts)
    then show ?thesis
      using bracketed_literal_mirrors [of h inside] bracketed_port_mirrors [of h inside] assms(2) True
      by (auto simp: starts_bracket)
  qed
  then show ?thesis by (simp add: normalized_host_matches_def wildcard_matcher_glob glob_refl)
qed

theorem host_pattern_mirrors_request_witness:
  "normalize_request_match_host_pattern ''Shop.Example.:080'' = ''shop.example:80''
   \<and> normalize_request_match_host_pattern ''[2001:DB8::1]:443'' = ''[2001:db8::1]:443''"
proof -
  let ?one = "\<lparr>host_name = ''shop.example'', authority = ''shop.example:80''\<rparr>"
  let ?two = "\<lparr>host_name = ''[2001:db8::1]'', authority = ''[2001:db8::1]:443''\<rparr>"
  have trims: "trim ''Shop.Example.:080'' = ''Shop.Example.:080''" "trim ''[2001:DB8::1]:443'' = ''[2001:DB8::1]:443''"
    by (rule trim_stays; simp add: byte_of_def)+
  have digits: "parse_authority_port ''080'' = Some 80" "parse_authority_port ''443'' = Some 443"
    by (simp_all add: parse_authority_port_def parse_uint_def is_ascii_digit_def byte_of_def dec_value_def digit_value_def)
  have texts: "rsplit_once (CHR '':'') ''Shop.Example.:080'' = Some (''Shop.Example.'', ''080'')"
    "normalize_hostname ''Shop.Example.'' = Some ''shop.example''"
    "split_once (CHR '']'') ''[2001:DB8::1]:443'' = Some (''[2001:DB8::1'', '':443'')"
    "ascii_lower ''[2001:DB8::1]'' = ''[2001:db8::1]''" "strip_str_prefix '':'' '':443'' = Some ''443''"
    "dec 80 = ''80''" "dec 443 = ''443''"
    "find_str ''.:'' ''[2001:DB8::1]:443'' = None" by code_simp+
  have "normalize_match_host ''Shop.Example.:080'' = Some ?one"
    unfolding normalize_match_host_def trims Let_def texts by (simp add: digits texts starts_bracket with_port_def)
  moreover have "normalize_bracketed_host ''[2001:DB8::1]:443'' = Some ?two"
    unfolding normalize_bracketed_host_def texts by (simp add: digits texts [simplified] with_port_def)
  then have "normalize_match_host ''[2001:DB8::1]:443'' = Some ?two"
    unfolding normalize_match_host_def trims Let_def by (simp add: starts_bracket)
  moreover have "\<not> starts_with ''['' (trim ''Shop.Example.:080'')" "find_str ''.:'' (trim ''[2001:DB8::1]:443'') = None"
    unfolding trims using texts(8) by (simp_all add: starts_bracket)
  ultimately show ?thesis
    using host_pattern_mirrors_request [of "''Shop.Example.:080''" ?one]
      host_pattern_mirrors_request [of "''[2001:DB8::1]:443''" ?two] by simp
qed

end
