(* ===== verification/Mesh_Policy.thy ===== *)
theory Mesh_Policy
  imports Spiffe_Id Port_Pattern Mesh_Host Cidr
begin

text \<open>
  The rules of mesh authorization and their matchers: the configuration types of
  \<^verbatim>\<open>src/src/modes/mesh/config.rs\<close> and the matching functions of \<^verbatim>\<open>src/src/modes/mesh/policy.rs\<close>, up to
  \<open>rule_matches\<close>. String-keyed maps are association lists.
\<close>

section \<open>Requests\<close>

datatype MeshAuthzProtocol = Http | L4

datatype MeshAuthzAttribute = Scalar string | StringList "string list"

record MeshAuthzRequest =
  source_principal :: "SpiffeId option"
  request_principal :: "string option"
  req_method :: "string option"
  req_path :: "string option"
  req_host :: "string option"
  req_port :: "u16 option"
  req_headers :: "(string \<times> string) list"
  attributes :: "(string \<times> MeshAuthzAttribute) list"
  source_ip :: "IpAddr option"
  remote_ip :: "IpAddr option"
  destination_ip :: "IpAddr option"
  protocol :: MeshAuthzProtocol

section \<open>Rules\<close>

datatype PolicyAction = Allow | Deny | Audit | Custom string

record PrincipalMatch =
  spiffe_id_pattern :: "string option"
  namespace_pattern :: "string option"
  match_trust_domain :: "TrustDomain option"
  trust_domain_pattern :: "string option"

record ParsedCidr =
  cidr_network :: IpAddr
  cidr_prefix :: u8

record SourceNegationMatch =
  not_spiffe_id_patterns :: "string list"
  not_namespace_patterns :: "string list"
  not_trust_domain_patterns :: "string list"
  ip_blocks :: "ParsedCidr list"
  not_ip_blocks :: "ParsedCidr list"
  remote_ip_blocks :: "ParsedCidr list"
  not_remote_ip_blocks :: "ParsedCidr list"

record RequestMatch =
  methods :: "string list"
  paths :: "string list"
  hosts :: "string list"
  headers :: "(string \<times> string) list"
  ports :: "u16 list"
  port_patterns :: "string list"
  not_methods :: "string list"
  not_paths :: "string list"
  not_hosts :: "string list"
  not_ports :: "u16 list"
  not_port_patterns :: "string list"

record ConditionMatch =
  condition_key :: string
  condition_values :: "string list"
  not_values :: "string list"

record MeshRule =
  rule_from :: "PrincipalMatch list"
  rule_to :: "RequestMatch list"
  rule_when :: "ConditionMatch list"
  request_principals :: "string list"
  not_request_principals :: "string list"
  source_negation :: SourceNegationMatch
  never_matches :: bool
  action :: PolicyAction

record MeshPolicy =
  policy_name :: string
  policy_namespace :: string
  policy_rules :: "MeshRule list"

section \<open>Address blocks\<close>

definition quoted :: "string \<Rightarrow> string" where
  "quoted s = CHR 0x27 # s @ [CHR 0x27]"

definition canonicalize :: "IpAddr \<Rightarrow> u8 option \<Rightarrow> string + (IpAddr \<times> u8)" where
  "canonicalize ip plen =
     (case ip of
        V4 v4 \<Rightarrow> Inr (V4 v4, case plen of Some p \<Rightarrow> p | None \<Rightarrow> 32)
      | V6 v6 \<Rightarrow>
          (case to_ipv4_mapped v6 of
             Some v4 \<Rightarrow>
               (case plen of
                  Some p \<Rightarrow>
                    if 96 \<le> p then Inr (V4 v4, p - 96)
                    else Inl (''IPv4-mapped IPv6 CIDR prefix '' @ dec (unat p) @ '' must be at least 96'')
                | None \<Rightarrow> Inr (V4 v4, 32))
           | None \<Rightarrow> Inr (V6 v6, case plen of Some p \<Rightarrow> p | None \<Rightarrow> 128)))"

definition parse_cidr :: "string \<Rightarrow> string + ParsedCidr" where
  "parse_cidr s =
     (let trimmed = trim s in
      if trimmed = [] then Inl ''IP block must not be empty''
      else
        (let parts =
           (case split_once (CHR ''/'') trimmed of
              Some (net, plen) \<Rightarrow> map_option (\<lambda>p. (net, Some (of_nat p :: u8))) (parse_uint 255 plen)
            | None \<Rightarrow> Some (trimmed, None))
         in case parts of
              None \<Rightarrow> Inl (''invalid prefix length in CIDR '' @ quoted s)
            | Some (network_str, plen) \<Rightarrow>
                (case parse_ip network_str of
                   None \<Rightarrow> Inl (''invalid IP in CIDR '' @ quoted s)
                 | Some ip \<Rightarrow>
                     (case canonicalize ip plen of
                        Inl reason \<Rightarrow> Inl (reason @ '' in CIDR '' @ quoted s)
                      | Inr (net, p) \<Rightarrow>
                          (let max_len = (case net of V4 _ \<Rightarrow> 32 | V6 _ \<Rightarrow> 128) in
                           if max_len < p
                           then Inl (''prefix length '' @ dec (unat p) @ '' out of range in CIDR '' @ quoted s)
                           else Inr \<lparr>cidr_network = net, cidr_prefix = p\<rparr>)))))"

definition canonicalize_ip_block :: "IpAddr \<Rightarrow> IpAddr" where
  "canonicalize_ip_block ip =
     (case ip of
        V6 v6 \<Rightarrow> (case to_ipv4_mapped v6 of Some v4 \<Rightarrow> V4 v4 | None \<Rightarrow> V6 v6)
      | other \<Rightarrow> other)"

text \<open>A parsed prefix is in range, so the shift distance never underflows.\<close>

definition cidr_block_contains :: "ParsedCidr \<Rightarrow> IpAddr \<Rightarrow> bool" where
  "cidr_block_contains cidr ip =
     (case (cidr_network cidr, canonicalize_ip_block ip) of
        (V4 net, V4 addr) \<Rightarrow>
          if cidr_prefix cidr = 0 then True
          else (let mask = high_mask (32 - unat (cidr_prefix cidr)) in net AND mask = addr AND mask)
      | (V6 net, V6 addr) \<Rightarrow>
          if cidr_prefix cidr = 0 then True
          else (let mask = high_mask (128 - unat (cidr_prefix cidr)) in net AND mask = addr AND mask)
      | _ \<Rightarrow> False)"

text \<open>The textual form used by \<open>when\<close> conditions.\<close>

definition canonicalize_cidr_network_for_match :: "IpAddr \<Rightarrow> u8 option \<Rightarrow> (IpAddr \<times> u8) option" where
  "canonicalize_cidr_network_for_match net plen =
     (case net of
        V4 v4 \<Rightarrow> Some (V4 v4, case plen of Some p \<Rightarrow> p | None \<Rightarrow> 32)
      | V6 v6 \<Rightarrow>
          (case to_ipv4_mapped v6 of
             Some v4 \<Rightarrow>
               (case plen of
                  Some p \<Rightarrow> if 96 \<le> p then Some (V4 v4, p - 96) else None
                | None \<Rightarrow> Some (V4 v4, 32))
           | None \<Rightarrow> Some (V6 v6, case plen of Some p \<Rightarrow> p | None \<Rightarrow> 128)))"

definition canonicalize_ip_for_match :: "IpAddr \<Rightarrow> IpAddr" where
  "canonicalize_ip_for_match ip = canonical_ip ip"

definition matches_prefix_u32 :: "u32 \<Rightarrow> u32 \<Rightarrow> u8 \<Rightarrow> bool" where
  "matches_prefix_u32 net addr plen =
     (if plen = 0 then True else (let mask = high_mask (32 - unat plen) in net AND mask = addr AND mask))"

definition matches_prefix_u128 :: "u128 \<Rightarrow> u128 \<Rightarrow> u8 \<Rightarrow> bool" where
  "matches_prefix_u128 net addr plen =
     (if plen = 0 then True else (let mask = high_mask (128 - unat plen) in net AND mask = addr AND mask))"

definition cidr_contains :: "string \<Rightarrow> IpAddr \<Rightarrow> bool" where
  "cidr_contains text ip =
     (let cidr = trim text in
      if cidr = [] then False
      else
        (let ip = canonicalize_ip_for_match ip;
             parts =
               (case split_once (CHR ''/'') cidr of
                  Some (net, prefix_str) \<Rightarrow> map_option (\<lambda>p. (net, Some (of_nat p :: u8))) (parse_uint 255 prefix_str)
                | None \<Rightarrow> Some (cidr, None))
         in case parts of
              None \<Rightarrow> False
            | Some (network_str, plen) \<Rightarrow>
                (case parse_ip network_str of
                   None \<Rightarrow> False
                 | Some net \<Rightarrow>
                     (case canonicalize_cidr_network_for_match net plen of
                        None \<Rightarrow> False
                      | Some (net, p) \<Rightarrow>
                          (case (net, ip) of
                             (V4 net, V4 addr) \<Rightarrow> if 32 < p then False else matches_prefix_u32 net addr p
                           | (V6 net, V6 addr) \<Rightarrow> if 128 < p then False else matches_prefix_u128 net addr p
                           | _ \<Rightarrow> False)))))"

section \<open>Principals\<close>

definition extract_namespace :: "string \<Rightarrow> string option" where
  "extract_namespace spiffe_id = segment_after ''ns'' (split_on (CHR ''/'') spiffe_id)"

definition istio_source_principal :: "SpiffeId \<Rightarrow> string" where
  "istio_source_principal source =
     (case strip_str_prefix ''spiffe://'' (uri source) of Some s \<Rightarrow> s | None \<Rightarrow> uri source)"

definition source_principal_pattern_matches :: "string \<Rightarrow> SpiffeId \<Rightarrow> bool" where
  "source_principal_pattern_matches pattern source \<longleftrightarrow>
     wildcard_match pattern (uri source) \<or> wildcard_match pattern (istio_source_principal source)"

text \<open>\<open>Option::is_some_and\<close>, and a check that only a configured field makes.\<close>

definition is_some_and :: "'a option \<Rightarrow> ('a \<Rightarrow> bool) \<Rightarrow> bool" where
  "is_some_and x f = (case x of None \<Rightarrow> False | Some v \<Rightarrow> f v)"

definition if_set :: "'a option \<Rightarrow> ('a \<Rightarrow> bool) \<Rightarrow> bool" where
  "if_set x f = (case x of None \<Rightarrow> True | Some v \<Rightarrow> f v)"

definition principal_match :: "PrincipalMatch \<Rightarrow> SpiffeId option \<Rightarrow> bool" where
  "principal_match m source =
     (case source of
        None \<Rightarrow> False
      | Some source \<Rightarrow>
          if_set (match_trust_domain m) (\<lambda>td. trust_domain source = td)
          \<and> if_set (trust_domain_pattern m) (\<lambda>pattern. wildcard_match pattern (trust_domain source))
          \<and> if_set (spiffe_id_pattern m) (\<lambda>pattern. source_principal_pattern_matches pattern source)
          \<and> if_set (namespace_pattern m)
              (\<lambda>pattern. is_some_and (extract_namespace (uri source)) (\<lambda>ns. wildcard_match pattern ns)))"

definition matches_principals :: "PrincipalMatch list \<Rightarrow> MeshAuthzRequest \<Rightarrow> bool" where
  "matches_principals ms request \<longleftrightarrow>
     ms = [] \<or> list_ex (\<lambda>m. principal_match m (source_principal request)) ms"

definition deny_missing_http_attribute_matches :: "PolicyAction \<Rightarrow> bool" where
  "deny_missing_http_attribute_matches a = (case a of Deny \<Rightarrow> True | Custom _ \<Rightarrow> True | _ \<Rightarrow> False)"

definition matches_request_principals :: "string list \<Rightarrow> MeshAuthzRequest \<Rightarrow> PolicyAction \<Rightarrow> bool" where
  "matches_request_principals patterns request a =
     (if patterns = [] then True
      else if protocol request \<noteq> Http then deny_missing_http_attribute_matches a
      else is_some_and (request_principal request)
             (\<lambda>claimed. list_ex (\<lambda>pattern. wildcard_match pattern claimed) patterns))"

definition matches_not_request_principals :: "string list \<Rightarrow> MeshAuthzRequest \<Rightarrow> PolicyAction \<Rightarrow> bool" where
  "matches_not_request_principals patterns request a =
     (if patterns = [] then True
      else if protocol request \<noteq> Http then deny_missing_http_attribute_matches a
      else case request_principal request of
             None \<Rightarrow> True
           | Some claimed \<Rightarrow> \<not> list_ex (\<lambda>pattern. wildcard_match pattern claimed) patterns)"

definition negation_is_empty :: "SourceNegationMatch \<Rightarrow> bool" where
  "negation_is_empty neg \<longleftrightarrow>
     not_spiffe_id_patterns neg = [] \<and> not_namespace_patterns neg = [] \<and> not_trust_domain_patterns neg = []
     \<and> ip_blocks neg = [] \<and> not_ip_blocks neg = [] \<and> remote_ip_blocks neg = [] \<and> not_remote_ip_blocks neg = []"

definition source_excluded :: "SourceNegationMatch \<Rightarrow> SpiffeId \<Rightarrow> bool" where
  "source_excluded neg source \<longleftrightarrow>
     list_ex (\<lambda>pattern. source_principal_pattern_matches pattern source) (not_spiffe_id_patterns neg)
     \<or> (not_namespace_patterns neg \<noteq> []
        \<and> is_some_and (extract_namespace (uri source))
            (\<lambda>ns. list_ex (\<lambda>pattern. wildcard_match pattern ns) (not_namespace_patterns neg)))
     \<or> list_ex (\<lambda>pattern. wildcard_match pattern (trust_domain source)) (not_trust_domain_patterns neg)"

definition in_blocks :: "ParsedCidr list \<Rightarrow> IpAddr \<Rightarrow> bool" where
  "in_blocks blocks ip = list_ex (\<lambda>cidr. cidr_block_contains cidr ip) blocks"

definition matches_source_negation :: "SourceNegationMatch \<Rightarrow> MeshAuthzRequest \<Rightarrow> bool" where
  "matches_source_negation neg request =
     (if negation_is_empty neg then True
      else if is_some_and (source_principal request) (source_excluded neg) then False
      else if ip_blocks neg \<noteq> [] \<and> \<not> is_some_and (source_ip request) (in_blocks (ip_blocks neg)) then False
      else if not_ip_blocks neg \<noteq> []
              \<and> \<not> is_some_and (source_ip request) (\<lambda>ip. \<not> in_blocks (not_ip_blocks neg) ip) then False
      else if remote_ip_blocks neg \<noteq> []
              \<and> \<not> is_some_and (remote_ip request) (in_blocks (remote_ip_blocks neg)) then False
      else if not_remote_ip_blocks neg \<noteq> []
              \<and> \<not> is_some_and (remote_ip request) (\<lambda>ip. \<not> in_blocks (not_remote_ip_blocks neg) ip) then False
      else True)"

section \<open>Operations\<close>

definition request_header_value :: "(string \<times> string) list \<Rightarrow> string \<Rightarrow> string option" where
  "request_header_value hs name =
     (case map_of hs name of
        Some v \<Rightarrow> Some v
      | None \<Rightarrow>
          if list_ex (\<lambda>c. 65 \<le> byte_of c \<and> byte_of c \<le> 90) name then map_of hs (ascii_lower name) else None)"

text \<open>
  The two shapes of an attribute check: a positive list that some entry must match and a negative
  list that none may match. On a missing attribute both resolve by the action of the rule.
\<close>

definition positive_ok :: "PolicyAction \<Rightarrow> ('p \<Rightarrow> 'v \<Rightarrow> bool) \<Rightarrow> 'p list \<Rightarrow> 'v option \<Rightarrow> bool" where
  "positive_ok a m patterns v =
     (patterns = [] \<or> (case v of
        Some v \<Rightarrow> list_ex (\<lambda>pattern. m pattern v) patterns
      | None \<Rightarrow> deny_missing_http_attribute_matches a))"

definition negative_ok :: "PolicyAction \<Rightarrow> ('p \<Rightarrow> 'v \<Rightarrow> bool) \<Rightarrow> 'p list \<Rightarrow> 'v option \<Rightarrow> bool" where
  "negative_ok a m patterns v =
     (patterns = [] \<or> (case v of
        Some v \<Rightarrow> \<not> list_ex (\<lambda>pattern. m pattern v) patterns
      | None \<Rightarrow> deny_missing_http_attribute_matches a))"

definition port_listed :: "u16 list \<Rightarrow> string list \<Rightarrow> u16 \<Rightarrow> bool" where
  "port_listed listed patterns port \<longleftrightarrow>
     port \<in> set listed \<or> list_ex (\<lambda>pattern. port_pattern_matches pattern port) patterns"

definition header_ok :: "PolicyAction \<Rightarrow> MeshAuthzRequest \<Rightarrow> string \<times> string \<Rightarrow> bool" where
  "header_ok a request h =
     (case request_header_value (req_headers request) (fst h) of
        Some v \<Rightarrow> wildcard_match (snd h) v
      | None \<Rightarrow> deny_missing_http_attribute_matches a)"

definition request_match :: "RequestMatch \<Rightarrow> MeshAuthzRequest \<Rightarrow> PolicyAction \<Rightarrow> NormalizedHost option \<Rightarrow> bool" where
  "request_match m request a normalized_host =
     (if \<not> positive_ok a eq_ignore_ascii_case (methods m) (req_method request) then False
      else if \<not> negative_ok a eq_ignore_ascii_case (not_methods m) (req_method request) then False
      else if \<not> positive_ok a wildcard_match (paths m) (req_path request) then False
      else if \<not> negative_ok a wildcard_match (not_paths m) (req_path request) then False
      else if \<not> positive_ok a normalized_host_matches (hosts m) normalized_host then False
      else if \<not> negative_ok a normalized_host_matches (not_hosts m) normalized_host then False
      else if (ports m \<noteq> [] \<or> port_patterns m \<noteq> [])
              \<and> \<not> is_some_and (req_port request) (port_listed (ports m) (port_patterns m)) then False
      else if (not_ports m \<noteq> [] \<or> not_port_patterns m \<noteq> [])
              \<and> \<not> is_some_and (req_port request) (\<lambda>port. \<not> port_listed (not_ports m) (not_port_patterns m) port)
      then False
      else list_all (header_ok a request) (headers m))"

definition matches_requests :: "RequestMatch list \<Rightarrow> MeshAuthzRequest \<Rightarrow> PolicyAction \<Rightarrow> NormalizedHost option \<Rightarrow> bool" where
  "matches_requests ms request a normalized_host \<longleftrightarrow>
     ms = [] \<or> list_ex (\<lambda>m. request_match m request a normalized_host) ms"

section \<open>Conditions\<close>

datatype MeshConditionKeyKind =
  SourcePrincipal | SourceNamespace | SourceServiceAccount | SourceTrustDomain | SourceIp | RemoteIp
| DestinationIp | DestinationPort | ConnectionSni | RequestAuthPrincipal | RequestAuthPresenter
| RequestAuthAudiences | RequestAuthClaim | RequestHeader | ExperimentalEnvoyFilter

definition is_ip_valued :: "MeshConditionKeyKind \<Rightarrow> bool" where
  "is_ip_valued kind \<longleftrightarrow> kind \<in> {SourceIp, RemoteIp, DestinationIp}"

definition bracketed :: "string \<Rightarrow> string \<Rightarrow> string option" where
  "bracketed prefix key =
     (case strip_str_prefix prefix key of
        None \<Rightarrow> None
      | Some rest \<Rightarrow>
          (case strip_str_suffix '']'' rest of
             None \<Rightarrow> None
           | Some name \<Rightarrow> if name \<noteq> [] then Some name else None))"

definition bracketed_mesh_header_name :: "string \<Rightarrow> string option" where
  "bracketed_mesh_header_name key = bracketed ''request.headers['' key"

definition bracketed_mesh_claim_path :: "string \<Rightarrow> string option" where
  "bracketed_mesh_claim_path key = bracketed ''request.auth.claims['' key"

definition experimental_envoy_filter_metadata_key :: "string \<Rightarrow> (string \<times> string) option" where
  "experimental_envoy_filter_metadata_key key =
     (case strip_str_prefix ''experimental.envoy.filters.'' key of
        None \<Rightarrow> None
      | Some rest \<Rightarrow>
          (case split_once (CHR ''['') rest of
             None \<Rightarrow> None
           | Some (filter_name, metadata) \<Rightarrow>
               (case strip_str_suffix '']'' metadata of
                  None \<Rightarrow> None
                | Some metadata \<Rightarrow>
                    if filter_name = [] \<or> metadata = [] then None else Some (filter_name, metadata))))"

definition fixed_condition_keys :: "(string \<times> MeshConditionKeyKind) list" where
  "fixed_condition_keys =
     [(''source.principal'', SourcePrincipal), (''source.namespace'', SourceNamespace),
      (''source.serviceAccount'', SourceServiceAccount), (''source.trustDomain'', SourceTrustDomain),
      (''source.ip'', SourceIp), (''remote.ip'', RemoteIp), (''destination.ip'', DestinationIp),
      (''destination.port'', DestinationPort), (''connection.sni'', ConnectionSni),
      (''request.auth.principal'', RequestAuthPrincipal), (''request.auth.presenter'', RequestAuthPresenter),
      (''request.auth.audiences'', RequestAuthAudiences)]"

definition classify_mesh_condition_key :: "string \<Rightarrow> MeshConditionKeyKind option" where
  "classify_mesh_condition_key key =
     (case map_of fixed_condition_keys key of
        Some kind \<Rightarrow> Some kind
      | None \<Rightarrow>
          if bracketed_mesh_header_name key \<noteq> None then Some RequestHeader
          else if bracketed_mesh_claim_path key \<noteq> None then Some RequestAuthClaim
          else if experimental_envoy_filter_metadata_key key \<noteq> None then Some ExperimentalEnvoyFilter
          else None)"

definition istio_condition_string_match :: "string \<Rightarrow> string \<Rightarrow> bool" where
  "istio_condition_string_match pattern v =
     (if pattern = ''*'' then v \<noteq> []
      else case strip_str_prefix ''*'' pattern of
             Some suffix \<Rightarrow> ends_with suffix v
           | None \<Rightarrow>
               (case strip_str_suffix ''*'' pattern of
                  Some prefix \<Rightarrow> starts_with prefix v
                | None \<Rightarrow> pattern = v))"

definition istio_service_account_match :: "string \<Rightarrow> string \<Rightarrow> string \<Rightarrow> bool" where
  "istio_service_account_match candidate v ns =
     (if CHR ''/'' \<in> set candidate then candidate = v
      else case split_once (CHR ''/'') v of
             None \<Rightarrow> False
           | Some (attr_namespace, account) \<Rightarrow> attr_namespace = ns \<and> account = candidate)"

definition condition_scalar_value_matches :: "MeshConditionKeyKind \<Rightarrow> string \<Rightarrow> string \<Rightarrow> string \<Rightarrow> bool" where
  "condition_scalar_value_matches kind ns candidate v =
     (if is_ip_valued kind then is_some_and (parse_ip v) (cidr_contains candidate)
      else case kind of
             SourceServiceAccount \<Rightarrow> istio_service_account_match candidate v ns
           | SourceNamespace \<Rightarrow> wildcard_match candidate v
           | _ \<Rightarrow> istio_condition_string_match candidate v)"

definition condition_value_matches :: "MeshConditionKeyKind \<Rightarrow> string \<Rightarrow> string \<Rightarrow> MeshAuthzAttribute \<Rightarrow> bool" where
  "condition_value_matches kind ns candidate v =
     (case v of
        Scalar v \<Rightarrow> condition_scalar_value_matches kind ns candidate v
      | StringList vs \<Rightarrow> list_ex (condition_scalar_value_matches kind ns candidate) vs)"

definition condition_kind_is_sourceable :: "MeshConditionKeyKind \<Rightarrow> MeshAuthzRequest \<Rightarrow> bool" where
  "condition_kind_is_sourceable kind request =
     (case kind of
        ExperimentalEnvoyFilter \<Rightarrow> False
      | RequestHeader \<Rightarrow> protocol request = Http
      | RequestAuthPrincipal \<Rightarrow> protocol request = Http
      | RequestAuthPresenter \<Rightarrow> protocol request = Http
      | RequestAuthAudiences \<Rightarrow> protocol request = Http
      | RequestAuthClaim \<Rightarrow> protocol request = Http
      | SourceIp \<Rightarrow> source_ip request \<noteq> None
      | RemoteIp \<Rightarrow> remote_ip request \<noteq> None
      | DestinationIp \<Rightarrow> destination_ip request \<noteq> None
      | DestinationPort \<Rightarrow> req_port request \<noteq> None
      | _ \<Rightarrow> True)"

definition condition_matches :: "ConditionMatch \<Rightarrow> MeshAuthzRequest \<Rightarrow> PolicyAction \<Rightarrow> string \<Rightarrow> bool" where
  "condition_matches m request a ns =
     (if condition_values m = [] \<and> not_values m = [] then False
      else case classify_mesh_condition_key (condition_key m) of
             None \<Rightarrow> deny_missing_http_attribute_matches a
           | Some kind \<Rightarrow>
               if \<not> condition_kind_is_sourceable kind request then deny_missing_http_attribute_matches a
               else
                 (let v = map_of (attributes request) (condition_key m);
                      hit = (\<lambda>candidates. is_some_and v (\<lambda>v. list_ex (\<lambda>c. condition_value_matches kind ns c v) candidates))
                  in if condition_values m \<noteq> [] \<and> \<not> hit (condition_values m) then False
                     else if not_values m \<noteq> [] \<and> hit (not_values m) then False
                     else True))"

definition matches_conditions :: "ConditionMatch list \<Rightarrow> MeshAuthzRequest \<Rightarrow> PolicyAction \<Rightarrow> string \<Rightarrow> bool" where
  "matches_conditions ms request a ns = list_all (\<lambda>m. condition_matches m request a ns) ms"

section \<open>Rules\<close>

definition rule_matches :: "MeshRule \<Rightarrow> MeshAuthzRequest \<Rightarrow> NormalizedHost option \<Rightarrow> string \<Rightarrow> bool" where
  "rule_matches rule request normalized_host ns =
     (if never_matches rule then False
      else matches_principals (rule_from rule) request
        \<and> matches_request_principals (request_principals rule) request (action rule)
        \<and> matches_not_request_principals (not_request_principals rule) request (action rule)
        \<and> matches_source_negation (source_negation rule) request
        \<and> matches_requests (rule_to rule) request (action rule) normalized_host
        \<and> matches_conditions (rule_when rule) request (action rule) ns)"

section \<open>One meaning of an address block\<close>

lemma canonicalize_for_match:
  "canonicalize_cidr_network_for_match ip plen = (case canonicalize ip plen of Inl _ \<Rightarrow> None | Inr c \<Rightarrow> Some c)"
  by (auto simp: canonicalize_cidr_network_for_match_def canonicalize_def split: IpAddr.split option.split)

lemma canonical_ip_block: "canonicalize_ip_for_match ip = canonicalize_ip_block ip"
  by (auto simp: canonicalize_ip_for_match_def canonical_ip_def to_canonical_def canonicalize_ip_block_def split: IpAddr.split option.split)

text \<open>
  The two readers of an address block agree. A block given to a \<open>when\<close> condition is read from its
  text on every request, one given to a source rule is parsed once at load; for every text and every
  address the first answers what the second would, and a text that does not parse contains nothing.
\<close>

theorem cidr_readers_agree:
  "cidr_contains text ip =
     (case parse_cidr text of Inl _ \<Rightarrow> False | Inr block \<Rightarrow> cidr_block_contains block ip)"
proof -
  define parts :: "(string \<times> u8 option) option" where
    "parts = (case split_once (CHR ''/'') (trim text) of
       Some (net, plen) \<Rightarrow> map_option (\<lambda>p. (net, Some (of_nat p))) (parse_uint 255 plen)
     | None \<Rightarrow> Some (trim text, None))"
  show ?thesis
    unfolding cidr_contains_def parse_cidr_def Let_def [of "trim text"] parts_def [symmetric] Let_def [of parts]
      canonicalize_for_match canonical_ip_block Let_def [of "canonicalize_ip_block ip"]
    by (simp add: cidr_block_contains_def matches_prefix_u32_def matches_prefix_u128_def
        split: option.split sum.split IpAddr.split)
qed

section \<open>The namespace of a source\<close>

lemma segment_after_skip: "segment \<noteq> marker \<Longrightarrow> segment_after marker (segment # segments) = segment_after marker segments"
  by simp

lemma identity_segments:
  assumes "parse lower u = Inr sid"
  shows "split_on (CHR ''/'') (uri sid) = [''spiffe:'', [], trust_domain sid] @ path_segments sid"
proof -
  from parse_Inr [OF assms] obtain p where u: "uri sid = ''spiffe://'' @ trust_domain sid @ p"
    and td: "CHR ''/'' \<notin> set (trust_domain sid)"
    and p: "p = [] \<and> path sid = [] \<or> p = CHR ''/'' # path sid \<and> valid_path (path sid)" by metis
  have "uri sid = ''spiffe:'' @ CHR ''/'' # [] @ CHR ''/'' # trust_domain sid @ p" using u by simp
  then have "split_on (CHR ''/'') (uri sid) = [''spiffe:'', []] @ split_on (CHR ''/'') (trust_domain sid @ p)"
    using split_on_first [of "CHR ''/''" "''spiffe:''"] split_on_first [of "CHR ''/''" "[]"] by simp
  moreover have "split_on (CHR ''/'') (trust_domain sid @ p) = trust_domain sid # path_segments sid"
    using p td by (auto simp: split_on_no_sep split_on_first path_segments_valid) (simp add: path_segments_def)
  ultimately show ?thesis by simp
qed

text \<open>
  C38. The namespace that authorization reads from the identity of a peer. Outside a trust domain that
  is itself called \<open>ns\<close> it is the namespace of the identity. In a trust domain called \<open>ns\<close> it is
  whatever segment the path starts with, because the scan runs over the whole URI.
\<close>

theorem authorization_namespace:
  assumes "parse lower u = Inr sid"
  shows "extract_namespace (uri sid) =
           (if trust_domain sid = ''ns''
            then (case path_segments sid of [] \<Rightarrow> None | s # _ \<Rightarrow> Some s)
            else namespace sid)"
  by (simp add: extract_namespace_def identity_segments [OF assms] namespace_def)

theorem authorization_namespace_witness:
  "extract_namespace ''spiffe://ns/ns/shop/sa/web'' = Some ''ns''
   \<and> extract_namespace ''spiffe://prod.local/ns/shop/sa/web'' = Some ''shop''"
proof -
  let ?lower = "map to_ascii_lowercase"
  let ?one = "\<lparr>uri = ''spiffe://ns/ns/shop/sa/web'', path_offset = 12, trust_domain = ''ns''\<rparr>"
  let ?two = "\<lparr>uri = ''spiffe://prod.local/ns/shop/sa/web'', path_offset = 20, trust_domain = ''prod.local''\<rparr>"
  have parsed: "parse ?lower ''spiffe://ns/ns/shop/sa/web'' = Inr ?one"
    "parse ?lower ''spiffe://prod.local/ns/shop/sa/web'' = Inr ?two" by code_simp+
  have views: "path_segments ?one = [''ns'', ''shop'', ''sa'', ''web'']" "namespace ?two = Some ''shop''" by code_simp+
  show ?thesis
    using authorization_namespace [OF parsed(1)] authorization_namespace [OF parsed(2)] views by simp
qed

end
