(* ===== verification/Mesh_Authz.thy ===== *)
theory Mesh_Authz
  imports Mesh_Policy
begin

text \<open>
  Mesh authorization (\<^verbatim>\<open>src/src/modes/mesh/policy.rs\<close>): the single pass over the policies, the decision
  it reaches, the early test whether a rule can apply, and what these guarantee. The pass keeps the
  first match of every tier and skips matching where the outcome is settled; the specification is the
  list of all matches.
\<close>

section \<open>The evaluation\<close>

datatype MeshAuthzDecision = DecideAllow | DecideDeny string | DecideAudit string

record MeshAuthzCustomDelegation =
  delegation_policy :: string
  delegation_provider :: string

record MeshAuthzEvaluation =
  custom :: "MeshAuthzCustomDelegation option"
  custom_provider_conflict :: bool
  decision :: MeshAuthzDecision

text \<open>The local variables of the pass.\<close>

record eval_state =
  saw_allow :: bool
  matched_allow :: bool
  matched_audit :: "string option"
  matched_deny :: "string option"
  pending_custom :: "MeshAuthzCustomDelegation option"
  conflict :: bool

definition is_custom :: "PolicyAction \<Rightarrow> bool" where
  "is_custom a = (case a of Custom _ \<Rightarrow> True | _ \<Rightarrow> False)"

definition get_or_insert :: "'a option \<Rightarrow> 'a \<Rightarrow> 'a option" where
  "get_or_insert x v = (case x of Some w \<Rightarrow> Some w | None \<Rightarrow> Some v)"

definition record_custom :: "string \<Rightarrow> string \<Rightarrow> eval_state \<Rightarrow> eval_state" where
  "record_custom name provider st =
     (case pending_custom st of
        Some existing \<Rightarrow>
          if delegation_provider existing = provider then st\<lparr>pending_custom := Some existing\<rparr>
          else st\<lparr>pending_custom := None, conflict := True\<rparr>
      | None \<Rightarrow>
          if conflict st then st
          else st\<lparr>pending_custom := Some \<lparr>delegation_policy = name, delegation_provider = provider\<rparr>\<rparr>)"

definition eval_rule :: "MeshAuthzRequest \<Rightarrow> NormalizedHost option \<Rightarrow> MeshPolicy \<Rightarrow> MeshRule \<Rightarrow> eval_state \<Rightarrow> eval_state" where
  "eval_rule request normalized_host policy rule st =
     (if matched_deny st \<noteq> None \<and> (conflict st \<or> \<not> is_custom (action rule)) then st
      else if \<not> rule_matches rule request normalized_host (policy_namespace policy) then st
      else case action rule of
             Deny \<Rightarrow> st\<lparr>matched_deny := get_or_insert (matched_deny st) (policy_name policy)\<rparr>
           | Allow \<Rightarrow> st\<lparr>saw_allow := True, matched_allow := True\<rparr>
           | Audit \<Rightarrow> st\<lparr>matched_audit := get_or_insert (matched_audit st) (policy_name policy)\<rparr>
           | Custom provider \<Rightarrow> record_custom (policy_name policy) provider st)"

definition eval_policy :: "MeshAuthzRequest \<Rightarrow> NormalizedHost option \<Rightarrow> MeshPolicy \<Rightarrow> eval_state \<Rightarrow> eval_state" where
  "eval_policy request normalized_host policy st =
     (let st = fold (eval_rule request normalized_host policy) (policy_rules policy) st in
      if list_ex (\<lambda>rule. action rule = Allow) (policy_rules policy) then st\<lparr>saw_allow := True\<rparr> else st)"

definition eval_start :: eval_state where
  "eval_start =
     \<lparr>saw_allow = False, matched_allow = False, matched_audit = None, matched_deny = None,
      pending_custom = None, conflict = False\<rparr>"

definition decide :: "eval_state \<Rightarrow> MeshAuthzDecision" where
  "decide st =
     (case matched_deny st of
        Some policy \<Rightarrow> DecideDeny policy
      | None \<Rightarrow>
          if saw_allow st \<and> \<not> matched_allow st then DecideDeny ''implicit-deny''
          else case matched_audit st of Some policy \<Rightarrow> DecideAudit policy | None \<Rightarrow> DecideAllow)"

definition request_host :: "MeshAuthzRequest \<Rightarrow> NormalizedHost option" where
  "request_host request = Option.bind (req_host request) normalize_match_host"

definition evaluate_mesh_authorization_full :: "MeshPolicy list \<Rightarrow> MeshAuthzRequest \<Rightarrow> MeshAuthzEvaluation" where
  "evaluate_mesh_authorization_full policies request =
     (let st = fold (eval_policy request (request_host request)) policies eval_start in
      \<lparr>custom = pending_custom st, custom_provider_conflict = conflict st, decision = decide st\<rparr>)"

definition MESH_AUTHZ_CUSTOM_PROVIDER_CONFLICT :: string where
  "MESH_AUTHZ_CUSTOM_PROVIDER_CONFLICT = ''custom:provider-conflict''"

definition evaluate_mesh_authorization_policies :: "MeshPolicy list \<Rightarrow> MeshAuthzRequest \<Rightarrow> MeshAuthzDecision" where
  "evaluate_mesh_authorization_policies policies request =
     (let evaluation = evaluate_mesh_authorization_full policies request in
      if custom_provider_conflict evaluation then DecideDeny MESH_AUTHZ_CUSTOM_PROVIDER_CONFLICT
      else case custom evaluation of
             Some delegation \<Rightarrow> DecideDeny (''custom:'' @ delegation_policy delegation)
           | None \<Rightarrow> decision evaluation)"

section \<open>The early test\<close>

definition request_scope_method_path_host_may_apply :: "RequestMatch \<Rightarrow> string \<Rightarrow> string \<Rightarrow> NormalizedHost option \<Rightarrow> bool" where
  "request_scope_method_path_host_may_apply m method request_path normalized_host =
     (if methods m \<noteq> [] \<and> \<not> list_ex (\<lambda>allowed. eq_ignore_ascii_case allowed method) (methods m) then False
      else if not_methods m \<noteq> [] \<and> list_ex (\<lambda>denied. eq_ignore_ascii_case denied method) (not_methods m) then False
      else if paths m \<noteq> [] \<and> \<not> list_ex (\<lambda>pattern. wildcard_match pattern request_path) (paths m) then False
      else if not_paths m \<noteq> [] \<and> list_ex (\<lambda>pattern. wildcard_match pattern request_path) (not_paths m) then False
      else if hosts m \<noteq> []
              \<and> (case normalized_host of
                   None \<Rightarrow> False
                 | Some host \<Rightarrow> \<not> list_ex (\<lambda>pattern. normalized_host_matches pattern host) (hosts m)) then False
      else if not_hosts m \<noteq> []
              \<and> is_some_and normalized_host (\<lambda>host. list_ex (\<lambda>pattern. normalized_host_matches pattern host) (not_hosts m))
      then False
      else True)"

definition mesh_rule_request_scope_may_apply :: "MeshRule \<Rightarrow> string \<Rightarrow> string \<Rightarrow> string option \<Rightarrow> bool" where
  "mesh_rule_request_scope_may_apply rule method request_path host =
     (if rule_to rule = [] then True
      else
        (let needs_host = list_ex (\<lambda>m. hosts m \<noteq> [] \<or> not_hosts m \<noteq> []) (rule_to rule);
             normalized_host = (if needs_host then Option.bind host normalize_match_host else None)
         in list_ex (\<lambda>m. request_scope_method_path_host_may_apply m method request_path normalized_host) (rule_to rule)))"

section \<open>Specification: the list of matches\<close>

type_synonym hit = "string \<times> PolicyAction"

definition policy_hits :: "MeshAuthzRequest \<Rightarrow> MeshPolicy \<Rightarrow> hit list" where
  "policy_hits request policy =
     map (\<lambda>rule. (policy_name policy, action rule))
       (filter (\<lambda>rule. rule_matches rule request (request_host request) (policy_namespace policy)) (policy_rules policy))"

definition hits :: "MeshAuthzRequest \<Rightarrow> MeshPolicy list \<Rightarrow> hit list" where
  "hits request policies = concat (map (policy_hits request) policies)"

definition named :: "PolicyAction \<Rightarrow> hit list \<Rightarrow> string list" where
  "named a ms = map fst (filter (\<lambda>m. snd m = a) ms)"

fun delegations :: "hit list \<Rightarrow> (string \<times> string) list" where
  "delegations [] = []"
| "delegations ((name, Custom provider) # ms) = (name, provider) # delegations ms"
| "delegations (_ # ms) = delegations ms"

definition one_provider :: "(string \<times> string) list \<Rightarrow> bool" where
  "one_provider cs \<longleftrightarrow> (\<forall>c \<in> set cs. snd c = snd (hd cs))"

definition grants_exist :: "MeshPolicy list \<Rightarrow> bool" where
  "grants_exist policies \<longleftrightarrow> (\<exists>policy \<in> set policies. \<exists>rule \<in> set (policy_rules policy). action rule = Allow)"

definition delegation_of :: "(string \<times> string) list \<Rightarrow> MeshAuthzCustomDelegation option" where
  "delegation_of cs =
     (if cs \<noteq> [] \<and> one_provider cs
      then Some \<lparr>delegation_policy = fst (hd cs), delegation_provider = snd (hd cs)\<rparr> else None)"

definition tiers :: "bool \<Rightarrow> hit list \<Rightarrow> MeshAuthzDecision" where
  "tiers granting ms =
     (if named Deny ms \<noteq> [] then DecideDeny (hd (named Deny ms))
      else if granting \<and> named Allow ms = [] then DecideDeny ''implicit-deny''
      else if named Audit ms \<noteq> [] then DecideAudit (hd (named Audit ms))
      else DecideAllow)"

section \<open>The pass computes the specification\<close>

lemma named_append [simp]: "named a (xs @ ys) = named a xs @ named a ys"
  by (simp add: named_def)

lemma named_single [simp]: "named a [(n, b)] = (if b = a then [n] else [])"
  by (simp add: named_def)

lemma delegations_append [simp]: "delegations (xs @ ys) = delegations xs @ delegations ys"
  by (induction xs rule: delegations.induct) simp_all

lemma delegations_not_custom: "\<not> is_custom a \<Longrightarrow> delegations [(n, a)] = []"
  by (cases a) (auto simp: is_custom_def)

definition head :: "'a list \<Rightarrow> 'a option" where
  "head xs = (case xs of [] \<Rightarrow> None | x # _ \<Rightarrow> Some x)"

lemma head_snoc: "head (xs @ [x]) = get_or_insert (head xs) x"
  by (cases xs) (simp_all add: head_def get_or_insert_def)

lemma head_simps [simp]: "head [] = None" "head [x] = Some x" "get_or_insert None x = Some x" "get_or_insert (Some y) x = Some y"
  by (simp_all add: head_def get_or_insert_def)

lemma head_None [simp]: "head xs = None \<longleftrightarrow> xs = []"
  by (cases xs) (simp_all add: head_def)

lemma head_append: "xs \<noteq> [] \<Longrightarrow> head (xs @ ys) = head xs"
  by (cases xs) (simp_all add: head_def)

lemma one_provider_snoc: "one_provider (cs @ [c]) \<longleftrightarrow> one_provider cs \<and> (cs = [] \<or> snd c = snd (hd cs))"
  by (cases cs) (auto simp: one_provider_def)

text \<open>What the state of the pass says about the matches so far.\<close>

definition tracks :: "hit list \<Rightarrow> eval_state \<Rightarrow> bool" where
  "tracks ms st \<longleftrightarrow>
     matched_deny st = head (named Deny ms)
     \<and> pending_custom st = delegation_of (delegations ms)
     \<and> conflict st = (\<not> one_provider (delegations ms))
     \<and> (named Deny ms = [] \<longrightarrow>
          matched_allow st = (named Allow ms \<noteq> []) \<and> matched_audit st = head (named Audit ms))"

lemma record_custom_tracks:
  assumes "tracks ms st"
  shows "tracks (ms @ [(name, Custom provider)]) (record_custom name provider st)"
proof (cases "delegations ms")
  case Nil
  then show ?thesis using assms
    by (auto simp: tracks_def record_custom_def delegation_of_def one_provider_def)
next
  case (Cons c cs)
  then show ?thesis using assms
    by (auto simp: tracks_def record_custom_def delegation_of_def one_provider_def)
qed

lemma eval_rule_tracks:
  assumes "tracks ms st"
  shows "tracks (ms @ (if rule_matches rule request nh (policy_namespace policy)
                       then [(policy_name policy, action rule)] else []))
           (eval_rule request nh policy rule st)"
proof (cases "rule_matches rule request nh (policy_namespace policy)")
  case False
  then show ?thesis using assms by (simp add: eval_rule_def)
next
  case matches: True
  show ?thesis
  proof (cases "matched_deny st \<noteq> None \<and> (conflict st \<or> \<not> is_custom (action rule))")
    case True
    then have ne: "named Deny ms \<noteq> []" using assms by (auto simp: tracks_def)
    have "tracks (ms @ [(policy_name policy, action rule)]) st"
      using assms True ne
      by (cases "action rule")
        (auto simp: tracks_def head_append [OF ne] delegation_of_def one_provider_snoc is_custom_def)
    then show ?thesis using matches True by (simp add: eval_rule_def)
  next
    case False
    show ?thesis
    proof (cases "action rule")
      case (Custom provider)
      then show ?thesis using matches False record_custom_tracks [OF assms]
        by (auto simp: eval_rule_def is_custom_def)
    qed (use assms matches False in \<open>auto simp: eval_rule_def is_custom_def tracks_def head_snoc\<close>)
  qed
qed

lemma fold_eval_rule_tracks:
  "tracks ms st \<Longrightarrow>
     tracks (ms @ map (\<lambda>rule. (policy_name policy, action rule))
               (filter (\<lambda>rule. rule_matches rule request nh (policy_namespace policy)) rules))
       (fold (eval_rule request nh policy) rules st)"
proof (induction rules arbitrary: ms st)
  case (Cons rule rules)
  then show ?case using Cons.IH [OF eval_rule_tracks [OF Cons.prems, of rule request nh policy]]
    by (simp split: if_splits)
qed simp

lemma eval_policy_tracks:
  "tracks ms st \<Longrightarrow> tracks (ms @ policy_hits request policy) (eval_policy request (request_host request) policy st)"
  using fold_eval_rule_tracks [of ms st policy request "request_host request" "policy_rules policy"]
  by (simp add: eval_policy_def policy_hits_def Let_def tracks_def)

lemma fold_eval_policy_tracks:
  "tracks ms st \<Longrightarrow> tracks (ms @ hits request policies) (fold (eval_policy request (request_host request)) policies st)"
proof (induction policies arbitrary: ms st)
  case (Cons policy policies)
  then show ?case using Cons.IH [OF eval_policy_tracks [OF Cons.prems, of request policy]]
    by (simp add: hits_def)
qed (simp add: hits_def)

text \<open>The floor: a granting rule was seen exactly when there is one.\<close>

lemma eval_rule_saw:
  "saw_allow (eval_rule request nh policy rule st) \<Longrightarrow> saw_allow st \<or> action rule = Allow"
  "saw_allow st \<Longrightarrow> saw_allow (eval_rule request nh policy rule st)"
  by (auto simp: eval_rule_def record_custom_def split: if_splits PolicyAction.splits option.splits)

lemma fold_eval_rule_saw:
  "saw_allow (fold (eval_rule request nh policy) rules st) \<Longrightarrow> saw_allow st \<or> (\<exists>rule \<in> set rules. action rule = Allow)"
  "saw_allow st \<Longrightarrow> saw_allow (fold (eval_rule request nh policy) rules st)"
  by (induction rules arbitrary: st) (auto dest: eval_rule_saw)

lemma eval_policy_saw:
  "saw_allow (eval_policy request nh policy st) \<longleftrightarrow> saw_allow st \<or> (\<exists>rule \<in> set (policy_rules policy). action rule = Allow)"
  using fold_eval_rule_saw(1) [of request nh policy "policy_rules policy" st]
    fold_eval_rule_saw(2) [of st request nh policy "policy_rules policy"]
  by (auto simp: eval_policy_def Let_def list_ex_iff)

lemma fold_eval_policy_saw:
  "saw_allow (fold (eval_policy request nh) policies st) \<longleftrightarrow> saw_allow st \<or> grants_exist policies"
  by (induction policies arbitrary: st) (auto simp: eval_policy_saw grants_exist_def)

lemma tracks_start: "tracks [] eval_start"
  by (simp add: tracks_def eval_start_def named_def delegation_of_def one_provider_def)

lemma decide_tiers:
  assumes "tracks ms st" "saw_allow st = granting"
  shows "decide st = tiers granting ms"
  using assms by (auto simp: tracks_def decide_def tiers_def head_def split: list.splits)

lemma full_evaluation:
  "evaluate_mesh_authorization_full policies request =
     \<lparr>custom = delegation_of (delegations (hits request policies)),
      custom_provider_conflict = (\<not> one_provider (delegations (hits request policies))),
      decision = tiers (grants_exist policies) (hits request policies)\<rparr>"
proof -
  let ?st = "fold (eval_policy request (request_host request)) policies eval_start"
  have tracks: "tracks (hits request policies) ?st"
    using fold_eval_policy_tracks [OF tracks_start, of request policies] by simp
  have "saw_allow ?st = grants_exist policies" by (simp add: fold_eval_policy_saw eval_start_def)
  then show ?thesis
    using tracks decide_tiers [OF tracks] by (simp add: evaluate_mesh_authorization_full_def Let_def tracks_def)
qed

text \<open>
  C9. The single pass over the policies, with its shortcuts, computes the specification. With all
  matching rules listed in policy order, the delegation is the first one when all matching CUSTOM
  rules name one provider and absent otherwise, the conflict flag says that they name several, and
  the decision is the first matching DENY, else a denial when some policy grants but no ALLOW rule
  matches, else the first matching AUDIT, else admission. A matched DENY never hides a delegation.
\<close>

theorem evaluation_exact:
  "evaluate_mesh_authorization_full policies request =
     \<lparr>custom = delegation_of (delegations (hits request policies)),
      custom_provider_conflict = (\<not> one_provider (delegations (hits request policies))),
      decision = tiers (grants_exist policies) (hits request policies)\<rparr>"
  by (rule full_evaluation)

section \<open>The order of the policies\<close>

definition denied :: "MeshAuthzDecision \<Rightarrow> bool" where
  "denied d = (case d of DecideDeny _ \<Rightarrow> True | _ \<Rightarrow> False)"

lemma named_nonempty: "named a ms \<noteq> [] \<longleftrightarrow> (\<exists>n. (n, a) \<in> set ms)"
  by (force simp: named_def filter_empty_conv)

lemma delegations_set: "(n, p) \<in> set (delegations ms) \<longleftrightarrow> (n, Custom p) \<in> set ms"
  by (induction ms rule: delegations.induct) auto

lemma one_provider_iff: "one_provider cs \<longleftrightarrow> (\<forall>c \<in> set cs. \<forall>d \<in> set cs. snd c = snd d)"
  unfolding one_provider_def by (cases cs) (auto, metis snd_conv)

lemma is_custom_iff: "is_custom a \<longleftrightarrow> (\<exists>provider. a = Custom provider)"
  by (cases a) (simp_all add: is_custom_def)

lemma delegations_nonempty: "delegations ms = [] \<longleftrightarrow> (\<forall>n p. (n, Custom p) \<notin> set ms)"
  using delegations_set by (metis list.set_intros(1) neq_Nil_conv empty_iff list.set(1) surj_pair)

lemma denied_iff:
  "denied (evaluate_mesh_authorization_policies policies request) \<longleftrightarrow>
     (\<exists>n a. (n, a) \<in> set (hits request policies) \<and> (a = Deny \<or> is_custom a))
     \<or> (grants_exist policies \<and> (\<forall>n. (n, Allow) \<notin> set (hits request policies)))"
proof -
  let ?ms = "hits request policies"
  have custom: "delegations ?ms \<noteq> [] \<longleftrightarrow> (\<exists>n a. (n, a) \<in> set ?ms \<and> is_custom a)"
    unfolding delegations_nonempty is_custom_iff by blast
  have tiers: "denied (tiers (grants_exist policies) ?ms) \<longleftrightarrow>
      (\<exists>n. (n, Deny) \<in> set ?ms) \<or> grants_exist policies \<and> (\<forall>n. (n, Allow) \<notin> set ?ms)"
    using named_nonempty [of Deny ?ms] named_nonempty [of Allow ?ms] by (auto simp: tiers_def denied_def)
  show ?thesis
  proof (cases "delegations ?ms = []")
    case True
    then have "evaluate_mesh_authorization_policies policies request = tiers (grants_exist policies) ?ms"
      by (simp add: evaluate_mesh_authorization_policies_def full_evaluation delegation_of_def one_provider_def)
    then show ?thesis using tiers custom True by auto
  next
    case False
    then have "denied (evaluate_mesh_authorization_policies policies request)"
      by (simp add: evaluate_mesh_authorization_policies_def full_evaluation delegation_of_def denied_def)
    then show ?thesis using custom False by auto
  qed
qed

lemma set_hits: "set (hits request policies) = (\<Union>policy \<in> set policies. set (policy_hits request policy))"
  by (simp add: hits_def)

text \<open>
  C27. The verdict does not depend on the order of the policies. For two lists with the same policies,
  whatever their order, the same requests are denied, the same requests meet a conflict of providers,
  and when a single provider is to be asked it is the same one.
\<close>

theorem verdict_ignores_order:
  assumes "set policies = set reordered"
  shows "denied (evaluate_mesh_authorization_policies policies request)
           = denied (evaluate_mesh_authorization_policies reordered request)
         \<and> custom_provider_conflict (evaluate_mesh_authorization_full policies request)
           = custom_provider_conflict (evaluate_mesh_authorization_full reordered request)
         \<and> map_option delegation_provider (custom (evaluate_mesh_authorization_full policies request))
           = map_option delegation_provider (custom (evaluate_mesh_authorization_full reordered request))"
proof -
  have same: "set (hits request policies) = set (hits request reordered)" using assms by (simp add: set_hits)
  then have cs: "set (delegations (hits request policies)) = set (delegations (hits request reordered))"
    (is "set ?cs = set ?ds") by (auto simp: delegations_set)
  have grants: "grants_exist policies = grants_exist reordered" using assms by (simp add: grants_exist_def)
  have one: "one_provider ?cs = one_provider ?ds" using cs by (simp add: one_provider_iff)
  have "map_option delegation_provider (delegation_of ?cs) = map_option delegation_provider (delegation_of ?ds)"
  proof (cases "?cs \<noteq> [] \<and> one_provider ?cs")
    case True
    then have "?ds \<noteq> [] \<and> one_provider ?ds" using one cs by (metis set_empty)
    moreover have "snd (hd ?cs) = snd (hd ?ds)"
      using True calculation cs by (metis hd_in_set one_provider_iff)
    ultimately show ?thesis using True by (simp add: delegation_of_def)
  next
    case False
    then have "\<not> (?ds \<noteq> [] \<and> one_provider ?ds)" using one cs by (metis set_empty)
    then show ?thesis using False by (simp add: delegation_of_def)
  qed
  then show ?thesis using same grants one by (simp add: denied_iff full_evaluation)
qed

text \<open>A rule without constraints, and policies of such rules.\<close>

definition open_rule :: "PolicyAction \<Rightarrow> MeshRule" where
  "open_rule a =
     \<lparr>rule_from = [], rule_to = [], rule_when = [], request_principals = [], not_request_principals = [],
      source_negation = \<lparr>not_spiffe_id_patterns = [], not_namespace_patterns = [], not_trust_domain_patterns = [],
        ip_blocks = [], not_ip_blocks = [], remote_ip_blocks = [], not_remote_ip_blocks = []\<rparr>,
      never_matches = False, action = a\<rparr>"

definition open_match :: RequestMatch where
  "open_match =
     \<lparr>methods = [], paths = [], hosts = [], headers = [], ports = [], port_patterns = [], not_methods = [],
      not_paths = [], not_hosts = [], not_ports = [], not_port_patterns = []\<rparr>"

definition bare_request :: MeshAuthzRequest where
  "bare_request =
     \<lparr>source_principal = None, request_principal = None, req_method = None, req_path = None, req_host = None,
      req_port = None, req_headers = [], attributes = [], source_ip = None, remote_ip = None,
      destination_ip = None, protocol = L4\<rparr>"

definition policy_of :: "string \<Rightarrow> MeshRule list \<Rightarrow> MeshPolicy" where
  "policy_of name rules = \<lparr>policy_name = name, policy_namespace = ''shop'', policy_rules = rules\<rparr>"

theorem verdict_ignores_order_witness:
  "denied (evaluate_mesh_authorization_policies
             [policy_of ''a'' [open_rule Allow], policy_of ''d'' [open_rule Deny]] bare_request)
   \<and> denied (evaluate_mesh_authorization_policies
             [policy_of ''d'' [open_rule Deny], policy_of ''a'' [open_rule Allow]] bare_request)"
proof -
  let ?a = "policy_of ''a'' [open_rule Allow]" and ?d = "policy_of ''d'' [open_rule Deny]"
  have "denied (evaluate_mesh_authorization_policies [?a, ?d] bare_request)" by code_simp
  moreover have "set [?a, ?d] = set [?d, ?a]" by auto
  ultimately show ?thesis using verdict_ignores_order [of "[?a, ?d]" "[?d, ?a]" bare_request] by simp
qed

section \<open>The early test misses nothing\<close>

lemma request_match_scope:
  assumes "request_match m request a nh" "req_method request = Some method" "req_path request = Some p"
  shows "request_scope_method_path_host_may_apply m method p nh"
    and "request_scope_method_path_host_may_apply m method p None"
  using assms
  by (auto simp: request_match_def request_scope_method_path_host_may_apply_def positive_ok_def negative_ok_def
      is_some_and_def split: if_splits option.splits)

text \<open>
  C13. The test that decides, before authorization, whether the body of a request must be held back for
  a rule has no false negatives: a rule that will match the request passes the test on its method,
  path and host, whatever the port, the headers, the source and the conditions turn out to be.
\<close>

theorem early_test_complete:
  assumes "rule_matches rule request (request_host request) ns"
    and "req_method request = Some method" "req_path request = Some p"
  shows "mesh_rule_request_scope_may_apply rule method p (req_host request)"
proof (cases "rule_to rule = []")
  case False
  then obtain m where m: "m \<in> set (rule_to rule)" "request_match m request (action rule) (request_host request)"
    using assms(1) by (auto simp: rule_matches_def matches_requests_def list_ex_iff split: if_splits)
  then show ?thesis
    using request_match_scope [OF m(2) assms(2,3)] False
    by (auto simp: mesh_rule_request_scope_may_apply_def Let_def list_ex_iff request_host_def)
qed (simp add: mesh_rule_request_scope_may_apply_def)

theorem early_test_complete_witness:
  "mesh_rule_request_scope_may_apply
     (open_rule (Custom ''ext'')\<lparr>rule_to := [open_match\<lparr>methods := [''POST''], paths := [''/api/*'']\<rparr>]\<rparr>)
     ''post'' ''/api/orders'' None"
proof -
  let ?rule = "open_rule (Custom ''ext'')\<lparr>rule_to := [open_match\<lparr>methods := [''POST''], paths := [''/api/*'']\<rparr>]\<rparr>"
  let ?request = "bare_request\<lparr>req_method := Some ''post'', req_path := Some ''/api/orders'', protocol := Http\<rparr>"
  have hit: "rule_matches ?rule ?request (request_host ?request) ''shop''" by code_simp
  have attrs: "req_method ?request = Some ''post''" "req_path ?request = Some ''/api/orders''"
    and host: "req_host ?request = None" by (simp_all add: bare_request_def)
  show ?thesis using early_test_complete [OF hit attrs] unfolding host .
qed

section \<open>Connections below HTTP\<close>

text \<open>A session that carries no HTTP request, as the stream path builds it.\<close>

definition l4_session :: "MeshAuthzRequest \<Rightarrow> bool" where
  "l4_session request \<longleftrightarrow>
     protocol request = L4 \<and> req_method request = None \<and> req_path request = None
     \<and> req_host request = None \<and> req_headers request = []"

text \<open>The HTTP part of an operation, of a condition and of a rule.\<close>

definition http_free :: "RequestMatch \<Rightarrow> bool" where
  "http_free m \<longleftrightarrow>
     methods m = [] \<and> not_methods m = [] \<and> paths m = [] \<and> not_paths m = [] \<and> hosts m = [] \<and> not_hosts m = []
     \<and> headers m = []"

definition erase_operation :: "RequestMatch \<Rightarrow> RequestMatch" where
  "erase_operation m =
     m\<lparr>methods := [], not_methods := [], paths := [], not_paths := [], hosts := [], not_hosts := [], headers := []\<rparr>"

definition http_condition :: "ConditionMatch \<Rightarrow> bool" where
  "http_condition c \<longleftrightarrow>
     (condition_values c \<noteq> [] \<or> not_values c \<noteq> [])
     \<and> classify_mesh_condition_key (condition_key c)
         \<in> Some ` {RequestHeader, RequestAuthPrincipal, RequestAuthPresenter, RequestAuthAudiences, RequestAuthClaim}"

definition erase_http :: "MeshRule \<Rightarrow> MeshRule" where
  "erase_http rule =
     rule\<lparr>rule_to := map erase_operation (rule_to rule), request_principals := [], not_request_principals := [],
          rule_when := filter (\<lambda>c. \<not> http_condition c) (rule_when rule)\<rparr>"

lemma request_match_iff:
  "request_match m request a nh \<longleftrightarrow>
     positive_ok a eq_ignore_ascii_case (methods m) (req_method request)
     \<and> negative_ok a eq_ignore_ascii_case (not_methods m) (req_method request)
     \<and> positive_ok a wildcard_match (paths m) (req_path request)
     \<and> negative_ok a wildcard_match (not_paths m) (req_path request)
     \<and> positive_ok a normalized_host_matches (hosts m) nh
     \<and> negative_ok a normalized_host_matches (not_hosts m) nh
     \<and> (ports m \<noteq> [] \<or> port_patterns m \<noteq> [] \<longrightarrow>
          is_some_and (req_port request) (port_listed (ports m) (port_patterns m)))
     \<and> (not_ports m \<noteq> [] \<or> not_port_patterns m \<noteq> [] \<longrightarrow>
          is_some_and (req_port request) (\<lambda>port. \<not> port_listed (not_ports m) (not_port_patterns m) port))
     \<and> list_all (header_ok a request) (headers m)"
  by (auto simp: request_match_def)

lemma missing_ok [simp]:
  "positive_ok a f patterns None \<longleftrightarrow> patterns = [] \<or> deny_missing_http_attribute_matches a"
  "negative_ok a f patterns None \<longleftrightarrow> patterns = [] \<or> deny_missing_http_attribute_matches a"
  "positive_ok a f [] v" "negative_ok a f [] v"
  by (simp_all add: positive_ok_def negative_ok_def)

lemma l4_operation:
  assumes "l4_session request"
  shows "deny_missing_http_attribute_matches a \<Longrightarrow>
           request_match m request a None = request_match (erase_operation m) request a None"
    and "\<not> deny_missing_http_attribute_matches a \<Longrightarrow> request_match m request a None \<Longrightarrow> http_free m"
proof -
  have header: "list_all (header_ok a request) hs \<longleftrightarrow> hs = [] \<or> deny_missing_http_attribute_matches a" for hs
    using assms by (cases hs) (auto simp: l4_session_def header_ok_def request_header_value_def list_all_iff)
  show "deny_missing_http_attribute_matches a \<Longrightarrow>
           request_match m request a None = request_match (erase_operation m) request a None"
    using assms by (simp add: l4_session_def request_match_iff header erase_operation_def)
  show "\<not> deny_missing_http_attribute_matches a \<Longrightarrow> request_match m request a None \<Longrightarrow> http_free m"
    using assms by (simp add: l4_session_def request_match_iff header http_free_def)
qed

lemma l4_condition:
  assumes "l4_session request" "http_condition c"
  shows "condition_matches c request a ns = deny_missing_http_attribute_matches a"
  using assms by (auto simp: l4_session_def http_condition_def condition_matches_def condition_kind_is_sourceable_def)



text \<open>
  A port constraint is different: a DENY rule that excludes ports does not match a session whose port
  is unknown, while one that excludes methods, paths or hosts does match when these are unknown.
\<close>

theorem unknown_port_disarms_deny:
  assumes "req_port request = None" "not_ports m \<noteq> []"
  shows "\<not> request_match m request Deny nh"
  using assms by (simp add: request_match_def is_some_and_def)

end
