(* ===== verification/Health_Bitset.thy ===== *)
theory Health_Bitset
  imports Ferrum_Prelude "HOL-Library.Multiset"
begin

text \<open>
  The candidate sets of the load balancer (\<^verbatim>\<open>src/src/load_balancer.rs\<close>): a word of 128 bits with a
  cached population count. The iterators read the word by clearing its lowest bit; the lemmas show
  that they visit the members in ascending order, so that the ordinal lookup behind round robin and
  random selection hits every member and nothing else.

  An index is below 128 wherever the code shifts by it, since pools of more targets take the vector
  path; \<open>1u128 << idx\<close> is \<open>push_bit idx 1\<close> there.
\<close>

section \<open>Definitions\<close>

abbreviation MAX_BITSET_TARGETS :: nat where
  "MAX_BITSET_TARGETS \<equiv> 128"

record HealthBitset =
  bits :: u128
  bitset_len :: u8

definition bitset_all :: "nat \<Rightarrow> HealthBitset" where
  "bitset_all n =
     \<lparr>bits = (if 128 \<le> n then word_max else if n = 0 then 0 else push_bit n 1 - 1), bitset_len = of_nat n\<rparr>"

definition bitset_empty :: HealthBitset where
  "bitset_empty = \<lparr>bits = 0, bitset_len = 0\<rparr>"

definition bitset_set :: "nat \<Rightarrow> HealthBitset \<Rightarrow> HealthBitset" where
  "bitset_set idx b = b\<lparr>bits := bits b OR push_bit idx 1, bitset_len := bitset_len b + 1\<rparr>"

definition bitset_clear :: "nat \<Rightarrow> HealthBitset \<Rightarrow> HealthBitset" where
  "bitset_clear idx b =
     (if bits b AND push_bit idx 1 \<noteq> 0
      then b\<lparr>bits := bits b AND NOT (push_bit idx 1), bitset_len := bitset_len b - 1\<rparr>
      else b)"

definition bitset_contains :: "HealthBitset \<Rightarrow> nat \<Rightarrow> bool" where
  "bitset_contains b idx \<longleftrightarrow> bits b AND push_bit idx 1 \<noteq> 0"

definition bitset_count :: "HealthBitset \<Rightarrow> nat" where
  "bitset_count b = unat (bitset_len b)"

definition bitset_is_empty :: "HealthBitset \<Rightarrow> bool" where
  "bitset_is_empty b \<longleftrightarrow> bitset_len b = 0"

definition bitset_is_all :: "HealthBitset \<Rightarrow> nat \<Rightarrow> bool" where
  "bitset_is_all b n \<longleftrightarrow> unat (bitset_len b) = n"

text \<open>\<open>trailing_zeros\<close> and \<open>count_ones\<close> of the standard library.\<close>

definition trailing_zeros :: "'a::len word \<Rightarrow> nat" where
  "trailing_zeros w = (case List.find (bit w) [0..<LENGTH('a)] of Some i \<Rightarrow> i | None \<Rightarrow> LENGTH('a))"

definition count_ones :: "'a::len word \<Rightarrow> nat" where
  "count_ones w = length (filter (bit w) [0..<LENGTH('a)])"

definition clear_lowest :: "u128 \<Rightarrow> u128" where
  "clear_lowest remaining = remaining AND (remaining - 1)"

definition nth_set_bit :: "HealthBitset \<Rightarrow> nat \<Rightarrow> nat" where
  "nth_set_bit b n =
     (let wrapped = n mod unat (bitset_len b) in trailing_zeros ((clear_lowest ^^ wrapped) (bits b)))"

definition from_bits :: "u128 \<Rightarrow> HealthBitset" where
  "from_bits w = \<lparr>bits = w, bitset_len = of_nat (count_ones w)\<rparr>"

definition intersect :: "HealthBitset \<Rightarrow> HealthBitset \<Rightarrow> HealthBitset" where
  "intersect a b = from_bits (bits a AND bits b)"

lemma clear_lowest_less: "w \<noteq> 0 \<Longrightarrow> unat (clear_lowest w) < unat w"
proof -
  assume "w \<noteq> 0"
  then have "unat (w - 1) < unat w" by (simp add: unat_dec unat_gt_0)
  moreover have "clear_lowest w \<le> w - 1"
    unfolding clear_lowest_def by (simp add: word_and_le1)
  ultimately show ?thesis by (simp add: word_le_nat_alt)
qed

text \<open>The indices \<^verbatim>\<open>for_each_set_bit\<close> visits, in the order it visits them.\<close>

function for_each_set_bit :: "u128 \<Rightarrow> nat list" where
  "for_each_set_bit remaining =
     (if remaining = 0 then []
      else trailing_zeros remaining # for_each_set_bit (clear_lowest remaining))"
  by auto

termination
  by (relation "measure unat") (auto simp: clear_lowest_less)

declare for_each_set_bit.simps [simp del]

definition bitset_for_indices :: "nat list \<Rightarrow> HealthBitset" where
  "bitset_for_indices indices =
     fold (\<lambda>idx b. if idx < MAX_BITSET_TARGETS then bitset_set idx b else b) indices bitset_empty"

section \<open>Members in ascending order\<close>

definition members :: "u128 \<Rightarrow> nat list" where
  "members w = filter (bit w) [0..<128]"

definition wf_bitset :: "HealthBitset \<Rightarrow> bool" where
  "wf_bitset b \<longleftrightarrow> unat (bitset_len b) = length (members (bits b))"

lemma bit_u128_less: "bit (w :: u128) i \<Longrightarrow> i < 128"
  by (drule bit_imp_le_length) simp

lemma set_members [simp]: "set (members w) = {i. bit w i}"
  by (auto simp: members_def dest: bit_u128_less)

lemma members_sorted: "sorted (members w)" and members_distinct: "distinct (members w)"
  by (simp_all add: members_def sorted_wrt_filter)

lemma members_zero [simp]: "members 0 = []"
  by (simp add: members_def)

lemma members_empty_iff [simp]: "members w = [] \<longleftrightarrow> w = 0"
proof
  assume "members w = []"
  then have "\<not> bit w i" for i using set_members [of w] by auto
  then show "w = 0" by (simp add: bit_eq_iff)
qed simp

lemma find_filter: "List.find P xs = (case filter P xs of [] \<Rightarrow> None | x # _ \<Rightarrow> Some x)"
  by (induction xs) auto

lemma trailing_zeros_members: "w \<noteq> 0 \<Longrightarrow> trailing_zeros w = hd (members w)" for w :: u128
  using members_empty_iff [of w]
  by (auto simp: trailing_zeros_def find_filter members_def split: list.splits)

lemma trailing_zeros_least:
  fixes w :: u128
  assumes "w \<noteq> 0"
  shows "bit w (trailing_zeros w)" and "\<And>j. bit w j \<Longrightarrow> trailing_zeros w \<le> j"
proof -
  obtain i js where m: "members w = i # js" using assms by (cases "members w") auto
  then have t: "trailing_zeros w = i" using trailing_zeros_members [OF assms] by simp
  from m have "i \<in> set (members w)" by simp
  then show "bit w (trailing_zeros w)" by (simp add: t)
  show "trailing_zeros w \<le> j" if "bit w j" for j
  proof -
    from that have "j \<in> set (i # js)" unfolding m [symmetric] by simp
    moreover have "sorted (i # js)" unfolding m [symmetric] by (rule members_sorted)
    ultimately show ?thesis by (auto simp: t)
  qed
qed

text \<open>Below the lowest bit \<open>x - 1\<close> has ones where \<open>x\<close> has zeros; above it the two agree.\<close>

lemma bit_dec_nat:
  fixes x :: nat
  assumes "bit x k" and "\<And>j. j < k \<Longrightarrow> \<not> bit x j"
  shows "bit x i \<and> bit (x - 1) i \<longleftrightarrow> bit x i \<and> i \<noteq> k"
  using assms
proof (induction k arbitrary: x i)
  case 0
  then have "odd x" by (simp add: bit_0)
  then obtain m where "x = 2 * m + 1" by (auto elim: oddE)
  then show ?case by (cases i) (auto simp: bit_0 bit_Suc)
next
  case (Suc k)
  have "even x" using Suc.prems(2) [of 0] by (simp add: bit_0)
  then obtain m where x: "x = 2 * m" by (auto elim: evenE)
  have "bit m k" using Suc.prems(1) by (simp add: x bit_Suc)
  moreover have "\<not> bit m j" if "j < k" for j
    using Suc.prems(2) [of "Suc j"] that by (simp add: x bit_Suc)
  ultimately have IH: "bit m j \<and> bit (m - 1) j \<longleftrightarrow> bit m j \<and> j \<noteq> k" for j
    by (rule Suc.IH)
  from \<open>bit m k\<close> have "m \<noteq> 0" by (cases "m = 0") simp_all
  then have "(x - 1) div 2 = m - 1" by (simp add: x)
  then show ?case
    using IH by (cases i) (auto simp: bit_0 bit_Suc x)
qed

lemma bit_clear_lowest:
  assumes "w \<noteq> 0"
  shows "bit (clear_lowest w) i \<longleftrightarrow> bit w i \<and> i \<noteq> trailing_zeros w"
proof -
  have u: "bit (unat w) j \<longleftrightarrow> bit w j" for j
    by (auto simp: bit_unsigned_iff dest: bit_u128_less)
  have "bit (unat w) i \<and> bit (unat w - 1) i \<longleftrightarrow> bit (unat w) i \<and> i \<noteq> trailing_zeros w"
    by (rule bit_dec_nat) (use trailing_zeros_least [OF assms] in \<open>auto simp: u simp flip: not_le\<close>)
  moreover have "unat w - 1 = unat (w - 1)" by (simp add: unat_dec assms)
  moreover have "bit (unat (w - 1)) i \<longleftrightarrow> bit (w - 1) i"
    by (auto simp: bit_unsigned_iff dest: bit_u128_less)
  ultimately show ?thesis
    by (simp add: clear_lowest_def bit_and_iff u)
qed

lemma members_unfold: "w \<noteq> 0 \<Longrightarrow> members w = trailing_zeros w # members (clear_lowest w)"
proof (rule sorted_distinct_set_unique)
  assume w: "w \<noteq> 0"
  show "sorted (trailing_zeros w # members (clear_lowest w))"
    using trailing_zeros_least(2) [OF w] by (auto simp: bit_clear_lowest w members_sorted)
  show "distinct (trailing_zeros w # members (clear_lowest w))"
    by (simp add: bit_clear_lowest w members_distinct)
  show "set (members w) = set (trailing_zeros w # members (clear_lowest w))"
    using trailing_zeros_least(1) [OF w] by (auto simp: bit_clear_lowest w)
qed (simp_all add: members_sorted members_distinct)

lemma members_clear_lowest: "members (clear_lowest w) = tl (members w)"
proof (cases "w = 0")
  case True
  then show ?thesis by (simp add: clear_lowest_def)
qed (simp add: members_unfold)

lemma for_each_set_bit_members [simp]: "for_each_set_bit w = members w"
proof (induction w rule: for_each_set_bit.induct)
  case (1 remaining)
  then show ?case
    by (subst for_each_set_bit.simps) (auto simp: members_unfold)
qed

lemma members_clear_lowest_funpow: "members ((clear_lowest ^^ k) w) = drop k (members w)"
  by (induction k) (simp_all add: members_clear_lowest drop_Suc tl_drop)

lemma nth_set_bit_members:
  assumes "wf_bitset b" and "bits b \<noteq> 0"
  shows "nth_set_bit b n = members (bits b) ! (n mod length (members (bits b)))"
proof -
  let ?k = "n mod length (members (bits b))"
  have k: "?k < length (members (bits b))" using assms(2) by (simp add: mod_less_divisor)
  then have "members ((clear_lowest ^^ ?k) (bits b)) \<noteq> []"
    by (simp add: members_clear_lowest_funpow del: members_empty_iff)
  then have "(clear_lowest ^^ ?k) (bits b) \<noteq> 0" by auto
  then show ?thesis
    using assms(1) k by (simp add: nth_set_bit_def wf_bitset_def trailing_zeros_members members_clear_lowest_funpow hd_drop_conv_nth)
qed

section \<open>Operations as operations on sets\<close>

definition elems :: "HealthBitset \<Rightarrow> nat set" where
  "elems b = {i. bit (bits b) i}"

lemma elems_bounded: "i \<in> elems b \<Longrightarrow> i < 128"
  by (simp add: elems_def bit_u128_less)

lemma finite_elems [simp]: "finite (elems b)"
  by (rule finite_subset [of _ "{..<128}"]) (auto dest: elems_bounded)

lemma card_elems_le: "card (elems b) \<le> 128"
  using card_mono [of "{..<128}" "elems b"] by (auto dest: elems_bounded)

lemma members_elems: "set (members (bits b)) = elems b"
  by (simp add: elems_def)

lemma length_members: "length (members (bits b)) = card (elems b)"
  using distinct_card [OF members_distinct, of "bits b"] by (simp add: elems_def)

lemma wf_bitset_iff: "wf_bitset b \<longleftrightarrow> bitset_count b = card (elems b)"
  by (simp add: wf_bitset_def bitset_count_def length_members)

lemma bit_two_power: "bit (2 ^ i :: u128) j \<longleftrightarrow> j = i \<and> i < 128"
  by (auto simp: bit_exp_iff)

lemma bitset_contains_iff [simp]: "bitset_contains b i \<longleftrightarrow> i \<in> elems b"
proof
  assume "bitset_contains b i"
  then obtain j where "bit (bits b AND push_bit i 1) j"
    by (auto simp: bitset_contains_def bit_eq_iff)
  then show "i \<in> elems b"
    by (auto simp: bit_and_iff bit_two_power elems_def)
next
  assume i: "i \<in> elems b"
  then have "bit (bits b AND push_bit i 1) i"
    by (auto simp: bit_and_iff bit_two_power elems_def dest: bit_u128_less)
  then have "bits b AND push_bit i 1 \<noteq> 0" by (metis bit_0_eq bot_apply bot_bool_def)
  then show "bitset_contains b i"
    by (simp add: bitset_contains_def)
qed

lemma bitset_is_empty_iff [simp]: "wf_bitset b \<Longrightarrow> bitset_is_empty b \<longleftrightarrow> elems b = {}"
  by (auto simp: wf_bitset_iff bitset_is_empty_def bitset_count_def unat_eq_0)

lemma bits_zero_iff: "bits b = 0 \<longleftrightarrow> elems b = {}"
  using members_empty_iff [of "bits b"] members_elems [of b] by (auto simp del: set_members members_empty_iff)

lemma wf_empty [simp]: "wf_bitset bitset_empty" and elems_empty [simp]: "elems bitset_empty = {}"
  by (simp_all add: wf_bitset_def bitset_empty_def elems_def)

lemma elems_set [simp]: "i < 128 \<Longrightarrow> elems (bitset_set i b) = insert i (elems b)"
  by (auto simp: elems_def bitset_set_def bit_or_iff bit_two_power)

lemma unat_u8: "n \<le> 128 \<Longrightarrow> unat (of_nat n :: u8) = n"
  by (simp add: unsigned_of_nat take_bit_nat_eq_self)

lemma wf_set: "wf_bitset b \<Longrightarrow> i < 128 \<Longrightarrow> i \<notin> elems b \<Longrightarrow> wf_bitset (bitset_set i b)"
proof -
  assume wf: "wf_bitset b" and i: "i < 128" "i \<notin> elems b"
  have "Suc (card (elems b)) \<le> 128"
    using card_elems_le [of "bitset_set i b"] i by simp
  then have "unat (bitset_len b + 1) = Suc (card (elems b))"
    using wf by (simp add: wf_bitset_iff bitset_count_def unat_word_ariths)
  then show ?thesis using i by (simp add: wf_bitset_iff bitset_count_def) (simp add: bitset_set_def)
qed

lemma bitset_clear_cases:
  "bitset_clear i b =
     (if i \<in> elems b then b\<lparr>bits := bits b AND NOT (push_bit i 1), bitset_len := bitset_len b - 1\<rparr> else b)"
  using bitset_contains_iff [of b i] unfolding bitset_clear_def bitset_contains_def by (simp only:)

lemma elems_clear: "elems (bitset_clear i b) = elems b - {i}"
  by (auto simp: bitset_clear_cases)
    (auto simp: elems_def bit_and_iff bit_not_iff bit_two_power dest: bit_u128_less)

lemma wf_clear: "wf_bitset b \<Longrightarrow> wf_bitset (bitset_clear i b)"
proof (cases "i \<in> elems b")
  case True
  assume wf: "wf_bitset b"
  have "card (elems b) \<noteq> 0" using True by auto
  then have "bitset_len b \<noteq> 0" using wf by (auto simp: wf_bitset_iff bitset_count_def)
  then have "unat (bitset_len b - 1) = card (elems b) - 1"
    using wf by (simp add: unat_dec wf_bitset_iff bitset_count_def)
  then show ?thesis
    using True by (simp add: wf_bitset_iff bitset_count_def elems_clear) (simp add: bitset_clear_cases)
qed (simp add: bitset_clear_cases)

lemma bit_word_max [simp]: "bit (word_max :: 'a::len word) i \<longleftrightarrow> i < LENGTH('a)"
  by (simp add: word_max_def)

lemma elems_all [simp]: "n \<le> 128 \<Longrightarrow> elems (bitset_all n) = {..<n}"
proof -
  assume "n \<le> 128"
  moreover have "push_bit n 1 - 1 = (mask n :: u128)" by (simp add: mask_eq_decr_exp push_bit_eq_mult)
  ultimately show ?thesis
    by (auto simp: elems_def bitset_all_def bit_mask_iff)
qed

lemma wf_all [simp]: "n \<le> 128 \<Longrightarrow> wf_bitset (bitset_all n)"
  by (simp add: wf_bitset_iff bitset_count_def) (simp add: bitset_all_def unat_u8)

lemma wf_from_bits [simp]: "wf_bitset (from_bits w)"
proof -
  have "length (members w) \<le> 128" by (metis length_members card_elems_le select_convs(1))
  then show ?thesis by (simp add: wf_bitset_def from_bits_def count_ones_def members_def unat_u8)
qed

lemma wf_intersect [simp]: "wf_bitset (intersect a b)"
  and elems_intersect [simp]: "elems (intersect a b) = elems a \<inter> elems b"
  by (auto simp: intersect_def) (auto simp: elems_def from_bits_def bit_and_iff)

text \<open>
  The loops that build a set: they visit distinct indices and set those that pass a test.
\<close>

definition set_where :: "(nat \<Rightarrow> bool) \<Rightarrow> nat list \<Rightarrow> HealthBitset" where
  "set_where keep indices = fold (\<lambda>idx b. if keep idx then bitset_set idx b else b) indices bitset_empty"

lemma fold_set_where:
  assumes "distinct indices" "set indices \<subseteq> {..<128}" "wf_bitset b" "set indices \<inter> elems b = {}"
  shows "wf_bitset (fold (\<lambda>idx b. if keep idx then bitset_set idx b else b) indices b)"
    and "elems (fold (\<lambda>idx b. if keep idx then bitset_set idx b else b) indices b)
           = elems b \<union> {i \<in> set indices. keep i}"
  using assms
proof (induction indices arbitrary: b)
  case (Cons i indices)
  {
    case (1 b)
    let ?b = "if keep i then bitset_set i b else b"
    from 1
    have step: "distinct indices" "set indices \<subseteq> {..<128}" "wf_bitset ?b" "set indices \<inter> elems ?b = {}"
      by (auto intro: wf_set)
    show ?case using Cons.IH(1) [OF step] by simp
  next
    case (2 b)
    let ?b = "if keep i then bitset_set i b else b"
    from 2
    have step: "distinct indices" "set indices \<subseteq> {..<128}" "wf_bitset ?b" "set indices \<inter> elems ?b = {}"
      by (auto intro: wf_set)
    show ?case using Cons.IH(2) [OF step] 2 by auto
  }
qed auto

lemma set_where_wf:
  "distinct indices \<Longrightarrow> set indices \<subseteq> {..<128} \<Longrightarrow> wf_bitset (set_where keep indices)"
  unfolding set_where_def by (rule fold_set_where(1)) auto

lemma set_where_elems:
  "distinct indices \<Longrightarrow> set indices \<subseteq> {..<128} \<Longrightarrow> elems (set_where keep indices) = {i \<in> set indices. keep i}"
  unfolding set_where_def by (subst fold_set_where(2)) auto

section \<open>Ordinal lookup\<close>

lemma nth_set_bit_elem: "wf_bitset b \<Longrightarrow> elems b \<noteq> {} \<Longrightarrow> nth_set_bit b n \<in> elems b"
proof -
  assume wf: "wf_bitset b" and ne: "elems b \<noteq> {}"
  then have "length (members (bits b)) > 0" by (simp add: length_members card_gt_0_iff)
  then have "members (bits b) ! (n mod length (members (bits b))) \<in> set (members (bits b))"
    by (intro nth_mem mod_less_divisor)
  then show ?thesis
    using wf ne by (simp add: nth_set_bit_members bits_zero_iff members_elems del: set_members)
qed

lemma map_mod_rotate:
  assumes "xs \<noteq> []"
  shows "map (\<lambda>k. xs ! (k mod length xs)) [s..<s + length xs] = rotate s xs"
  using assms by (intro nth_equalityI) (simp_all add: nth_rotate)

lemma mset_rotate_eq [simp]: "mset (rotate s xs) = mset xs"
  by (simp add: rotate_drop_take flip: mset_append) (metis append_take_drop_id mset_append union_commute)

text \<open>
  As many consecutive ordinals as the set has members hit every member exactly once, from whatever
  ordinal the run starts.
\<close>

lemma nth_set_bit_cycle:
  assumes "wf_bitset b"
  shows "mset (map (nth_set_bit b) [s..<s + bitset_count b]) = mset_set (elems b)"
proof (cases "elems b = {}")
  case False
  let ?m = "members (bits b)"
  have ne: "bits b \<noteq> 0" "?m \<noteq> []" using False by (auto simp: bits_zero_iff)
  have len: "bitset_count b = length ?m" using assms by (simp add: wf_bitset_iff length_members)
  have "nth_set_bit b = (\<lambda>k. ?m ! (k mod length ?m))"
    using assms ne(1) by (auto simp: nth_set_bit_members)
  then have "map (nth_set_bit b) [s..<s + bitset_count b] = rotate s ?m"
    by (simp only: len map_mod_rotate [OF ne(2)])
  then show ?thesis
    using mset_set_set [OF members_distinct, of "bits b"] by (simp add: members_elems del: set_members)
qed (use assms in \<open>simp add: wf_bitset_iff\<close>)

end
