(* ===== verification/Wrr_Order.thy ===== *)
theory Wrr_Order
  imports Ferrum_Prelude "HOL-Library.Multiset" "HOL-Library.Product_Lexorder"
begin

text \<open>
  The schedule of weighted round robin (\<^verbatim>\<open>src/src/load_balancer.rs\<close>): weights are divided by their
  greatest common divisor, a period longer than the cap is apportioned by largest remainders, and the
  smooth algorithm of NGINX lays the period out. The lemmas show that one period picks every target
  exactly as often as its share, that the apportionment is within one slot of the quota and fills the
  capped period exactly, and that the saturating signed arithmetic of the loop never saturates.

  Indices are natural numbers; an \<^verbatim>\<open>i64\<close> is an integer with its saturation written out.
\<close>

section \<open>Definitions\<close>

abbreviation WRR_MAX_SCHEDULE_LEN :: nat where
  "WRR_MAX_SCHEDULE_LEN \<equiv> 8192"

abbreviation WRR_SMOOTH_BUILD_MAX_WORK :: nat where
  "WRR_SMOOTH_BUILD_MAX_WORK \<equiv> 8192 * 128"

text \<open>Saturation of the signed 64-bit operations of the standard library.\<close>

abbreviation i64_min :: int where
  "i64_min \<equiv> - (2 ^ 63)"

abbreviation i64_max :: int where
  "i64_max \<equiv> 2 ^ 63 - 1"

definition i64_sat :: "int \<Rightarrow> int" where
  "i64_sat x = clamp x i64_min i64_max"

function wrr_gcd :: "u32 \<Rightarrow> u32 \<Rightarrow> u32" where
  "wrr_gcd a b = (if b = 0 then a else wrr_gcd b (a mod b))"
  by auto

termination
proof (relation "measure (\<lambda>(a, b). unat b)")
  show "((b, a mod b), (a, b)) \<in> measure (\<lambda>(a, b). unat b)" if "b \<noteq> 0" for a b :: u32
  proof -
    from that have "0 < unat b" by (simp add: unat_gt_0)
    then show ?thesis by (simp add: unat_mod)
  qed
qed simp

declare wrr_gcd.simps [simp del]

datatype WrrOrderBuild = Smooth "nat list" | ZeroWeight | LotteryOnly

definition extra_slots :: "u128 \<Rightarrow> u128 \<Rightarrow> nat" where
  "extra_slots numerator denominator =
     (let q = unat (numerator div denominator) in if q < 2 ^ 64 then q else 2 ^ 64 - 1)"

definition bound_wrr_weights :: "(nat \<times> u64) list \<Rightarrow> u64 \<Rightarrow> (nat \<times> int) list" where
  "bound_wrr_weights normalized total_weight =
     (let schedule_len = max WRR_MAX_SCHEDULE_LEN (length normalized) in
      if unat total_weight \<le> schedule_len then map (\<lambda>(idx, weight). (idx, sint weight)) normalized
      else
        (let remaining = schedule_len - length normalized;
             denominator = max (ucast total_weight) (1 :: u128);
             numerator = (\<lambda>weight :: u64. saturating_mul (ucast weight) (of_nat remaining :: u128));
             extra = (\<lambda>weight. extra_slots (numerator weight) denominator);
             apportioned = map (\<lambda>(idx, weight).
               (idx, min (int (min (extra weight + 1) (2 ^ 64 - 1))) i64_max)) normalized;
             remainders = map (\<lambda>(slot, idx, weight). (slot, numerator weight mod denominator)) (enumerate 0 normalized);
             assigned = fold (\<lambda>(idx, weight) a. min (a + extra weight) (2 ^ 64 - 1)) normalized (length normalized);
             remainders = sort_key (\<lambda>(slot, remainder). (- uint remainder, slot)) remainders;
             leftover = schedule_len - assigned
         in fold (\<lambda>(slot, _) ws. ws[slot := (fst (ws ! slot), i64_sat (snd (ws ! slot) + 1))])
              (take leftover remainders) apportioned))"

definition weights_gcd :: "(nat \<times> u32) list \<Rightarrow> u32" where
  "weights_gcd weighted =
     fold (\<lambda>(_, weight) g. if weight = 0 then g else if g = 0 then weight else wrr_gcd g weight) weighted 0"

text \<open>One turn of the loop: every current weight grows, the first largest is picked and pays the total.\<close>

definition best_slot :: "int list \<Rightarrow> nat" where
  "best_slot current =
     fst (fold (\<lambda>(slot, c) (best, best_current). if best_current < c then (slot, c) else (best, best_current))
           (enumerate 0 current) (0, i64_min))"

definition smooth_step :: "(nat \<times> int) list \<Rightarrow> int \<Rightarrow> int list \<times> nat list \<Rightarrow> int list \<times> nat list" where
  "smooth_step bounded bounded_total = (\<lambda>(current, order).
     let current = map2 (\<lambda>(_, weight) c. i64_sat (c + weight)) bounded current;
         best = best_slot current
     in (current[best := i64_sat (current ! best - bounded_total)], order @ [fst (bounded ! best)]))"

definition build_smooth_wrr_order :: "(nat \<times> u32) list \<Rightarrow> WrrOrderBuild" where
  "build_smooth_wrr_order weighted =
     (let g = weights_gcd weighted in
      if g = 0 then ZeroWeight
      else
        (let normalized = map (\<lambda>(idx, weight). (idx, ucast (weight div g))) (filter (\<lambda>(_, weight). 0 < weight) weighted);
             total_weight = sum_list (map snd normalized);
             bounded = bound_wrr_weights normalized total_weight;
             bounded_total = sum_list (map snd bounded)
         in
         if bounded_total \<le> 0 then ZeroWeight
         else
           (let steps = nat bounded_total; positive_candidates = length bounded; work = steps * positive_candidates in
            if work < 2 ^ 64 \<and> work \<le> WRR_SMOOTH_BUILD_MAX_WORK
            then Smooth (snd ((smooth_step bounded bounded_total ^^ steps) (replicate positive_candidates 0, [])))
            else LotteryOnly)))"

section \<open>The greatest common divisor\<close>

lemma unat_wrr_gcd [word_arith]: "unat (wrr_gcd a b) = gcd (unat a) (unat b)"
proof (induction a b rule: wrr_gcd.induct)
  case (1 a b)
  show ?case
  proof (cases "b = 0")
    case False
    then have "unat b \<noteq> 0" by (simp add: unat_eq_0)
    then show ?thesis
      using 1 [OF False] False by (simp add: wrr_gcd.simps [of a] unat_mod gcd_non_0_nat gcd.commute)
  qed (simp add: wrr_gcd.simps)
qed

lemma fold_gcd:
  "unat (fold (\<lambda>(_, weight) g. if weight = 0 then g else if g = 0 then weight else wrr_gcd g weight) weighted g)
     = fold (\<lambda>(_, weight) g. gcd g (unat weight)) weighted (unat g)"
proof (induction weighted arbitrary: g)
  case (Cons x weighted)
  obtain idx weight where x: "x = (idx, weight)" by (cases x)
  show ?case
    by (simp add: x Cons.IH unat_wrr_gcd unat_eq_0)
qed simp

lemma fold_gcd_Gcd: "fold (\<lambda>(_, weight) g. gcd g (unat weight)) weighted g = Gcd (insert g ((unat \<circ> snd) ` set weighted))"
  by (induction weighted arbitrary: g) (auto simp: gcd.assoc gcd.left_commute)

lemma unat_weights_gcd: "unat (weights_gcd weighted) = Gcd ((unat \<circ> snd) ` set weighted)"
  by (simp add: weights_gcd_def fold_gcd fold_gcd_Gcd)

section \<open>One period of the smooth algorithm\<close>

lemma i64_sat_id: "i64_min \<le> x \<Longrightarrow> x \<le> i64_max \<Longrightarrow> i64_sat x = x"
  by (simp add: i64_sat_def clamp_def)

definition scan_best :: "(nat \<times> int) list \<Rightarrow> nat \<times> int \<Rightarrow> nat \<times> int" where
  "scan_best = fold (\<lambda>(slot, c) (best, best_current). if best_current < c then (slot, c) else (best, best_current))"

lemma scan_best_simps [simp]:
  "scan_best [] st = st"
  "scan_best ((slot, c) # xs) (b, bc) = scan_best xs (if bc < c then (slot, c) else (b, bc))"
  by (simp_all add: scan_best_def)

lemma scan_best_max:
  "case scan_best (enumerate s xs) (b, bc) of (r, rc) \<Rightarrow>
     bc \<le> rc \<and> (\<forall>x \<in> set xs. x \<le> rc) \<and> ((r, rc) = (b, bc) \<or> s \<le> r \<and> r < s + length xs \<and> rc = xs ! (r - s))"
proof (induction xs arbitrary: s b bc)
  case (Cons x xs)
  show ?case
  proof (cases "bc < x")
    case True
    with Cons.IH [where s = "Suc s" and b = s and bc = x] show ?thesis
      by (auto simp: nth_Cons' split: prod.splits)
  next
    case False
    with Cons.IH [where s = "Suc s" and b = b and bc = bc] show ?thesis
      by (auto simp: nth_Cons' split: prod.splits)
  qed
qed simp

lemma best_slot_max:
  assumes "xs \<noteq> []" and "\<And>x. x \<in> set xs \<Longrightarrow> i64_min < x"
  shows "best_slot xs < length xs" and "\<And>x. x \<in> set xs \<Longrightarrow> x \<le> xs ! best_slot xs"
proof -
  obtain r rc where r: "scan_best (enumerate 0 xs) (0, i64_min) = (r, rc)" by (metis surj_pair)
  then have slot: "best_slot xs = r" by (simp add: best_slot_def scan_best_def)
  have *: "(\<forall>x \<in> set xs. x \<le> rc) \<and> ((r, rc) = (0, i64_min) \<or> r < length xs \<and> rc = xs ! r)"
    using scan_best_max [where s = 0 and xs = xs and b = 0 and bc = i64_min] unfolding r by auto
  obtain x where x: "x \<in> set xs" using assms(1) by (cases xs) auto
  with * assms(2) have "i64_min < rc" by force
  with * have "r < length xs \<and> rc = xs ! r" by auto
  with * show "best_slot xs < length xs" "\<And>x. x \<in> set xs \<Longrightarrow> x \<le> xs ! best_slot xs"
    by (auto simp: slot)
qed

lemma sum_list_update: "k < length xs \<Longrightarrow> sum_list (xs[k := x]) = sum_list xs - xs ! k + x" for x :: int
  by (induction xs arbitrary: k) (auto simp: nth_Cons' split: nat.splits)

lemma sum_list_map2_add: "length xs = length ys \<Longrightarrow> sum_list (map2 (+) xs ys) = sum_list xs + sum_list ys" for xs :: "int list"
  by (induction xs ys rule: list_induct2) auto

lemma sum_list_lower: "(\<And>x. x \<in> set xs \<Longrightarrow> l \<le> x) \<Longrightarrow> int (length xs) * l \<le> sum_list xs" for xs :: "int list"
  by (induction xs) (force simp: algebra_simps)+

lemma sum_list_positive: "xs \<noteq> [] \<Longrightarrow> (\<And>x. x \<in> set xs \<Longrightarrow> 0 < x) \<Longrightarrow> 0 < sum_list xs" for xs :: "int list"
proof (induction xs)
  case (Cons x xs)
  have "0 \<le> sum_list xs" using Cons.prems(2) by (intro sum_list_nonneg) (simp add: order_less_imp_le)
  moreover have "0 < x" using Cons.prems(2) by simp
  ultimately show ?case by simp
qed simp

text \<open>
  The state of the loop: the current weights sum to zero and none is as low as minus the total, so each
  is below the number of targets times the total, far from the bounds of a signed word.
\<close>

definition period_ok :: "int list \<Rightarrow> bool" where
  "period_ok ws \<longleftrightarrow> ws \<noteq> [] \<and> (\<forall>w \<in> set ws. 0 < w) \<and> int (length ws) * sum_list ws \<le> 2 ^ 61"

definition currents_ok :: "int list \<Rightarrow> int list \<Rightarrow> bool" where
  "currents_ok ws cs \<longleftrightarrow> length cs = length ws \<and> sum_list cs = 0 \<and> (\<forall>c \<in> set cs. - sum_list ws < c)"

lemma period_total: "period_ok ws \<Longrightarrow> 0 < sum_list ws \<and> sum_list ws \<le> 2 ^ 61"
proof -
  assume ok: "period_ok ws"
  then have pos: "0 < sum_list ws" by (auto simp: period_ok_def intro: sum_list_positive)
  have "1 \<le> int (length ws)" using ok by (cases ws) (auto simp: period_ok_def)
  then have "1 * sum_list ws \<le> int (length ws) * sum_list ws"
    using pos by (intro mult_right_mono) auto
  then have "sum_list ws \<le> int (length ws) * sum_list ws" by simp
  moreover have "int (length ws) * sum_list ws \<le> 2 ^ 61" using ok by (simp add: period_ok_def)
  ultimately show ?thesis using pos by linarith
qed

lemma currents_upper:
  assumes "period_ok ws" "currents_ok ws cs" "c \<in> set cs"
  shows "c \<le> 2 ^ 61"
proof -
  let ?T = "sum_list ws"
  obtain as bs where cs: "cs = as @ c # bs" using assms(3) by (auto dest: split_list)
  have "int (length (as @ bs)) * (- ?T) \<le> sum_list (as @ bs)"
    using assms(2) by (intro sum_list_lower) (auto simp: currents_ok_def cs intro: order_less_imp_le)
  moreover have "sum_list (as @ bs) = - c" using assms(2) by (simp add: currents_ok_def cs)
  moreover have "int (length (as @ bs)) * ?T \<le> int (length ws) * ?T"
    using assms period_total [OF assms(1)] by (intro mult_right_mono) (auto simp: currents_ok_def cs)
  ultimately show ?thesis using assms(1) by (simp add: period_ok_def)
qed

lemma advance_exact:
  assumes "period_ok ws" "currents_ok ws cs" "ws = map snd bounded"
  shows "map2 (\<lambda>(_, weight) c. i64_sat (c + weight)) bounded cs = map2 (+) ws cs"
proof (rule nth_equalityI)
  have len: "length cs = length bounded" using assms by (simp add: currents_ok_def)
  then show "length (map2 (\<lambda>(_, weight) c. i64_sat (c + weight)) bounded cs) = length (map2 (+) ws cs)"
    by (simp add: assms(3))
  fix i assume "i < length (map2 (\<lambda>(_, weight) c. i64_sat (c + weight)) bounded cs)"
  then have i: "i < length bounded" by (simp add: len)
  let ?w = "snd (bounded ! i)" and ?c = "cs ! i"
  have w: "?w \<in> set ws" and c: "?c \<in> set cs" using i len by (auto simp: assms(3))
  have "?w \<le> sum_list ws"
    using w assms(1) by (intro member_le_sum_list) (auto simp: period_ok_def)
  then have "0 < ?w" "?w \<le> 2 ^ 61" "- (2 ^ 61) < ?c" "?c \<le> 2 ^ 61"
    using w c assms(1,2) period_total [OF assms(1)] currents_upper [OF assms(1,2) c]
    by (auto simp: period_ok_def currents_ok_def)
  then have "i64_sat (?c + ?w) = ?c + ?w" by (intro i64_sat_id) auto
  then show "map2 (\<lambda>(_, weight) c. i64_sat (c + weight)) bounded cs ! i = map2 (+) ws cs ! i"
    using i by (simp add: len assms(3) split_beta)
qed

lemma smooth_step_exact:
  assumes "period_ok ws" "currents_ok ws cs" "ws = map snd bounded"
  obtains best where "best < length ws"
    and "smooth_step bounded (sum_list ws) (cs, order) =
           ((map2 (+) ws cs)[best := ws ! best + cs ! best - sum_list ws], order @ [fst (bounded ! best)])"
    and "currents_ok ws ((map2 (+) ws cs)[best := ws ! best + cs ! best - sum_list ws])"
proof -
  let ?T = "sum_list ws" and ?a = "map2 (+) ws cs"
  let ?b = "best_slot ?a"
  have len: "length cs = length ws" "sum_list cs = 0" using assms(2) by (simp_all add: currents_ok_def)
  have low: "- ?T < x" if "x \<in> set ?a" for x
  proof -
    from that obtain i where i: "i < length ws" "x = ws ! i + cs ! i"
      using len by (auto simp: in_set_conv_nth)
    then have "0 < ws ! i" "- ?T < cs ! i" using assms(1,2) len(1) by (auto simp: period_ok_def currents_ok_def)
    with i show ?thesis by simp
  qed
  have "?a \<noteq> []" using assms(1) len by (cases ws; cases cs) (auto simp: period_ok_def)
  moreover have "i64_min < x" if "x \<in> set ?a" for x
    using low [OF that] period_total [OF assms(1)] by simp
  ultimately have b: "?b < length ws" and max: "\<And>x. x \<in> set ?a \<Longrightarrow> x \<le> ?a ! ?b"
    using best_slot_max [of ?a] len(1) by auto
  have ab: "?a ! ?b = ws ! ?b + cs ! ?b" using b len by simp
  have sum: "sum_list ?a = ?T" using len by (simp add: sum_list_map2_add)
  have pos: "0 < ?a ! ?b"
  proof (rule ccontr)
    assume "\<not> 0 < ?a ! ?b"
    then have "\<And>x. x \<in> set ?a \<Longrightarrow> x \<le> 0" using max by force
    then have "sum_list ?a \<le> 0" by (intro sum_list_nonpos) auto
    with sum period_total [OF assms(1)] show False by simp
  qed
  have "cs ! ?b \<le> 2 ^ 61" using b len(1) by (intro currents_upper [OF assms(1,2)]) simp
  moreover have "ws ! ?b \<le> ?T"
    using assms(1) b by (intro member_le_sum_list) (auto simp: period_ok_def intro: order_less_imp_le)
  ultimately have sat: "i64_sat (?a ! ?b - ?T) = ?a ! ?b - ?T"
    using pos period_total [OF assms(1)] ab by (intro i64_sat_id) auto
  have ok: "currents_ok ws (?a[?b := ?a ! ?b - ?T])"
    unfolding currents_ok_def
  proof (intro conjI ballI)
    show "sum_list (?a[?b := ?a ! ?b - ?T]) = 0" using b len(1) sum by (simp add: sum_list_update)
    show "- ?T < c" if "c \<in> set (?a[?b := ?a ! ?b - ?T])" for c
      using set_update_subset_insert that pos low by fastforce
  qed (simp add: len)
  show thesis
    using b sat ok
    by (intro that [of ?b]) (simp_all add: smooth_step_def Let_def advance_exact [OF assms] ab)
qed

text \<open>
  After \<open>k\<close> turns the current weight of a target is \<open>k\<close> times its weight minus the total times the
  number of times it was picked; after a whole period this is a multiple of the total that is above
  minus the total, and the sum over the targets is zero, so every current weight is back at zero.
\<close>

lemma smooth_steps_inv:
  assumes ok: "period_ok ws" and ws: "ws = map snd bounded" and dist: "distinct (map fst bounded)"
  shows "\<exists>cs order. (smooth_step bounded (sum_list ws) ^^ k) (replicate (length bounded) 0, []) = (cs, order)
           \<and> currents_ok ws cs \<and> length order = k \<and> set order \<subseteq> fst ` set bounded
           \<and> (\<forall>i < length ws. cs ! i = int k * ws ! i - sum_list ws * int (count_list order (fst (bounded ! i))))"
proof (induction k)
  case 0
  show ?case
    using period_total [OF ok] by (auto simp: ws currents_ok_def sum_list_replicate)
next
  case (Suc k)
  let ?T = "sum_list ws"
  obtain cs order where IH: "(smooth_step bounded ?T ^^ k) (replicate (length bounded) 0, []) = (cs, order)"
    "currents_ok ws cs" "length order = k" "set order \<subseteq> fst ` set bounded"
    "\<And>i. i < length ws \<Longrightarrow> cs ! i = int k * ws ! i - ?T * int (count_list order (fst (bounded ! i)))"
    using Suc.IH by auto
  obtain best where best: "best < length ws"
    and step: "smooth_step bounded ?T (cs, order) =
           ((map2 (+) ws cs)[best := ws ! best + cs ! best - ?T], order @ [fst (bounded ! best)])"
    and cok: "currents_ok ws ((map2 (+) ws cs)[best := ws ! best + cs ! best - ?T])"
    by (rule smooth_step_exact [OF ok IH(2) ws])
  have len: "length cs = length ws" using IH(2) by (simp add: currents_ok_def)
  have other: "fst (bounded ! i) \<noteq> fst (bounded ! best)" if "i < length ws" "i \<noteq> best" for i
    using dist that best nth_eq_iff_index_eq [OF dist, of i best] by (simp add: ws)
  let ?cs = "(map2 (+) ws cs)[best := ws ! best + cs ! best - ?T]" and ?o = "order @ [fst (bounded ! best)]"
  have "?cs ! i = int (Suc k) * ws ! i - ?T * int (count_list ?o (fst (bounded ! i)))" if i: "i < length ws" for i
    using IH(5) [OF i] other [OF i] i len by (cases "i = best") (auto simp: algebra_simps)
  moreover have "fst (bounded ! best) \<in> fst ` set bounded" using best by (simp add: ws)
  ultimately show ?case
    using IH(1,3,4) cok by (intro exI [of _ ?cs] exI [of _ ?o]) (simp add: step)
qed

lemma smooth_period:
  assumes ok: "period_ok ws" and ws: "ws = map snd bounded" and dist: "distinct (map fst bounded)"
  obtains cs order
  where "(smooth_step bounded (sum_list ws) ^^ nat (sum_list ws)) (replicate (length bounded) 0, []) = (cs, order)"
    and "int (length order) = sum_list ws" and "set order \<subseteq> fst ` set bounded"
    and "\<And>idx w. (idx, w) \<in> set bounded \<Longrightarrow> int (count_list order idx) = w"
    and "cs = replicate (length bounded) 0"
proof -
  let ?T = "sum_list ws"
  have T: "0 < ?T" using period_total [OF ok] by simp
  obtain cs order where r: "(smooth_step bounded ?T ^^ nat ?T) (replicate (length bounded) 0, []) = (cs, order)"
    "currents_ok ws cs" "length order = nat ?T" "set order \<subseteq> fst ` set bounded"
    and c: "\<And>i. i < length ws \<Longrightarrow> cs ! i = ?T * (ws ! i - int (count_list order (fst (bounded ! i))))"
    using smooth_steps_inv [OF ok ws dist, of "nat ?T"] T by (auto simp: algebra_simps)
  have len: "length cs = length ws" using r(2) by (simp add: currents_ok_def)
  have nonneg: "0 \<le> cs ! i" if i: "i < length ws" for i
  proof -
    have "- ?T < cs ! i" using r(2) i len by (simp add: currents_ok_def)
    then have "?T * (- 1) < ?T * (ws ! i - int (count_list order (fst (bounded ! i))))" using c [OF i] by simp
    then have "- 1 < ws ! i - int (count_list order (fst (bounded ! i)))" using T by (simp only: mult_less_cancel_left_pos)
    then show ?thesis using c [OF i] T by simp
  qed
  have "\<forall>c \<in> set cs. 0 \<le> c" using nonneg len by (auto simp: in_set_conv_nth)
  then have "\<forall>c \<in> set cs. c = 0"
    using r(2) sum_list_nonneg_eq_0_iff [of cs] by (auto simp: currents_ok_def)
  then have zero: "cs = replicate (length bounded) 0" using len by (simp add: ws replicate_eqI)
  have "int (count_list order idx) = w" if "(idx, w) \<in> set bounded" for idx w
  proof -
    from that obtain i where i: "i < length bounded" "bounded ! i = (idx, w)" by (auto simp: in_set_conv_nth)
    then show ?thesis using c [of i] T by (simp add: ws zero)
  qed
  then show thesis using r T zero by (intro that [of cs order]) auto
qed

section \<open>Apportionment of a capped period\<close>

lemma bump_slots:
  assumes "distinct (map fst rs)" "fst ` set rs \<subseteq> {..<length ws}" "\<And>i. i < length ws \<Longrightarrow> \<bar>snd (ws ! i)\<bar> < i64_max"
  shows "length (fold (\<lambda>(slot, _) ws. ws[slot := (fst (ws ! slot), i64_sat (snd (ws ! slot) + 1))]) rs ws) = length ws
         \<and> (\<forall>i < length ws. fold (\<lambda>(slot, _) ws. ws[slot := (fst (ws ! slot), i64_sat (snd (ws ! slot) + 1))]) rs ws ! i
              = (fst (ws ! i), snd (ws ! i) + (if i \<in> fst ` set rs then 1 else 0)))"
  using assms
proof (induction rs arbitrary: ws rule: rev_induct)
  case (snoc r rs)
  let ?f = "fold (\<lambda>(slot, _) ws. ws[slot := (fst (ws ! slot), i64_sat (snd (ws ! slot) + 1))])"
  obtain slot x where r: "r = (slot, x)" by (cases r)
  have IH: "length (?f rs ws) = length ws"
    "\<And>i. i < length ws \<Longrightarrow> ?f rs ws ! i = (fst (ws ! i), snd (ws ! i) + (if i \<in> fst ` set rs then 1 else 0))"
    using snoc by (simp_all add: r)
  have slot: "slot < length ws" "slot \<notin> fst ` set rs" using snoc.prems by (auto simp: r)
  then have "i64_sat (snd (ws ! slot) + 1) = snd (ws ! slot) + 1"
    using snoc.prems(3) [of slot] by (intro i64_sat_id) auto
  then show ?case
    using IH slot by (auto simp: r nth_list_update)
qed simp

lemma sum_list_nth: "sum_list (map f xs) = (\<Sum>i < length xs. f (xs ! i))"
  by (simp add: sum_list_sum_nth atLeast0LessThan)

text \<open>The integer quotas of the apportionment, before and after the leftover slots are dealt out.\<close>

lemma leftover_bound:
  fixes a :: "nat \<Rightarrow> nat"
  assumes "(\<Sum>i < n. a i) = W" "0 < W"
  shows "(\<Sum>i < n. a i * r div W) \<le> r" and "(r - (\<Sum>i < n. a i * r div W)) * W = (\<Sum>i < n. a i * r mod W)"
proof -
  have "W * r = (\<Sum>i < n. a i * r)" using assms(1) by (simp add: sum_distrib_right [symmetric])
  also have "\<dots> = (\<Sum>i < n. (a i * r div W) * W + a i * r mod W)" by (simp add: div_mult_mod_eq)
  finally have eq: "W * r = (\<Sum>i < n. a i * r div W) * W + (\<Sum>i < n. a i * r mod W)"
    by (simp only: sum.distrib sum_distrib_right)
  then have "(\<Sum>i < n. a i * r div W) * W \<le> r * W" by (simp add: mult.commute)
  then show le: "(\<Sum>i < n. a i * r div W) \<le> r" using assms(2) by simp
  show "(r - (\<Sum>i < n. a i * r div W)) * W = (\<Sum>i < n. a i * r mod W)"
    using eq by (simp add: diff_mult_distrib mult.commute [of r W])
qed

text \<open>Slots are dealt to the largest remainders, and there are more positive remainders than slots.\<close>

lemma dealt_positive:
  fixes rs :: "('a \<times> nat) list"
  assumes sorted: "sorted_wrt (\<lambda>x y. snd y \<le> snd x) rs" and small: "\<And>x. x \<in> set rs \<Longrightarrow> snd x < W"
    and total: "k * W = (\<Sum>x\<leftarrow>rs. snd x)" and x: "x \<in> set (take k rs)"
  shows "0 < snd x"
proof (rule ccontr)
  assume "\<not> 0 < snd x"
  then obtain i where i: "i < k" "i < length rs" "snd (rs ! i) = 0"
    using x by (auto simp: in_set_conv_nth)
  have "snd (rs ! (i + j)) = 0" if "i + j < length rs" for j
    using sorted_wrt_nth_less [OF sorted, of i "i + j"] that i by (cases j) auto
  then have "\<And>y. y \<in> set (drop i rs) \<Longrightarrow> snd y = 0"
  proof -
    fix y assume "y \<in> set (drop i rs)"
    then obtain j where "j < length rs - i" "y = rs ! (i + j)" by (auto simp: in_set_conv_nth)
    with \<open>\<And>j. i + j < length rs \<Longrightarrow> snd (rs ! (i + j)) = 0\<close> [of j] show "snd y = 0" by simp
  qed
  then have "(\<Sum>x\<leftarrow>drop i rs. snd x) = 0" by (simp add: sum_list_eq_0_iff)
  moreover have "(\<Sum>x\<leftarrow>rs. snd x) = (\<Sum>x\<leftarrow>take i rs. snd x) + (\<Sum>x\<leftarrow>drop i rs. snd x)"
    by (simp flip: sum_list_append map_append)
  moreover have "(\<Sum>x\<leftarrow>take i rs. snd x) \<le> (\<Sum>x\<leftarrow>take i rs. W)"
    using small by (intro sum_list_mono) (auto dest: in_set_takeD intro: order_less_imp_le)
  moreover have "(\<Sum>x\<leftarrow>take i rs. W) = i * W" using i by (simp add: sum_list_triv)
  ultimately have "k * W \<le> i * W" using total by linarith
  moreover have "0 < W" using small [of "rs ! i"] i by (cases W) auto
  ultimately show False using i(1) by simp
qed

text \<open>What the apportionment needs of a list of normalised weights: their total does not wrap.\<close>

definition total_exact :: "(nat \<times> u64) list \<Rightarrow> u64 \<Rightarrow> bool" where
  "total_exact normalized total_weight \<longleftrightarrow>
     unat total_weight = (\<Sum>p\<leftarrow>normalized. unat (snd p)) \<and> length normalized < 2 ^ 32"

lemma unat_u64_u128 [word_arith]: "unat (ucast (w :: u64) :: u128) = unat w"
proof -
  have "unat w < 2 ^ 64" by (rule order_less_le_trans [OF unsigned_less]) simp
  then have "unat w < 2 ^ 128" by simp
  then show ?thesis by (simp add: unsigned_ucast_eq take_bit_nat_eq_self)
qed

lemma numerator_exact:
  assumes "r < 2 ^ 63"
  shows "unat (saturating_mul (ucast (w :: u64)) (of_nat r :: u128)) = unat w * r"
proof -
  have w: "unat w < 2 ^ 64" by (rule order_less_le_trans [OF unsigned_less]) simp
  have r: "unat (of_nat r :: u128) = r" using assms by (simp add: unsigned_of_nat take_bit_nat_eq_self)
  have "unat w * r \<le> 2 ^ 64 * 2 ^ 63" using w assms by (intro mult_mono) auto
  then show ?thesis by (simp add: unat_saturating_mul r unat_u64_u128 min_def)
qed

lemma extra_slots_exact:
  assumes "r < 2 ^ 63" "unat w \<le> unat W" "0 < unat W"
  shows "extra_slots (saturating_mul (ucast (w :: u64)) (of_nat r)) (max (ucast (W :: u64)) 1) = unat w * r div unat W"
    and "unat (saturating_mul (ucast (w :: u64)) (of_nat r) mod (max (ucast (W :: u64)) 1 :: u128)) = unat w * r mod unat W"
proof -
  have W: "unat (max (ucast W) (1 :: u128)) = unat W"
    using assms(3) by (simp add: max_def word_le_nat_alt unat_u64_u128)
  have "unat w * r div unat W \<le> unat W * r div unat W" using assms(2) by (intro div_le_mono mult_right_mono) auto
  then have "unat w * r div unat W < 2 ^ 64" using assms by simp
  then show "extra_slots (saturating_mul (ucast w) (of_nat r)) (max (ucast W) 1) = unat w * r div unat W"
    by (simp add: extra_slots_def Let_def unat_div numerator_exact [OF assms(1)] W)
  show "unat (saturating_mul (ucast w) (of_nat r) mod (max (ucast W) 1 :: u128)) = unat w * r mod unat W"
    by (simp add: unat_mod numerator_exact [OF assms(1)] W)
qed

lemma fold_saturating_sum:
  fixes e :: "'a \<Rightarrow> nat"
  shows "s + (\<Sum>x\<leftarrow>xs. e x) \<le> M \<Longrightarrow> fold (\<lambda>x a. min (a + e x) M) xs s = s + (\<Sum>x\<leftarrow>xs. e x)"
  by (induction xs arbitrary: s) (auto simp: algebra_simps)

text \<open>The capped case with its machine arithmetic read as natural numbers.\<close>

abbreviation spare :: "'a list \<Rightarrow> nat" where
  "spare normalized \<equiv> max 8192 (length normalized) - length normalized"

abbreviation quota :: "(nat \<times> u64) list \<Rightarrow> u64 \<Rightarrow> nat \<times> u64 \<Rightarrow> nat" where
  "quota normalized W p \<equiv> unat (snd p) * spare normalized div unat W"

lemma capped_bounds:
  assumes "total_exact normalized W" "max 8192 (length normalized) < unat W"
  shows "0 < unat W" "spare normalized < 2 ^ 63" "length normalized + spare normalized \<le> 2 ^ 33"
    and "(\<Sum>p\<leftarrow>normalized. quota normalized W p) \<le> spare normalized"
    and "\<And>p. p \<in> set normalized \<Longrightarrow> unat (snd p) \<le> unat W"
    and "\<And>p. p \<in> set normalized \<Longrightarrow> quota normalized W p \<le> spare normalized"
proof -
  show W: "0 < unat W" using assms by simp
  show "spare normalized < 2 ^ 63" "length normalized + spare normalized \<le> 2 ^ 33"
    using assms by (auto simp: total_exact_def max_def)
  have sum: "(\<Sum>p\<leftarrow>normalized. unat (snd p)) = unat W" using assms by (simp add: total_exact_def)
  then show "(\<Sum>p\<leftarrow>normalized. quota normalized W p) \<le> spare normalized"
    using leftover_bound(1) [of "\<lambda>i. unat (snd (normalized ! i))" "length normalized" "unat W" "spare normalized"] W
    by (simp add: sum_list_nth)
  show le: "unat (snd p) \<le> unat W" if "p \<in> set normalized" for p
    unfolding sum [symmetric] using that by (intro member_le_sum_list) auto
  show "quota normalized W p \<le> spare normalized" if "p \<in> set normalized" for p
  proof -
    have "quota normalized W p \<le> unat W * spare normalized div unat W"
      by (intro div_le_mono mult_right_mono le [OF that]) simp
    then show ?thesis using W by simp
  qed
qed

lemma bound_capped_closed:
  assumes "total_exact normalized W" and big: "max 8192 (length normalized) < unat W"
  defines "num \<equiv> \<lambda>w :: u64. saturating_mul (ucast w) (of_nat (spare normalized) :: u128)" and "den \<equiv> max (ucast W) (1 :: u128)"
  shows "bound_wrr_weights normalized W =
      fold (\<lambda>(slot, _) ws. ws[slot := (fst (ws ! slot), i64_sat (snd (ws ! slot) + 1))])
        (take (spare normalized - (\<Sum>p\<leftarrow>normalized. quota normalized W p))
           (sort_key (\<lambda>(slot, remainder). (- uint remainder, slot))
             (map (\<lambda>(slot, idx, weight). (slot, num weight mod den)) (enumerate 0 normalized))))
        (map (\<lambda>p. (fst p, 1 + int (quota normalized W p))) normalized)"
proof -
  note b = capped_bounds [OF assms(1,2)]
  have ex: "extra_slots (num (snd p)) den = quota normalized W p" if "p \<in> set normalized" for p
    unfolding num_def den_def using extra_slots_exact(1) [OF b(2) b(5) [OF that] b(1)] .
  have ap: "map (\<lambda>(idx, weight). (idx, min (int (min (extra_slots (num weight) den + 1) (2 ^ 64 - 1))) i64_max)) normalized
      = map (\<lambda>p. (fst p, 1 + int (quota normalized W p))) normalized"
  proof (rule map_cong [OF refl])
    fix p assume p: "p \<in> set normalized"
    have "quota normalized W p + 1 \<le> 2 ^ 33 + 1" using b(3) b(6) [OF p] by linarith
    then show "(case p of (idx, weight) \<Rightarrow> (idx, min (int (min (extra_slots (num weight) den + 1) (2 ^ 64 - 1))) i64_max))
        = (fst p, 1 + int (quota normalized W p))"
      using ex [OF p] by (simp add: split_beta min_def)
  qed
  have "length normalized + (\<Sum>p\<leftarrow>normalized. quota normalized W p) \<le> 2 ^ 33" using b(3,4) by linarith
  then have "length normalized + (\<Sum>p\<leftarrow>normalized. quota normalized W p) \<le> 2 ^ 64 - 1" by simp
  then have "fold (\<lambda>p a. min (a + quota normalized W p) (2 ^ 64 - 1)) normalized (length normalized)
      = length normalized + (\<Sum>p\<leftarrow>normalized. quota normalized W p)"
    by (rule fold_saturating_sum)
  moreover have "fold (\<lambda>(idx, weight) a. min (a + extra_slots (num weight) den) (2 ^ 64 - 1)) normalized (length normalized)
      = fold (\<lambda>p a. min (a + quota normalized W p) (2 ^ 64 - 1)) normalized (length normalized)"
    using ex by (intro fold_cong) (auto simp: split_beta)
  ultimately have asg: "max 8192 (length normalized)
        - fold (\<lambda>(idx, weight) a. min (a + extra_slots (num weight) den) (2 ^ 64 - 1)) normalized (length normalized)
      = spare normalized - (\<Sum>p\<leftarrow>normalized. quota normalized W p)"
    by simp
  show ?thesis
    using big ap asg unfolding num_def den_def bound_wrr_weights_def Let_def not_le [symmetric] by (simp only: if_False)
qed

text \<open>The slots in the order in which the leftover is dealt.\<close>

lemma sorted_by_remainder:
  fixes xs :: "(nat \<times> u128) list"
  shows "sorted_wrt (\<lambda>x y. snd y \<le> snd x) (map (map_prod id unat) (sort_key (\<lambda>(slot, remainder). (- uint remainder, slot)) xs))"
proof -
  have "sorted_wrt (\<lambda>x y. (case x of (slot, remainder) \<Rightarrow> (- uint remainder, slot))
      \<le> (case y of (slot, remainder) \<Rightarrow> (- uint remainder, slot))) (sort_key (\<lambda>(slot, remainder). (- uint remainder, slot)) xs)"
    using sorted_sort_key by (simp only: sorted_map)
  then show ?thesis
    unfolding sorted_wrt_map
    by (rule sorted_wrt_mono_rel [rotated]) (auto simp: less_eq_prod_def word_le_def word_le_nat_alt [symmetric] split: prod.splits)
qed

lemma dealt_slots:
  assumes "total_exact normalized W" "max 8192 (length normalized) < unat W"
  defines "q \<equiv> \<lambda>i. unat (snd (normalized ! i)) * spare normalized"
  defines "rs \<equiv> sort_key (\<lambda>(slot, remainder :: u128). (- uint remainder, slot))
      (map (\<lambda>(slot, idx, weight). (slot, saturating_mul (ucast weight) (of_nat (spare normalized)) mod max (ucast W) 1)) (enumerate 0 normalized))"
  defines "k \<equiv> spare normalized - (\<Sum>p\<leftarrow>normalized. quota normalized W p)"
  shows "distinct (map fst rs)" "fst ` set rs = {..<length normalized}" "k \<le> length rs"
    and "\<And>i x. (i, x) \<in> set (take k rs) \<Longrightarrow> i < length normalized \<and> q i mod unat W \<noteq> 0"
proof -
  note b = capped_bounds [OF assms(1,2)]
  let ?rems = "map (\<lambda>(slot, idx, weight). (slot, saturating_mul (ucast weight) (of_nat (spare normalized) :: u128) mod max (ucast W) 1)) (enumerate 0 normalized)"
  have fst: "map fst ?rems = [0..<length normalized]"
    by (simp add: comp_def split_beta map_fst_enumerate cong: map_cong)
  have m: "unat (saturating_mul (ucast (snd (normalized ! i))) (of_nat (spare normalized)) mod max (ucast W) (1 :: u128)) = q i mod unat W"
    if "i < length normalized" for i
    unfolding q_def by (rule extra_slots_exact(2) [OF b(2) b(5) [OF nth_mem [OF that]] b(1)])
  have rem: "map (map_prod id unat) ?rems = map (\<lambda>i. (i, q i mod unat W)) [0..<length normalized]"
    by (rule nth_equalityI) (simp_all add: nth_enumerate_eq m split_beta del: of_nat_diff)
  have perm: "mset rs = mset ?rems" by (simp add: rs_def)
  then have "mset (map fst rs) = mset [0..<length normalized]" by (simp only: mset_map fst flip: fst)
  then show dist: "distinct (map fst rs)" and set: "fst ` set rs = {..<length normalized}"
    by (metis distinct_upt mset_eq_imp_distinct_iff, metis atLeast0LessThan atLeastLessThan_upt list.set_map mset_eq_setD)
  have pm: "mset (map (map_prod id unat) rs) = mset (map (\<lambda>i. (i, q i mod unat W)) [0..<length normalized])"
    by (simp only: mset_map perm flip: rem)
  have kW: "k * unat W = (\<Sum>i < length normalized. q i mod unat W)"
    using leftover_bound(2) [of "\<lambda>i. unat (snd (normalized ! i))" "length normalized" "unat W" "spare normalized"] assms(1) b(1)
    by (simp add: k_def q_def total_exact_def sum_list_nth)
  also have "\<dots> \<le> (\<Sum>i < length normalized. unat W)"
    using b(1) by (intro sum_mono) (simp add: order_less_imp_le)
  finally have "k \<le> length normalized" using b(1) by simp
  then show "k \<le> length rs" using perm mset_eq_length [OF perm] by simp
  show "i < length normalized \<and> q i mod unat W \<noteq> 0" if x: "(i, x) \<in> set (take k rs)" for i x
  proof -
    let ?ys = "map (map_prod id unat) rs"
    have in_ys: "(i, unat x) \<in> set (take k ?ys)" using x by (force simp: take_map)
    have mem: "y \<in> set ?ys \<Longrightarrow> \<exists>i < length normalized. y = (i, q i mod unat W)" for y
      using mset_eq_setD [OF pm] by auto
    have "sum_list (map snd ?ys) = sum_list (map snd (map (\<lambda>i. (i, q i mod unat W)) [0..<length normalized]))"
      using arg_cong [OF pm, of "\<lambda>M. sum_mset (image_mset snd M)"] by (simp only: mset_map [symmetric] sum_mset_sum_list)
    also have "\<dots> = k * unat W" by (simp add: kW comp_def interv_sum_list_conv_sum_set_nat atLeast0LessThan)
    finally have total: "k * unat W = (\<Sum>y\<leftarrow>?ys. snd y)" by (rule sym)
    have small: "snd y < unat W" if "y \<in> set ?ys" for y using mem [OF that] b(1) by auto
    have "sorted_wrt (\<lambda>x y. snd y \<le> snd x) ?ys" unfolding rs_def by (rule sorted_by_remainder)
    then have "0 < snd (i, unat x)" by (rule dealt_positive [OF _ small total in_ys])
    then show ?thesis using mem [of "(i, unat x)"] in_ys by (auto dest: in_set_takeD)
  qed
qed

text \<open>Dealing one slot each to the first \<open>k\<close> of the ordered targets.\<close>

lemma deal_out:
  fixes Q :: "nat \<times> u64 \<Rightarrow> nat" and rs :: "(nat \<times> u128) list"
  assumes dealt: "ws = fold (\<lambda>(slot, _) ws. ws[slot := (fst (ws ! slot), i64_sat (snd (ws ! slot) + 1))])
                        (take k rs) (map (\<lambda>p. (fst p, 1 + int (Q p))) xs)"
    and rs: "distinct (map fst rs)" "fst ` set rs = {..<length xs}" "k \<le> length rs"
    and small: "\<forall>p \<in> set xs. Q p \<le> 2 ^ 33"
  shows "length ws = length xs"
    and "\<And>i. i < length xs \<Longrightarrow> ws ! i = (fst (xs ! i), 1 + int (Q (xs ! i)) + (if i \<in> fst ` set (take k rs) then 1 else 0))"
    and "sum_list (map snd ws) = int (length xs) + int (\<Sum>p\<leftarrow>xs. Q p) + int k"
proof -
  let ?ap = "map (\<lambda>p. (fst p, 1 + int (Q p))) xs" and ?D = "fst ` set (take k rs)"
  have dist: "distinct (map fst (take k rs))" using rs(1) by (simp add: take_map [symmetric])
  have D: "?D \<subseteq> {..<length ?ap}" using rs(2) by (auto dest: in_set_takeD)
  have "\<bar>snd (?ap ! i)\<bar> < i64_max" if "i < length ?ap" for i
    using small [rule_format, of "xs ! i"] that by simp
  from bump_slots [OF dist D this]
  show len: "length ws = length xs"
    and nth: "\<And>i. i < length xs \<Longrightarrow> ws ! i = (fst (xs ! i), 1 + int (Q (xs ! i)) + (if i \<in> ?D then 1 else 0))"
    by (simp_all add: dealt)
  have "card ?D = k" using distinct_card [OF dist] rs(3) by simp
  moreover have "sum_list (map snd ws) = (\<Sum>i < length xs. 1 + int (Q (xs ! i)) + (if i \<in> ?D then 1 else 0))"
    unfolding sum_list_nth len by (rule sum.cong) (simp_all add: nth)
  moreover have "(\<Sum>i < length xs. if i \<in> ?D then 1 else 0 :: int) = int (card ?D)"
    using D by (simp add: sum.If_cases Int_absorb1)
  ultimately show "sum_list (map snd ws) = int (length xs) + int (\<Sum>p\<leftarrow>xs. Q p) + int k"
    by (simp add: sum.distrib sum_list_nth)
qed

text \<open>
  A capped period is filled exactly, every target keeps a slot, and beyond it the slots of a target are
  its quota of the remaining ones rounded down or up.
\<close>

lemma bound_capped:
  assumes "total_exact normalized W" "max 8192 (length normalized) < unat W"
  shows "length (bound_wrr_weights normalized W) = length normalized"
    and "sum_list (map snd (bound_wrr_weights normalized W)) = int (max 8192 (length normalized))"
    and "\<And>i. i < length normalized \<Longrightarrow> fst (bound_wrr_weights normalized W ! i) = fst (normalized ! i)"
    and "\<And>i. i < length normalized \<Longrightarrow>
           snd (bound_wrr_weights normalized W ! i) = 1 + int (quota normalized W (normalized ! i))
           \<or> snd (bound_wrr_weights normalized W ! i) = 2 + int (quota normalized W (normalized ! i))
             \<and> unat (snd (normalized ! i)) * spare normalized mod unat W \<noteq> 0"
proof -
  let ?n = "length normalized" and ?Q = "quota normalized W"
  note b = capped_bounds [OF assms]
  have small: "\<forall>p \<in> set normalized. ?Q p \<le> 2 ^ 33"
    using b(3,6) by (meson add_leE le_trans)
  obtain rs :: "(nat \<times> u128) list" and k where
    closed: "bound_wrr_weights normalized W =
      fold (\<lambda>(slot, _) ws. ws[slot := (fst (ws ! slot), i64_sat (snd (ws ! slot) + 1))]) (take k rs)
        (map (\<lambda>p. (fst p, 1 + int (?Q p))) normalized)"
    and rs: "distinct (map fst rs)" "fst ` set rs = {..<?n}" "k \<le> length rs"
    and pos: "\<And>i x. (i, x) \<in> set (take k rs) \<Longrightarrow> i < ?n \<and> unat (snd (normalized ! i)) * spare normalized mod unat W \<noteq> 0"
    and k: "k = spare normalized - (\<Sum>p\<leftarrow>normalized. ?Q p)"
    by (rule that [OF bound_capped_closed [OF assms] dealt_slots [OF assms] refl])
  note deal = deal_out [OF closed rs small]
  show "length (bound_wrr_weights normalized W) = ?n" by (rule deal(1))
  have "?n + (\<Sum>p\<leftarrow>normalized. ?Q p) + k = ?n + spare normalized"
    unfolding k using le_add_diff_inverse [OF b(4)] by (simp only: add.assoc)
  also have "\<dots> = max 8192 ?n" by simp
  finally show "sum_list (map snd (bound_wrr_weights normalized W)) = int (max 8192 ?n)"
    unfolding deal(3) by (simp only: of_nat_add [symmetric])
  fix i assume i: "i < ?n"
  have mem: "unat (snd (normalized ! i)) * spare normalized mod unat W \<noteq> 0" if "i \<in> fst ` set (take k rs)"
    using that pos by auto
  show "fst (bound_wrr_weights normalized W ! i) = fst (normalized ! i)" unfolding deal(2) [OF i] by simp
  show "snd (bound_wrr_weights normalized W ! i) = 1 + int (?Q (normalized ! i))
           \<or> snd (bound_wrr_weights normalized W ! i) = 2 + int (?Q (normalized ! i))
             \<and> unat (snd (normalized ! i)) * spare normalized mod unat W \<noteq> 0"
    using mem unfolding deal(2) [OF i] by (cases "i \<in> fst ` set (take k rs)") (simp_all only: if_True if_False snd_conv, simp_all)
qed

section \<open>The order that is built\<close>

text \<open>The normalised weights of the positive targets, as natural numbers.\<close>

definition weight_gcd :: "(nat \<times> u32) list \<Rightarrow> nat" where
  "weight_gcd weighted = Gcd ((unat \<circ> snd) ` set weighted)"

definition positive :: "(nat \<times> u32) list \<Rightarrow> (nat \<times> u32) list" where
  "positive weighted = filter (\<lambda>(_, weight). 0 < weight) weighted"

definition normal_total :: "(nat \<times> u32) list \<Rightarrow> nat" where
  "normal_total weighted = (\<Sum>p\<leftarrow>positive weighted. unat (snd p) div weight_gcd weighted)"

definition schedule_cap :: "(nat \<times> u32) list \<Rightarrow> nat" where
  "schedule_cap weighted = max WRR_MAX_SCHEDULE_LEN (length (positive weighted))"

abbreviation normalize :: "(nat \<times> u32) list \<Rightarrow> (nat \<times> u64) list" where
  "normalize weighted \<equiv> map (\<lambda>(idx, weight). (idx, ucast (weight div weights_gcd weighted))) (positive weighted)"

lemma mem_positive: "(idx, weight) \<in> set (positive weighted) \<longleftrightarrow> (idx, weight) \<in> set weighted \<and> weight \<noteq> 0"
  by (simp add: positive_def word_neq_0_conv)

lemma gcd_zero_iff: "weights_gcd weighted = 0 \<longleftrightarrow> positive weighted = []"
proof -
  have "weights_gcd weighted = 0 \<longleftrightarrow> (unat \<circ> snd) ` set weighted \<subseteq> {0}"
    using unat_weights_gcd [of weighted] by (metis Gcd_0_iff unat_eq_0)
  also have "\<dots> \<longleftrightarrow> positive weighted = []"
    by (auto simp: positive_def filter_empty_conv unat_eq_0 word_neq_0_conv [symmetric] simp del: word_neq_0_conv)
  finally show ?thesis .
qed

lemma unat_normal: "unat (ucast (weight div weights_gcd weighted) :: u64) = unat weight div weight_gcd weighted"
proof -
  have "unat (weight div weights_gcd weighted) < 2 ^ 64"
    by (rule order_less_le_trans [OF unsigned_less]) simp
  then show ?thesis
    by (simp add: unsigned_ucast_eq take_bit_nat_eq_self unat_div unat_weights_gcd weight_gcd_def)
qed

lemma unat_sum_list:
  fixes ws :: "'a::len word list"
  shows "(\<Sum>w\<leftarrow>ws. unat w) < 2 ^ LENGTH('a) \<Longrightarrow> unat (sum_list ws) = (\<Sum>w\<leftarrow>ws. unat w)"
  by (induction ws) (simp_all add: unat_word_ariths)

lemma normal_total_less:
  assumes "length weighted < 2 ^ 32"
  shows "normal_total weighted < 2 ^ 64"
proof -
  have "unat (snd p) div weight_gcd weighted \<le> 2 ^ 32 - 1" for p :: "nat \<times> u32"
  proof -
    have "unat (snd p) < 2 ^ 32" by (rule order_less_le_trans [OF unsigned_less]) simp
    moreover have "unat (snd p) div weight_gcd weighted \<le> unat (snd p)" by (rule div_le_dividend)
    ultimately show ?thesis by linarith
  qed
  then have "normal_total weighted \<le> (\<Sum>p\<leftarrow>positive weighted. 2 ^ 32 - 1)"
    unfolding normal_total_def by (intro sum_list_mono)
  also have "\<dots> = length (positive weighted) * (2 ^ 32 - 1)" by (simp add: sum_list_triv)
  also have "\<dots> \<le> 2 ^ 32 * (2 ^ 32 - 1)"
    using assms length_filter_le [of _ weighted] by (intro mult_right_mono) (simp_all add: positive_def order_trans [OF length_filter_le])
  also have "\<dots> < (2 ^ 64 :: nat)" by simp
  finally show ?thesis .
qed

lemma normalize_exact:
  assumes "length weighted < 2 ^ 32"
  shows "total_exact (normalize weighted) (sum_list (map snd (normalize weighted)))"
    and "unat (sum_list (map snd (normalize weighted))) = normal_total weighted"
proof -
  have sum: "(\<Sum>w\<leftarrow>map snd (normalize weighted). unat w) = normal_total weighted"
    by (simp add: normal_total_def comp_def split_beta unat_normal)
  then show total: "unat (sum_list (map snd (normalize weighted))) = normal_total weighted"
    using normal_total_less [OF assms] unat_sum_list [of "map snd (normalize weighted)"] by simp
  have "length (positive weighted) < 2 ^ 32"
    using assms by (simp add: positive_def le_less_trans [OF length_filter_le])
  then show "total_exact (normalize weighted) (sum_list (map snd (normalize weighted)))"
    using sum unfolding total_exact_def total by (simp add: comp_def)
qed

definition bounded_weights :: "(nat \<times> u32) list \<Rightarrow> (nat \<times> int) list" where
  "bounded_weights weighted = bound_wrr_weights (normalize weighted) (sum_list (map snd (normalize weighted)))"

lemma build_cases:
  "build_smooth_wrr_order weighted =
     (if positive weighted = [] then ZeroWeight
      else
        (let bounded = bounded_weights weighted; bounded_total = sum_list (map snd bounded) in
         if bounded_total \<le> 0 then ZeroWeight
         else if nat bounded_total * length bounded < 2 ^ 64 \<and> nat bounded_total * length bounded \<le> WRR_SMOOTH_BUILD_MAX_WORK
         then Smooth (snd ((smooth_step bounded bounded_total ^^ nat bounded_total) (replicate (length bounded) 0, [])))
         else LotteryOnly))"
  by (simp only: build_smooth_wrr_order_def bounded_weights_def gcd_zero_iff Let_def positive_def)

text \<open>The share of a positive target in a capped schedule: one slot and its quota of the spare ones.\<close>

definition share_ok :: "(nat \<times> u32) list \<Rightarrow> u32 \<Rightarrow> int \<Rightarrow> bool" where
  "share_ok weighted weight slots \<longleftrightarrow>
     (if normal_total weighted \<le> schedule_cap weighted
      then slots * int (weight_gcd weighted) = int (unat weight)
      else
        (let ideal = int (unat weight div weight_gcd weighted) * int (schedule_cap weighted - length (positive weighted))
         in 1 \<le> slots \<and> \<bar>(slots - 1) * int (normal_total weighted) - ideal\<bar> < int (normal_total weighted)))"

lemma weight_gcd_dvd: "p \<in> set weighted \<Longrightarrow> weight_gcd weighted dvd unat (snd p)"
  unfolding weight_gcd_def by (rule Gcd_dvd) auto

lemma normal_positive: "p \<in> set (positive weighted) \<Longrightarrow> 0 < unat (snd p) div weight_gcd weighted"
proof -
  assume p: "p \<in> set (positive weighted)"
  then have pos: "0 < unat (snd p)" and "p \<in> set weighted" by (auto simp: positive_def word_less_nat_alt)
  then obtain k where "unat (snd p) = weight_gcd weighted * k" using weight_gcd_dvd by blast
  moreover from this pos have "0 < weight_gcd weighted" "0 < k" by (cases "weight_gcd weighted"; cases k; simp)+
  ultimately show ?thesis by simp
qed

lemma sint_small: "unat w < 2 ^ 63 \<Longrightarrow> sint w = int (unat w)" for w :: u64
proof -
  assume "unat w < 2 ^ 63"
  then have "int (unat w) < int (2 ^ 63)" by (simp only: of_nat_less_iff)
  then have "uint w < 2 ^ 63" by simp
  moreover have "- (2 ^ 63) \<le> uint w" by (rule order_trans [OF _ uint_ge_0]) simp
  ultimately have "signed_take_bit 63 (uint w) = uint w" by (intro signed_take_bit_int_eq_self)
  then show ?thesis by (simp add: sint_uint)
qed

lemma bound_uncapped:
  "unat W \<le> max 8192 (length normalized) \<Longrightarrow> bound_wrr_weights normalized W = map (\<lambda>(idx, weight). (idx, sint weight)) normalized"
  unfolding bound_wrr_weights_def Let_def by (simp only: if_True)

lemma bounded_uncapped:
  assumes "length weighted < 2 ^ 32" "normal_total weighted \<le> schedule_cap weighted"
  shows "bounded_weights weighted = map (\<lambda>p. (fst p, int (unat (snd p) div weight_gcd weighted))) (positive weighted)"
proof -
  have "sint (ucast (weight div weights_gcd weighted) :: u64) = int (unat weight div weight_gcd weighted)" for weight :: u32
  proof -
    have "unat weight < 2 ^ 32" by (rule order_less_le_trans [OF unsigned_less]) simp
    then have "unat (ucast (weight div weights_gcd weighted) :: u64) < 2 ^ 63"
      by (simp add: unat_normal div_less_dividend le_less_trans [OF div_le_dividend])
    then show ?thesis by (simp add: sint_small unat_normal)
  qed
  moreover have "bounded_weights weighted = map (\<lambda>(idx, weight). (idx, sint weight)) (normalize weighted)"
    unfolding bounded_weights_def
    by (rule bound_uncapped) (use assms(2) in \<open>simp only: normalize_exact(2) [OF assms(1)] schedule_cap_def length_map\<close>)
  ultimately show ?thesis by (simp add: split_beta)
qed

text \<open>
  The bounded weights of the positive targets: the order of the targets, the length of the period and
  each share, for a period below the cap and for one above it.
\<close>

lemma bounded_shares_uncapped:
  assumes "length weighted < 2 ^ 32" and True: "normal_total weighted \<le> schedule_cap weighted"
  shows "map fst (bounded_weights weighted) = map fst (positive weighted)"
    and "sum_list (map snd (bounded_weights weighted)) = int (normal_total weighted)"
    and "\<And>i. i < length (positive weighted) \<Longrightarrow>
           0 < snd (bounded_weights weighted ! i) \<and> share_ok weighted (snd (positive weighted ! i)) (snd (bounded_weights weighted ! i))"
proof -
  let ?ps = "positive weighted" and ?g = "weight_gcd weighted"
  note b = bounded_uncapped [OF assms]
  show "map fst (bounded_weights weighted) = map fst ?ps" by (simp add: b comp_def)
  show "sum_list (map snd (bounded_weights weighted)) = int (normal_total weighted)"
    by (simp add: b normal_total_def sum_list_nth comp_def)
  fix i assume i: "i < length ?ps"
  have "?ps ! i \<in> set weighted" using nth_mem [OF i] by (auto simp: positive_def)
  then show "0 < snd (bounded_weights weighted ! i) \<and> share_ok weighted (snd (?ps ! i)) (snd (bounded_weights weighted ! i))"
    using True weight_gcd_dvd [of "?ps ! i" weighted] normal_positive [OF nth_mem [OF i]] i
    by (simp add: b share_ok_def flip: of_nat_mult)
qed

lemma quota_rounding:
  fixes x W :: nat
  assumes "0 < W" "s = int (x div W) \<or> s = int (x div W) + 1 \<and> x mod W \<noteq> 0"
  shows "\<bar>s * int W - int x\<bar> < int W"
proof -
  have "int x = int (x div W) * int W + int (x mod W)" by (simp flip: of_nat_mult of_nat_add)
  moreover have "int (x mod W) < int W" using assms(1) by simp
  ultimately show ?thesis using assms(2) by (auto simp: algebra_simps)
qed

lemma bounded_shares_capped:
  assumes len: "length weighted < 2 ^ 32" and big: "schedule_cap weighted < normal_total weighted"
  shows "map fst (bounded_weights weighted) = map fst (positive weighted)"
    and "sum_list (map snd (bounded_weights weighted)) = int (schedule_cap weighted)"
    and "\<And>i. i < length (positive weighted) \<Longrightarrow>
           0 < snd (bounded_weights weighted ! i) \<and> share_ok weighted (snd (positive weighted ! i)) (snd (bounded_weights weighted ! i))"
proof -
  let ?ps = "positive weighted" and ?W = "normal_total weighted"
  note n = normalize_exact [OF len]
  have "max 8192 (length (normalize weighted)) < unat (sum_list (map snd (normalize weighted)))"
    using big by (simp only: n(2) schedule_cap_def length_map)
  note c = bound_capped [OF n(1) this, folded bounded_weights_def, unfolded n(2) length_map, folded schedule_cap_def]
  show "map fst (bounded_weights weighted) = map fst ?ps"
    by (rule nth_equalityI) (simp_all add: c(1,3) split_beta)
  show "sum_list (map snd (bounded_weights weighted)) = int (schedule_cap weighted)" by (rule c(2))
  fix i assume i: "i < length ?ps"
  let ?x = "unat (snd (?ps ! i)) div weight_gcd weighted * (schedule_cap weighted - length ?ps)"
  let ?s = "snd (bounded_weights weighted ! i)"
  have s: "?s = 1 + int (?x div ?W) \<or> ?s = 2 + int (?x div ?W) \<and> ?x mod ?W \<noteq> 0"
    using c(4) [OF i] i by (simp add: split_beta unat_normal)
  moreover have "\<bar>(?s - 1) * int ?W - int ?x\<bar> < int ?W"
    using s big by (intro quota_rounding) auto
  ultimately show "0 < ?s \<and> share_ok weighted (snd (?ps ! i)) ?s"
    using big by (auto simp: share_ok_def Let_def)
qed

lemma bounded_shares:
  assumes "length weighted < 2 ^ 32"
  shows "map fst (bounded_weights weighted) = map fst (positive weighted)"
    and "sum_list (map snd (bounded_weights weighted)) = int (min (normal_total weighted) (schedule_cap weighted))"
    and "\<And>i. i < length (positive weighted) \<Longrightarrow>
           0 < snd (bounded_weights weighted ! i) \<and> share_ok weighted (snd (positive weighted ! i)) (snd (bounded_weights weighted ! i))"
  using bounded_shares_capped [OF assms] bounded_shares_uncapped [OF assms]
  by (cases "normal_total weighted \<le> schedule_cap weighted"; simp add: min_def)+

lemma bounded_positive:
  assumes "length weighted < 2 ^ 32" "w \<in> set (map snd (bounded_weights weighted))"
  shows "0 < w"
proof -
  from assms(2) obtain i where i: "i < length (bounded_weights weighted)" "w = snd (bounded_weights weighted ! i)"
    by (metis in_set_conv_nth length_map nth_map)
  moreover have "length (bounded_weights weighted) = length (positive weighted)"
    using bounded_shares(1) [OF assms(1)] by (metis length_map)
  ultimately show ?thesis using bounded_shares(3) [OF assms(1), of i] by simp
qed

lemma order_shares:
  assumes len: "length weighted < 2 ^ 32" and dist: "distinct (map fst weighted)"
    and smooth: "build_smooth_wrr_order weighted = Smooth order"
  shows "length order = min (normal_total weighted) (schedule_cap weighted)"
    and "\<And>idx weight. (idx, weight) \<in> set weighted \<Longrightarrow>
           (weight = 0 \<longrightarrow> idx \<notin> set order) \<and> (weight \<noteq> 0 \<longrightarrow> share_ok weighted weight (int (count_list order idx)))"
    and "set order \<subseteq> fst ` set (positive weighted)"
proof -
  let ?ps = "positive weighted" and ?bw = "bounded_weights weighted"
  note b = bounded_shares [OF len]
  have blen: "length ?bw = length ?ps" using b(1) by (metis length_map)
  have dps: "distinct (map fst ?bw)"
    unfolding b(1) positive_def using dist by (rule distinct_map_filter)
  have ne: "?ps \<noteq> []" and work: "nat (sum_list (map snd ?bw)) * length ?bw \<le> WRR_SMOOTH_BUILD_MAX_WORK"
    and total: "0 < sum_list (map snd ?bw)"
    and order: "order = snd ((smooth_step ?bw (sum_list (map snd ?bw)) ^^ nat (sum_list (map snd ?bw))) (replicate (length ?bw) 0, []))"
    using smooth unfolding build_cases Let_def by (auto split: if_splits)
  have pos: "\<forall>w \<in> set (map snd ?bw). 0 < w"
    using bounded_positive [OF len] by blast
  have "int (length ?bw) * sum_list (map snd ?bw) = int (nat (sum_list (map snd ?bw)) * length ?bw)"
    using total by simp
  also have "\<dots> \<le> int WRR_SMOOTH_BUILD_MAX_WORK" using work by (simp only: of_nat_le_iff)
  finally have ok: "period_ok (map snd ?bw)" using ne pos blen by (auto simp: period_ok_def)
  obtain cs order' where p: "(smooth_step ?bw (sum_list (map snd ?bw)) ^^ nat (sum_list (map snd ?bw))) (replicate (length ?bw) 0, []) = (cs, order')"
    "int (length order') = sum_list (map snd ?bw)" "set order' \<subseteq> fst ` set ?bw"
    "\<And>idx w. (idx, w) \<in> set ?bw \<Longrightarrow> int (count_list order' idx) = w"
    "cs = replicate (length ?bw) 0"
    using smooth_period [OF ok refl dps] by blast
  then have o: "order' = order" using order by simp
  show "length order = min (normal_total weighted) (schedule_cap weighted)"
    using p(2) unfolding o b(2) by (simp only: of_nat_eq_iff)
  have "fst ` set ?bw = fst ` set ?ps" using b(1) by (metis list.set_map)
  then show sub: "set order \<subseteq> fst ` set ?ps" using p(3) o by simp
  fix idx weight assume m: "(idx, weight) \<in> set weighted"
  have unique: "weight' = weight" if "(idx, weight') \<in> set weighted" for weight'
    using eq_key_imp_eq_value [OF dist m that] by simp
  show "(weight = 0 \<longrightarrow> idx \<notin> set order) \<and> (weight \<noteq> 0 \<longrightarrow> share_ok weighted weight (int (count_list order idx)))"
  proof (intro conjI impI)
    show "idx \<notin> set order" if "weight = 0"
    proof
      assume "idx \<in> set order"
      then obtain weight' where "(idx, weight') \<in> set ?ps" using sub by auto
      then show False using unique that by (auto simp: mem_positive)
    qed
    assume "weight \<noteq> 0"
    then have "(idx, weight) \<in> set ?ps" using m by (simp add: mem_positive)
    then obtain i where i: "i < length ?ps" "?ps ! i = (idx, weight)" by (auto simp: in_set_conv_nth)
    have "fst (?bw ! i) = idx" using i blen b(1) by (metis fst_conv nth_map)
    then have "(idx, snd (?bw ! i)) \<in> set ?bw" using i blen by (metis nth_mem prod.collapse)
    then have "int (count_list order idx) = snd (?bw ! i)" using p(4) o by simp
    then show "share_ok weighted weight (int (count_list order idx))" using b(3) [OF i(1)] i(2) by simp
  qed
qed

text \<open>
  With at most 128 candidates the work of the loop is within its budget, so the lottery is never the
  answer for a candidate set that fits the bitset.
\<close>

lemma build_total:
  assumes "length weighted \<le> 128"
  shows "if positive weighted = [] then build_smooth_wrr_order weighted = ZeroWeight
         else \<exists>order. build_smooth_wrr_order weighted = Smooth order"
proof -
  let ?ps = "positive weighted" and ?bw = "bounded_weights weighted"
  have len: "length weighted < 2 ^ 32" using assms by simp
  note b = bounded_shares [OF len]
  have n: "length ?ps \<le> 128" using assms by (simp add: positive_def le_trans [OF length_filter_le])
  have blen: "length ?bw = length ?ps" using b(1) by (metis length_map)
  have T: "sum_list (map snd ?bw) \<le> 8192" unfolding b(2) using n by (simp add: schedule_cap_def)
  then have "nat (sum_list (map snd ?bw)) * length ?bw \<le> 8192 * 128"
    using n blen by (intro mult_mono) auto
  moreover have "0 < sum_list (map snd ?bw)" if "?ps \<noteq> []"
    using bounded_positive [OF len] that blen by (intro sum_list_positive) auto
  ultimately show ?thesis by (cases "?ps = []") (simp_all add: build_cases Let_def)
qed

lemma build_exact:
  assumes len: "length weighted < 2 ^ 32" and dist: "distinct (map fst weighted)"
  shows "case build_smooth_wrr_order weighted of
      Smooth order \<Rightarrow>
        length order = min (normal_total weighted) (schedule_cap weighted)
        \<and> (\<forall>(idx, weight) \<in> set weighted.
              if weight = 0 then idx \<notin> set order else share_ok weighted weight (int (count_list order idx)))
    | ZeroWeight \<Rightarrow> \<forall>(idx, weight) \<in> set weighted. weight = 0
    | LotteryOnly \<Rightarrow> 128 < length weighted"
proof (cases "build_smooth_wrr_order weighted")
  case (Smooth order)
  then show ?thesis using order_shares [OF len dist Smooth] by auto
next
  case ZeroWeight
  have "positive weighted = []"
  proof (rule ccontr)
    assume ne: "positive weighted \<noteq> []"
    then have "bounded_weights weighted \<noteq> []" using bounded_shares(1) [OF len] by auto
    then have "0 < sum_list (map snd (bounded_weights weighted))"
      using bounded_positive [OF len] by (intro sum_list_positive) auto
    with ne ZeroWeight show False by (simp add: build_cases Let_def split: if_splits)
  qed
  then have "weight = 0" if "(idx, weight) \<in> set weighted" for idx weight
    using that mem_positive [of idx weight weighted] by auto
  then show ?thesis using ZeroWeight by auto
next
  case LotteryOnly
  then show ?thesis using build_total [of weighted] by (force split: if_splits)
qed

text \<open>
  C16. Weighted round robin honours the weights: one period of the schedule built for a candidate set
  picks every target in proportion to its weight. A period below the cap gives each target its weight
  divided by the common divisor; a longer one is cut to the cap, gives every positive target a slot, and
  beyond that slot its quota of the rest rounded down or up. A target of weight zero is never picked,
  the all-zero outcome means that all weights are zero, and the lottery is only left to sets of more
  than 128 targets.
\<close>

theorem wrr_period_exact:
  assumes "length weighted < 2 ^ 32" "distinct (map fst weighted)"
  shows "case build_smooth_wrr_order weighted of
      Smooth order \<Rightarrow>
        length order = min (normal_total weighted) (schedule_cap weighted)
        \<and> (\<forall>(idx, weight) \<in> set weighted.
              if weight = 0 then idx \<notin> set order else share_ok weighted weight (int (count_list order idx)))
    | ZeroWeight \<Rightarrow> \<forall>(idx, weight) \<in> set weighted. weight = 0
    | LotteryOnly \<Rightarrow> 128 < length weighted"
  using assms by (rule build_exact)

theorem wrr_period_exact_witness:
  "build_smooth_wrr_order [(4, 10), (5, 2), (6, 2), (7, 0)] = Smooth [4, 4, 5, 4, 6, 4, 4]
   \<and> share_ok [(4, 10), (5, 2), (6, 2), (7, 0)] 10 5"
proof -
  let ?ws = "[(4, 10), (5, 2), (6, 2), (7, 0)] :: (nat \<times> u32) list"
  let ?bw = "[(4, 5), (5, 1), (6, 1)] :: (nat \<times> int) list"
  have g: "weights_gcd ?ws = 2" by code_simp
  have b: "bound_wrr_weights [(4, 5), (5, 1), (6, 1)] 7 = ?bw" by (subst bound_uncapped) simp_all
  have r: "replicate 3 (0 :: int) = [0, 0, 0]" by (simp add: eval_nat_numeral)
  have "snd ((smooth_step ?bw 7 ^^ 7) ([0, 0, 0], [])) = [4, 4, 5, 4, 6, 4, 4]"
    by (simp add: eval_nat_numeral(2,3) smooth_step_def best_slot_def i64_sat_def clamp_def)
  then have "build_smooth_wrr_order ?ws = Smooth [4, 4, 5, 4, 6, 4, 4]"
    by (simp add: build_smooth_wrr_order_def g b r Let_def)
  then show ?thesis using wrr_period_exact [of ?ws] by simp
qed

end
