(* ===== verification/Wrr_Lane.thy ===== *)
theory Wrr_Lane
  imports Health_Bitset Wrr_Order
begin

text \<open>
  The weighted round robin lane of the load balancer (\<^verbatim>\<open>src/src/load_balancer.rs\<close>): eight cached
  schedules keyed by the exact healthy set, per-schedule ticket counters in shards, a publish gate, and
  a lottery for misses. One selection is one step on the state of the lane. The shard of the calling
  thread and the outcome of \<^verbatim>\<open>try_lock\<close> are inputs of the step, so the theorems hold whatever they are.
  A selection yields the index whose target the code clones.

  The lemmas show that the cache only ever holds the schedule that its key denotes, that a selection
  always succeeds and stays within the healthy targets of positive weight, and that one period of
  selections by a worker picks every target in proportion to its weight.
\<close>

section \<open>Definitions\<close>

abbreviation WRR_SCHEDULE_CACHE_SLOTS :: nat where
  "WRR_SCHEDULE_CACHE_SLOTS \<equiv> 8"

abbreviation WRR_MISS_PUBLISH_SAMPLE :: u64 where
  "WRR_MISS_PUBLISH_SAMPLE \<equiv> 64"

abbreviation WRR_COUNTER_SHARDS :: nat where
  "WRR_COUNTER_SHARDS \<equiv> 16"

record UpstreamTarget =
  host :: string
  port :: u16
  weight :: u32

definition golden_ratio_hash :: "u64 \<Rightarrow> u64" where
  "golden_ratio_hash val = val * 0x9E3779B97F4A7C15"

datatype WrrScheduleKey = Invalid | Bitset u128 | Indices "nat list"

record WrrSchedule =
  sched_key :: WrrScheduleKey
  counters :: "u64 list"
  sched_order :: "nat list"
  zero_weight :: bool

definition invalid_schedule :: WrrSchedule where
  "invalid_schedule =
     \<lparr>sched_key = Invalid, counters = replicate WRR_COUNTER_SHARDS 0, sched_order = [], zero_weight = False\<rparr>"

definition with_seed :: "WrrScheduleKey \<Rightarrow> nat list \<Rightarrow> bool \<Rightarrow> u64 \<Rightarrow> nat \<Rightarrow> WrrSchedule" where
  "with_seed k ord zw seed healthy_count =
     (let zero_phase_stride = of_nat (max 1 (healthy_count div WRR_COUNTER_SHARDS)) in
      \<lparr>sched_key = k,
       counters = map (\<lambda>i. if zw then seed + of_nat i * zero_phase_stride
                           else seed + of_nat i * 0x9E3779B97F4A7C15) [0..<WRR_COUNTER_SHARDS],
       sched_order = ord, zero_weight = zw\<rparr>)"

definition is_lottery_only :: "WrrSchedule \<Rightarrow> bool" where
  "is_lottery_only s \<longleftrightarrow> sched_order s = [] \<and> \<not> zero_weight s \<and> sched_key s \<noteq> Invalid"

record WrrLaneState =
  slots :: "WrrSchedule list"
  publish_cursor :: u64
  target_len :: nat
  rebuilds :: u64
  miss_fallbacks :: u64
  miss_publish_tickets :: u64
  schedule_seed :: u64

definition inactive_lane :: WrrLaneState where
  "inactive_lane = \<lparr>slots = [], publish_cursor = 0, target_len = 0, rebuilds = 0, miss_fallbacks = 0,
                    miss_publish_tickets = 0, schedule_seed = 0\<rparr>"

definition new_lane :: "nat \<Rightarrow> WrrLaneState" where
  "new_lane n =
     (if n = 0 then inactive_lane
      else inactive_lane\<lparr>slots := replicate WRR_SCHEDULE_CACHE_SLOTS invalid_schedule, target_len := n\<rparr>)"

definition is_active :: "WrrLaneState \<Rightarrow> bool" where
  "is_active lane \<longleftrightarrow> 0 < target_len lane"

text \<open>The first slot whose key is the fingerprint.\<close>

definition lookup_bitset_schedule :: "WrrLaneState \<Rightarrow> u128 \<Rightarrow> nat option" where
  "lookup_bitset_schedule lane fingerprint =
     List.find (\<lambda>i. sched_key (slots lane ! i) = Bitset fingerprint) [0..<length (slots lane)]"

definition has_free_slot :: "WrrLaneState \<Rightarrow> bool" where
  "has_free_slot lane \<longleftrightarrow> list_ex (\<lambda>s. sched_key s = Invalid) (slots lane)"

definition should_publish_on_miss :: "WrrLaneState \<Rightarrow> bool \<times> WrrLaneState" where
  "should_publish_on_miss lane =
     (if has_free_slot lane then (True, lane)
      else
        (let ticket = miss_publish_tickets lane
         in (ticket mod WRR_MISS_PUBLISH_SAMPLE = 0, lane\<lparr>miss_publish_tickets := ticket + 1\<rparr>)))"

text \<open>The slot that was overwritten, when the lane has slots.\<close>

definition publish_schedule :: "WrrSchedule \<Rightarrow> WrrLaneState \<Rightarrow> nat option \<times> WrrLaneState" where
  "publish_schedule schedule lane =
     (let slot_count = length (slots lane) in
      if slot_count = 0 then (None, lane)
      else
        (let idx = unat (publish_cursor lane) mod slot_count
         in (Some idx, lane\<lparr>publish_cursor := publish_cursor lane + 1, slots := (slots lane)[idx := schedule],
                            rebuilds := rebuilds lane + 1\<rparr>)))"

text \<open>\<open>fetch_add\<close> on the counter of a shard.\<close>

definition take_ticket :: "nat \<Rightarrow> WrrSchedule \<Rightarrow> u64 \<times> WrrSchedule" where
  "take_ticket shard s = (counters s ! shard, s\<lparr>counters := (counters s)[shard := counters s ! shard + 1]\<rparr>)"

definition pick_from_wrr_schedule :: "nat \<Rightarrow> WrrSchedule \<Rightarrow> (nat \<Rightarrow> nat option) \<Rightarrow> nat option \<times> WrrSchedule" where
  "pick_from_wrr_schedule shard s resolve =
     (if sched_order s = [] then (None, s)
      else
        (let (ticket, s') = take_ticket shard s;
             idx = sched_order s ! (unat ticket mod length (sched_order s))
         in (resolve idx, s')))"

definition lottery_scan :: "UpstreamTarget list \<Rightarrow> nat list \<Rightarrow> u64 \<Rightarrow> nat option" where
  "lottery_scan targets indices cursor =
     snd (fold (\<lambda>idx (cursor, chosen).
       case chosen of
         Some _ \<Rightarrow> (cursor, chosen)
       | None \<Rightarrow>
           (let w = ucast (weight (targets ! idx)) :: u64 in
            if w = 0 then (cursor, None)
            else if cursor < w then (cursor, Some idx)
            else (saturating_sub cursor w, None))) indices (cursor, None))"

definition pick_wrr_lottery_bitset :: "UpstreamTarget list \<Rightarrow> HealthBitset \<Rightarrow> u64 \<Rightarrow> nat option" where
  "pick_wrr_lottery_bitset targets healthy ticket =
     (let healthy_count = bitset_count healthy in
      if healthy_count = 0 then None
      else
        (let total_weight = fold (\<lambda>idx total. saturating_add total (ucast (weight (targets ! idx)) :: u64))
                              (for_each_set_bit (bits healthy)) 0
         in
         if total_weight = 0 then Some (nth_set_bit healthy (unat (ticket mod of_nat healthy_count)))
         else lottery_scan targets (for_each_set_bit (bits healthy)) (golden_ratio_hash ticket mod total_weight)))"

definition pick_wrr_bitset_schedule ::
  "UpstreamTarget list \<Rightarrow> nat \<Rightarrow> HealthBitset \<Rightarrow> WrrSchedule \<Rightarrow> nat option \<times> WrrSchedule" where
  "pick_wrr_bitset_schedule targets shard healthy s =
     (if zero_weight s then (let (ticket, s') = take_ticket shard s in (Some (nth_set_bit healthy (unat ticket)), s'))
      else if is_lottery_only s then
        (let (ticket, s') = take_ticket shard s in (pick_wrr_lottery_bitset targets healthy ticket, s'))
      else pick_from_wrr_schedule shard s (\<lambda>idx. if bitset_contains healthy idx then Some idx else None))"

definition pick_wrr_miss_fallback_bitset ::
  "UpstreamTarget list \<Rightarrow> HealthBitset \<Rightarrow> WrrLaneState \<Rightarrow> nat option \<times> WrrLaneState" where
  "pick_wrr_miss_fallback_bitset targets healthy lane =
     (pick_wrr_lottery_bitset targets healthy (miss_fallbacks lane), lane\<lparr>miss_fallbacks := miss_fallbacks lane + 1\<rparr>)"

definition build_wrr_schedule_bitset ::
  "UpstreamTarget list \<Rightarrow> HealthBitset \<Rightarrow> u128 \<Rightarrow> WrrLaneState \<Rightarrow> WrrSchedule \<times> WrrLaneState" where
  "build_wrr_schedule_bitset targets healthy fingerprint lane =
     (let weighted = map (\<lambda>idx. (idx, weight (targets ! idx))) (for_each_set_bit (bits healthy));
          seed = schedule_seed lane;
          schedule = (case build_smooth_wrr_order weighted of
                        Smooth ord \<Rightarrow> with_seed (Bitset fingerprint) ord False seed 0
                      | ZeroWeight \<Rightarrow> with_seed (Bitset fingerprint) [] True seed (bitset_count healthy)
                      | LotteryOnly \<Rightarrow> with_seed (Bitset fingerprint) [] False seed 0)
      in (schedule, lane\<lparr>schedule_seed := seed + 1\<rparr>))"

text \<open>A pick from the schedule of a slot advances the counter in the slot, which the readers share.\<close>

definition pick_slot ::
  "UpstreamTarget list \<Rightarrow> nat \<Rightarrow> HealthBitset \<Rightarrow> nat \<Rightarrow> WrrLaneState \<Rightarrow> nat option \<times> WrrLaneState" where
  "pick_slot targets shard healthy i lane =
     (let (r, s) = pick_wrr_bitset_schedule targets shard healthy (slots lane ! i)
      in (r, lane\<lparr>slots := (slots lane)[i := s]\<rparr>))"

definition rebuild_wrr_schedule_bitset ::
  "UpstreamTarget list \<Rightarrow> nat \<Rightarrow> bool \<Rightarrow> HealthBitset \<Rightarrow> u128 \<Rightarrow> WrrLaneState \<Rightarrow> nat option \<times> WrrLaneState" where
  "rebuild_wrr_schedule_bitset targets shard locked healthy fingerprint lane =
     (case lookup_bitset_schedule lane fingerprint of
        Some i \<Rightarrow> pick_slot targets shard healthy i lane
      | None \<Rightarrow>
          if \<not> locked then pick_wrr_miss_fallback_bitset targets healthy lane
          else
            (case should_publish_on_miss lane of
               (False, lane) \<Rightarrow> pick_wrr_miss_fallback_bitset targets healthy lane
             | (True, lane) \<Rightarrow>
                 (let (schedule, lane) = build_wrr_schedule_bitset targets healthy fingerprint lane in
                  case publish_schedule schedule lane of
                    (Some i, lane) \<Rightarrow> pick_slot targets shard healthy i lane
                  | (None, lane) \<Rightarrow> (fst (pick_wrr_bitset_schedule targets shard healthy schedule), lane))))"

definition select_wrr_bitset ::
  "UpstreamTarget list \<Rightarrow> nat \<Rightarrow> bool \<Rightarrow> HealthBitset \<Rightarrow> WrrLaneState \<Rightarrow> nat option \<times> WrrLaneState" where
  "select_wrr_bitset targets shard locked healthy lane =
     (if \<not> is_active lane \<or> bitset_is_empty healthy then (None, lane)
      else
        (let fingerprint = bits healthy in
         case lookup_bitset_schedule lane fingerprint of
           None \<Rightarrow> rebuild_wrr_schedule_bitset targets shard locked healthy fingerprint lane
         | Some i \<Rightarrow>
             (case pick_slot targets shard healthy i lane of
                (Some target, lane) \<Rightarrow> (Some target, lane)
              | (None, lane) \<Rightarrow> rebuild_wrr_schedule_bitset targets shard locked healthy fingerprint lane)))"

section \<open>The lottery\<close>

abbreviation target_weight :: "UpstreamTarget list \<Rightarrow> nat \<Rightarrow> nat" where
  "target_weight targets idx \<equiv> unat (weight (targets ! idx))"

lemma unat_u32_u64 [word_arith]: "unat (ucast (w :: u32) :: u64) = unat w"
proof -
  have "unat w < 2 ^ 32" by (rule order_less_le_trans [OF unsigned_less]) simp
  then have "unat w < 2 ^ 64" by simp
  then show ?thesis by (simp add: unsigned_ucast_eq take_bit_nat_eq_self)
qed

lemma fold_saturating_weights:
  fixes f :: "nat \<Rightarrow> u64"
  shows "unat s + (\<Sum>i\<leftarrow>indices. unat (f i)) < 2 ^ 64 \<Longrightarrow>
     unat (fold (\<lambda>idx total. saturating_add total (f idx)) indices s) = unat s + (\<Sum>i\<leftarrow>indices. unat (f i))"
proof (induction indices arbitrary: s)
  case (Cons i indices)
  then have "unat (saturating_add s (f i)) = unat s + unat (f i)"
    by (simp add: unat_saturating_add)
  with Cons show ?case by (simp add: add.assoc)
qed simp

lemma lottery_fold_done:
  "fold (\<lambda>idx (cursor, chosen).
       case chosen of
         Some _ \<Rightarrow> (cursor, chosen)
       | None \<Rightarrow>
           (let w = ucast (weight (targets ! idx)) :: u64 in
            if w = 0 then (cursor, None)
            else if cursor < w then (cursor, Some idx)
            else (saturating_sub cursor w, None))) indices (c, Some x) = (c, Some x)"
  by (induction indices) auto

lemma lottery_scan_Cons:
  "lottery_scan targets (i # indices) cursor =
     (let w = ucast (weight (targets ! i)) :: u64 in
      if w = 0 then lottery_scan targets indices cursor
      else if cursor < w then Some i
      else lottery_scan targets indices (saturating_sub cursor w))"
  by (simp add: lottery_scan_def Let_def lottery_fold_done)

lemma lottery_scan_hits:
  "unat cursor < (\<Sum>i\<leftarrow>indices. target_weight targets i) \<Longrightarrow>
     \<exists>idx \<in> set indices. lottery_scan targets indices cursor = Some idx \<and> 0 < weight (targets ! idx)"
proof (induction indices arbitrary: cursor)
  case (Cons i indices)
  let ?w = "ucast (weight (targets ! i)) :: u64"
  have w: "unat ?w = target_weight targets i" by (rule unat_u32_u64)
  consider "?w = 0" | "?w \<noteq> 0" "cursor < ?w" | "?w \<noteq> 0" "?w \<le> cursor" by force
  then show ?case
  proof cases
    case 1
    then have "target_weight targets i = 0" using w by simp
    then have "unat cursor < (\<Sum>i\<leftarrow>indices. target_weight targets i)" using Cons.prems by simp
    from Cons.IH [OF this] 1 show ?thesis by (auto simp: lottery_scan_Cons)
  next
    case 2
    moreover have "0 < weight (targets ! i)" using 2 w by (simp add: unat_eq_0 word_less_nat_alt)
    ultimately show ?thesis by (simp add: lottery_scan_Cons)
  next
    case 3
    then have "unat (saturating_sub cursor ?w) < (\<Sum>i\<leftarrow>indices. target_weight targets i)"
      using Cons.prems w by (simp add: unat_saturating_sub word_le_nat_alt less_diff_conv2)
    from Cons.IH [OF this] 3 show ?thesis by (auto simp: lottery_scan_Cons not_less Let_def)
  qed
qed simp

definition positive_healthy :: "UpstreamTarget list \<Rightarrow> HealthBitset \<Rightarrow> bool" where
  "positive_healthy targets healthy \<longleftrightarrow> (\<exists>i \<in> elems healthy. 0 < weight (targets ! i))"

text \<open>A target that may be picked: healthy, and of positive weight when some healthy target is.\<close>

definition eligible :: "UpstreamTarget list \<Rightarrow> HealthBitset \<Rightarrow> nat \<Rightarrow> bool" where
  "eligible targets healthy idx \<longleftrightarrow>
     idx \<in> elems healthy \<and> (positive_healthy targets healthy \<longrightarrow> 0 < weight (targets ! idx))"

lemma weights_total_small: "length indices \<le> 128 \<Longrightarrow> (\<Sum>i\<leftarrow>indices. target_weight targets i) < 2 ^ 64"
proof -
  assume len: "length indices \<le> 128"
  have w: "target_weight targets i \<le> 2 ^ 32" for i
    by (rule order_less_imp_le, rule order_less_le_trans [OF unsigned_less]) simp
  have "(\<Sum>i\<leftarrow>indices. target_weight targets i) \<le> (\<Sum>i\<leftarrow>indices. 2 ^ 32)" using w by (intro sum_list_mono)
  also have "\<dots> \<le> 128 * 2 ^ 32" using len by (simp add: sum_list_triv)
  also have "\<dots> < (2 ^ 64 :: nat)" by simp
  finally show ?thesis .
qed

lemma lottery_eligible:
  assumes "wf_bitset healthy" "elems healthy \<noteq> {}"
  shows "\<exists>idx. pick_wrr_lottery_bitset targets healthy ticket = Some idx \<and> eligible targets healthy idx"
proof -
  let ?m = "members (bits healthy)" and ?W = "\<Sum>i\<leftarrow>members (bits healthy). target_weight targets i"
  let ?total = "fold (\<lambda>idx total. saturating_add total (ucast (weight (targets ! idx)) :: u64)) ?m 0"
  have len: "length ?m \<le> 128" by (simp add: length_members card_elems_le)
  have count: "bitset_count healthy \<noteq> 0" using assms by (simp add: wf_bitset_iff)
  have total: "unat ?total = ?W"
    using fold_saturating_weights [where s = 0 and indices = ?m and f = "\<lambda>i. ucast (weight (targets ! i))"] weights_total_small [OF len]
    by (simp add: unat_u32_u64)
  show ?thesis
  proof (cases "?total = 0")
    case True
    then have "\<not> positive_healthy targets healthy"
      using total by (auto simp: positive_healthy_def word_less_nat_alt members_elems [symmetric] sum_list_eq_0_iff simp del: set_members)
    with True count show ?thesis
      using nth_set_bit_elem [OF assms] by (simp add: pick_wrr_lottery_bitset_def Let_def eligible_def)
  next
    case False
    then have "unat (golden_ratio_hash ticket mod ?total) < ?W"
      using total by (simp add: unat_mod flip: total) (simp add: unat_gt_0)
    from lottery_scan_hits [OF this] False count show ?thesis
      by (auto simp: pick_wrr_lottery_bitset_def Let_def eligible_def elems_def)
  qed
qed

section \<open>The cache holds what its keys denote\<close>

definition weighted_of :: "UpstreamTarget list \<Rightarrow> u128 \<Rightarrow> (nat \<times> u32) list" where
  "weighted_of targets fp = map (\<lambda>idx. (idx, weight (targets ! idx))) (members fp)"

text \<open>A schedule for a fingerprint: the order the weights determine, or the all-zero mark.\<close>

definition schedule_for :: "UpstreamTarget list \<Rightarrow> u128 \<Rightarrow> WrrSchedule \<Rightarrow> bool" where
  "schedule_for targets fp s \<longleftrightarrow>
     length (counters s) = 16
     \<and> (if zero_weight s then build_smooth_wrr_order (weighted_of targets fp) = ZeroWeight
        else build_smooth_wrr_order (weighted_of targets fp) = Smooth (sched_order s))"

definition slot_ok :: "UpstreamTarget list \<Rightarrow> WrrSchedule \<Rightarrow> bool" where
  "slot_ok targets s \<longleftrightarrow> (case sched_key s of Invalid \<Rightarrow> True | Bitset fp \<Rightarrow> schedule_for targets fp s | Indices _ \<Rightarrow> False)"

definition lane_ok :: "UpstreamTarget list \<Rightarrow> WrrLaneState \<Rightarrow> bool" where
  "lane_ok targets lane \<longleftrightarrow>
     is_active lane \<and> length (slots lane) = WRR_SCHEDULE_CACHE_SLOTS \<and> (\<forall>s \<in> set (slots lane). slot_ok targets s)"

lemma new_lane_ok: "0 < n \<Longrightarrow> lane_ok targets (new_lane n)"
  by (auto simp: lane_ok_def new_lane_def inactive_lane_def is_active_def slot_ok_def invalid_schedule_def)

lemma weighted_of_facts:
  "distinct (map fst (weighted_of targets fp))" "length (weighted_of targets fp) \<le> 128"
  "length (weighted_of targets fp) < 2 ^ 32" "fst ` set (weighted_of targets fp) = {i. bit fp i}"
proof -
  show "length (weighted_of targets fp) \<le> 128"
    using card_elems_le [of "\<lparr>bits = fp, bitset_len = 0\<rparr>"] by (simp add: weighted_of_def flip: length_members)
  then show "length (weighted_of targets fp) < 2 ^ 32" by simp
qed (simp_all add: weighted_of_def comp_def members_distinct image_image)

lemma build_never_lottery: "build_smooth_wrr_order (weighted_of targets fp) \<noteq> LotteryOnly"
  using build_total [OF weighted_of_facts(2), of targets fp] by (auto split: if_splits)

lemma positive_weighted:
  "positive (weighted_of targets (bits healthy)) = [] \<longleftrightarrow> \<not> positive_healthy targets healthy"
  by (auto simp: positive_def weighted_of_def positive_healthy_def filter_empty_conv elems_def)

lemma smooth_order_facts:
  assumes "build_smooth_wrr_order (weighted_of targets (bits healthy)) = Smooth ord"
  shows "ord \<noteq> []" "\<And>idx. idx \<in> set ord \<Longrightarrow> eligible targets healthy idx"
proof -
  let ?w = "weighted_of targets (bits healthy)"
  note o = order_shares [OF weighted_of_facts(3,1) assms]
  have ne: "positive ?w \<noteq> []" using assms by (auto simp: build_cases)
  then obtain p ps where p: "positive ?w = p # ps" by (cases "positive ?w") auto
  then have "0 < unat (snd p) div weight_gcd ?w" by (intro normal_positive) simp
  then have "0 < normal_total ?w" by (simp add: normal_total_def p)
  then show "ord \<noteq> []" using o(1) by (auto simp: schedule_cap_def)
  show "eligible targets healthy idx" if "idx \<in> set ord" for idx
  proof -
    from o(3) that have "idx \<in> fst ` set (positive ?w)" by blast
    then obtain w where "(idx, w) \<in> set (positive ?w)" by auto
    then show ?thesis by (auto simp: mem_positive weighted_of_def eligible_def elems_def word_neq_0_conv)
  qed
qed

lemma pick_eligible:
  assumes wf: "wf_bitset healthy" "elems healthy \<noteq> {}"
    and s: "sched_key s = Bitset (bits healthy)" "schedule_for targets (bits healthy) s" and shard: "shard < 16"
  obtains idx s' where "pick_wrr_bitset_schedule targets shard healthy s = (Some idx, s')"
    and "eligible targets healthy idx" and "s' = snd (take_ticket shard s)"
proof (cases "zero_weight s")
  case True
  then have "build_smooth_wrr_order (weighted_of targets (bits healthy)) = ZeroWeight"
    using s(2) by (simp add: schedule_for_def)
  then have "\<not> positive_healthy targets healthy"
    using build_total [OF weighted_of_facts(2), of targets "bits healthy"] by (auto simp: positive_weighted split: if_splits)
  then show thesis
    using True nth_set_bit_elem [OF wf]
    by (intro that [of "nth_set_bit healthy (unat (fst (take_ticket shard s)))"])
      (auto simp: pick_wrr_bitset_schedule_def eligible_def split_beta)
next
  case False
  then have smooth: "build_smooth_wrr_order (weighted_of targets (bits healthy)) = Smooth (sched_order s)"
    using s(2) by (simp add: schedule_for_def)
  note o = smooth_order_facts [OF smooth]
  let ?idx = "sched_order s ! (unat (fst (take_ticket shard s)) mod length (sched_order s))"
  have el: "eligible targets healthy ?idx" using o(1) by (intro o(2) nth_mem mod_less_divisor) simp
  then have "?idx \<in> elems healthy" by (simp add: eligible_def)
  then show thesis
    using False o(1) el by (intro that [of ?idx])
      (auto simp: pick_wrr_bitset_schedule_def is_lottery_only_def pick_from_wrr_schedule_def split_beta)
qed

lemma slot_ok_ticket [simp]: "slot_ok targets (snd (take_ticket shard s)) \<longleftrightarrow> slot_ok targets s"
  by (auto simp: slot_ok_def schedule_for_def take_ticket_def split: WrrScheduleKey.splits)

lemma lane_ok_update: "lane_ok targets lane \<Longrightarrow> slot_ok targets s \<Longrightarrow> lane_ok targets (lane\<lparr>slots := (slots lane)[i := s]\<rparr>)"
  using set_update_subset_insert [of "slots lane" i s] by (auto simp: lane_ok_def is_active_def)

lemma lookup_bitset_Some:
  assumes "lookup_bitset_schedule lane fp = Some i"
  shows "i < length (slots lane)" "sched_key (slots lane ! i) = Bitset fp"
  using assms by (auto simp: lookup_bitset_schedule_def find_Some_iff)

lemma pick_slot_eligible:
  assumes wf: "wf_bitset healthy" "elems healthy \<noteq> {}" and ok: "lane_ok targets lane" and shard: "shard < 16"
    and i: "i < length (slots lane)" "sched_key (slots lane ! i) = Bitset (bits healthy)"
  obtains idx where "pick_slot targets shard healthy i lane =
      (Some idx, lane\<lparr>slots := (slots lane)[i := snd (take_ticket shard (slots lane ! i))]\<rparr>)"
    and "eligible targets healthy idx"
    and "lane_ok targets (lane\<lparr>slots := (slots lane)[i := snd (take_ticket shard (slots lane ! i))]\<rparr>)"
proof -
  have slot: "slot_ok targets (slots lane ! i)" using ok i by (simp add: lane_ok_def)
  then have "schedule_for targets (bits healthy) (slots lane ! i)" using i by (simp add: slot_ok_def)
  then obtain idx s' where "pick_wrr_bitset_schedule targets shard healthy (slots lane ! i) = (Some idx, s')"
    "eligible targets healthy idx" "s' = snd (take_ticket shard (slots lane ! i))"
    by (rule pick_eligible [OF wf i(2) _ shard])
  then show thesis
    using slot by (intro that [of idx]) (auto simp: pick_slot_def intro!: lane_ok_update [OF ok])
qed

lemma fallback_eligible:
  assumes "wf_bitset healthy" "elems healthy \<noteq> {}" "lane_ok targets lane"
  shows "\<exists>idx lane'. pick_wrr_miss_fallback_bitset targets healthy lane = (Some idx, lane')
           \<and> eligible targets healthy idx \<and> lane_ok targets lane'"
  using lottery_eligible [OF assms(1,2), of targets "miss_fallbacks lane"] assms(3)
  by (auto simp: pick_wrr_miss_fallback_bitset_def lane_ok_def is_active_def)

lemma built_schedule:
  assumes "build_wrr_schedule_bitset targets healthy (bits healthy) lane = (s, lane')"
  shows "sched_key s = Bitset (bits healthy)" "slot_ok targets s" "lane' = lane\<lparr>schedule_seed := schedule_seed lane + 1\<rparr>"
  using assms build_never_lottery [of targets "bits healthy"]
  by (auto simp: build_wrr_schedule_bitset_def Let_def slot_ok_def schedule_for_def with_seed_def
      simp flip: weighted_of_def split: WrrOrderBuild.splits)

lemma publish_eligible:
  assumes wf: "wf_bitset healthy" "elems healthy \<noteq> {}" and ok: "lane_ok targets lane" and shard: "shard < 16"
    and s: "sched_key s = Bitset (bits healthy)" "slot_ok targets s"
  shows "\<exists>i lane' idx lane''. publish_schedule s lane = (Some i, lane')
           \<and> pick_slot targets shard healthy i lane' = (Some idx, lane'') \<and> eligible targets healthy idx \<and> lane_ok targets lane''"
proof -
  let ?i = "unat (publish_cursor lane) mod length (slots lane)"
  let ?lane = "lane\<lparr>publish_cursor := publish_cursor lane + 1, slots := (slots lane)[?i := s], rebuilds := rebuilds lane + 1\<rparr>"
  have len: "length (slots lane) = 8" using ok by (simp add: lane_ok_def)
  have "lane_ok targets ?lane"
    using lane_ok_update [OF ok s(2), of ?i] by (simp add: lane_ok_def is_active_def)
  moreover have "?i < length (slots ?lane)" "sched_key (slots ?lane ! ?i) = Bitset (bits healthy)"
    using s(1) by (simp_all add: len)
  ultimately obtain idx lane'' where "pick_slot targets shard healthy ?i ?lane = (Some idx, lane'')"
    "eligible targets healthy idx" "lane_ok targets lane''"
    by (rule pick_slot_eligible [OF wf _ shard]) blast
  then show ?thesis by (simp add: publish_schedule_def len Let_def)
qed

lemma rebuild_eligible:
  assumes wf: "wf_bitset healthy" "elems healthy \<noteq> {}" and ok: "lane_ok targets lane" and shard: "shard < 16"
  shows "\<exists>idx lane'. rebuild_wrr_schedule_bitset targets shard locked healthy (bits healthy) lane = (Some idx, lane')
           \<and> eligible targets healthy idx \<and> lane_ok targets lane'"
proof (cases "lookup_bitset_schedule lane (bits healthy)")
  case (Some i)
  show ?thesis
    by (rule pick_slot_eligible [OF wf ok shard lookup_bitset_Some [OF Some]])
      (simp add: rebuild_wrr_schedule_bitset_def Some)
next
  case None
  obtain publish lane1 where sp: "should_publish_on_miss lane = (publish, lane1)" by (metis surj_pair)
  then have ok1: "lane_ok targets lane1"
    using ok by (auto simp: should_publish_on_miss_def lane_ok_def is_active_def Let_def split: if_splits)
  obtain s lane2 where b: "build_wrr_schedule_bitset targets healthy (bits healthy) lane1 = (s, lane2)" by (metis surj_pair)
  note built = built_schedule [OF b]
  have ok2: "lane_ok targets lane2" using ok1 built(3) by (auto simp: lane_ok_def is_active_def)
  show ?thesis
  proof (cases "locked \<and> publish")
    case True
    with publish_eligible [OF wf ok2 shard built(1,2)] show ?thesis
      by (auto simp: rebuild_wrr_schedule_bitset_def None sp b)
  next
    case False
    with fallback_eligible [OF wf ok] fallback_eligible [OF wf ok1] show ?thesis
      by (auto simp: rebuild_wrr_schedule_bitset_def None sp split: bool.splits)
  qed
qed

lemma select_eligible:
  assumes wf: "wf_bitset healthy" "elems healthy \<noteq> {}" and ok: "lane_ok targets lane" and shard: "shard < 16"
  shows "\<exists>idx lane'. select_wrr_bitset targets shard locked healthy lane = (Some idx, lane')
           \<and> eligible targets healthy idx \<and> lane_ok targets lane'"
proof -
  have active: "is_active lane" using ok by (simp add: lane_ok_def)
  show ?thesis
  proof (cases "lookup_bitset_schedule lane (bits healthy)")
    case (Some i)
    show ?thesis
      by (rule pick_slot_eligible [OF wf ok shard lookup_bitset_Some [OF Some]])
        (use active wf in \<open>simp add: select_wrr_bitset_def Some\<close>)
  next
    case None
    then show ?thesis using rebuild_eligible [OF wf ok shard, of locked] active wf
      by (simp add: select_wrr_bitset_def)
  qed
qed

section \<open>A run of selections\<close>

text \<open>
  Selections one after the other on one lane: each with its shard, its outcome of \<^verbatim>\<open>try_lock\<close> and its
  healthy set.
\<close>

fun select_run :: "UpstreamTarget list \<Rightarrow> (nat \<times> bool \<times> HealthBitset) list \<Rightarrow> WrrLaneState \<Rightarrow> nat option list \<times> WrrLaneState" where
  "select_run targets [] lane = ([], lane)"
| "select_run targets ((shard, locked, healthy) # calls) lane =
     (let (r, lane) = select_wrr_bitset targets shard locked healthy lane; (rs, lane) = select_run targets calls lane
      in (r # rs, lane))"

definition call_ok :: "nat \<times> bool \<times> HealthBitset \<Rightarrow> bool" where
  "call_ok call \<longleftrightarrow> (case call of (shard, _, healthy) \<Rightarrow> shard < WRR_COUNTER_SHARDS \<and> wf_bitset healthy \<and> elems healthy \<noteq> {})"

lemma run_eligible:
  "lane_ok targets lane \<Longrightarrow> list_all call_ok calls \<Longrightarrow>
     list_all2 (\<lambda>(_, _, healthy) r. \<exists>idx. r = Some idx \<and> eligible targets healthy idx) calls (fst (select_run targets calls lane))
     \<and> lane_ok targets (snd (select_run targets calls lane))"
proof (induction targets calls lane rule: select_run.induct)
  case (2 targets shard locked healthy calls lane)
  then have c: "wf_bitset healthy" "elems healthy \<noteq> {}" "shard < 16" by (auto simp: call_ok_def)
  obtain idx lane' where s: "select_wrr_bitset targets shard locked healthy lane = (Some idx, lane')"
    "eligible targets healthy idx" "lane_ok targets lane'"
    using select_eligible [OF c(1,2) 2(2) c(3)] by blast
  with 2 show ?case by (auto simp: split_beta)
qed simp

lemma hit_selection:
  assumes wf: "wf_bitset healthy" "elems healthy \<noteq> {}" and ok: "lane_ok targets lane" and shard: "shard < 16"
    and i: "lookup_bitset_schedule lane (bits healthy) = Some i" and smooth: "\<not> zero_weight (slots lane ! i)"
  defines "s \<equiv> slots lane ! i" and "lane' \<equiv> lane\<lparr>slots := (slots lane)[i := snd (take_ticket shard (slots lane ! i))]\<rparr>"
  shows "select_wrr_bitset targets shard locked healthy lane
           = (Some (sched_order s ! (unat (counters s ! shard) mod length (sched_order s))), lane')"
    and "lane_ok targets lane'" and "lookup_bitset_schedule lane' (bits healthy) = Some i"
    and "slots lane' ! i = s\<lparr>counters := (counters s)[shard := counters s ! shard + 1]\<rparr>"
    and "build_smooth_wrr_order (weighted_of targets (bits healthy)) = Smooth (sched_order s)" and "length (counters s) = 16"
proof -
  note l = lookup_bitset_Some [OF i]
  have "schedule_for targets (bits healthy) s" using ok l by (auto simp: lane_ok_def s_def slot_ok_def dest!: bspec [OF _ nth_mem [OF l(1)]])
  then show build: "build_smooth_wrr_order (weighted_of targets (bits healthy)) = Smooth (sched_order s)"
    and "length (counters s) = 16" using smooth by (auto simp: schedule_for_def s_def)
  obtain idx where p: "pick_slot targets shard healthy i lane = (Some idx, lane')" "lane_ok targets lane'"
    unfolding lane'_def by (rule pick_slot_eligible [OF wf ok shard l]) blast
  show "lane_ok targets lane'" by (rule p(2))
  have "idx = sched_order s ! (unat (counters s ! shard) mod length (sched_order s))"
    using p(1) smooth smooth_order_facts(1) [OF build]
    by (auto simp: pick_slot_def pick_wrr_bitset_schedule_def is_lottery_only_def pick_from_wrr_schedule_def
        take_ticket_def s_def split_beta Let_def split: if_splits)
  then show "select_wrr_bitset targets shard locked healthy lane
      = (Some (sched_order s ! (unat (counters s ! shard) mod length (sched_order s))), lane')"
    using ok wf p(1) by (simp add: select_wrr_bitset_def i lane_ok_def)
  show "slots lane' ! i = s\<lparr>counters := (counters s)[shard := counters s ! shard + 1]\<rparr>"
    using l(1) by (simp add: lane'_def take_ticket_def s_def)
  have "sched_key (slots lane' ! j) = sched_key (slots lane ! j)" if "j < length (slots lane)" for j
    using l(1) that by (cases "i = j") (simp_all add: lane'_def take_ticket_def)
  moreover have "length (slots lane') = length (slots lane)" by (simp add: lane'_def)
  ultimately have "lookup_bitset_schedule lane' (bits healthy) = lookup_bitset_schedule lane (bits healthy)"
    unfolding lookup_bitset_schedule_def by (intro find_cong) simp_all
  then show "lookup_bitset_schedule lane' (bits healthy) = Some i" using i by simp
qed

lemma run_walks_order:
  assumes wf: "wf_bitset healthy" "elems healthy \<noteq> {}" and shard: "shard < 16"
    and "lane_ok targets lane" "lookup_bitset_schedule lane (bits healthy) = Some i" "\<not> zero_weight (slots lane ! i)"
    and "sched_order (slots lane ! i) = ord"
    and "unat (counters (slots lane ! i) ! shard) = t" "t + length locks \<le> 2 ^ 64"
  shows "fst (select_run targets (map (\<lambda>locked. (shard, locked, healthy)) locks) lane)
           = map (\<lambda>k. Some (ord ! (k mod length ord))) [t..<t + length locks]"
  using assms(4-)
proof (induction locks arbitrary: lane t)
  case (Cons locked locks)
  let ?s = "slots lane ! i" and ?lane = "lane\<lparr>slots := (slots lane)[i := snd (take_ticket shard (slots lane ! i))]\<rparr>"
  note hit = hit_selection [OF wf Cons.prems(1) shard Cons.prems(2,3)]
  have rest: "fst (select_run targets (map (\<lambda>locked. (shard, locked, healthy)) locks) ?lane)
      = map (\<lambda>k. Some (ord ! (k mod length ord))) [Suc t..<Suc t + length locks]"
  proof (cases "locks = []")
    case False
    then have "Suc t < 2 ^ 64" using Cons.prems(6) by (cases locks) auto
    then have "unat (counters ?s ! shard + 1) = Suc t" using Cons.prems(5) by (simp add: unat_word_ariths)
    then show ?thesis
      using Cons.prems hit(4,6) shard by (intro Cons.IH [OF hit(2,3)]) simp_all
  qed simp
  have "[t..<t + length (locked # locks)] = t # [Suc t..<Suc t + length locks]" by (subst upt_conv_Cons) simp_all
  then show ?case
    using hit(1) [of locked] rest Cons.prems(4,5) by (simp add: split_beta)
qed simp

lemma count_list_mset: "mset xs = mset ys \<Longrightarrow> count_list xs x = count_list ys x"
  by (simp add: count_mset [symmetric])

lemma worker_period:
  assumes wf: "wf_bitset healthy" "elems healthy \<noteq> {}" and shard: "shard < 16"
    and ok: "lane_ok targets lane" and i: "lookup_bitset_schedule lane (bits healthy) = Some i" "\<not> zero_weight (slots lane ! i)"
    and period: "length locks = length (sched_order (slots lane ! i))"
    and nowrap: "unat (counters (slots lane ! i) ! shard) + length locks \<le> 2 ^ 64"
    and idx: "idx \<in> elems healthy"
  shows "let picks = count_list (fst (select_run targets (map (\<lambda>locked. (shard, locked, healthy)) locks) lane)) (Some idx) in
           if weight (targets ! idx) = 0 then picks = 0
           else share_ok (weighted_of targets (bits healthy)) (weight (targets ! idx)) (int picks)"
proof -
  let ?ord = "sched_order (slots lane ! i)" and ?t = "unat (counters (slots lane ! i) ! shard)"
  let ?w = "weighted_of targets (bits healthy)"
  have build: "build_smooth_wrr_order ?w = Smooth ?ord" by (rule hit_selection(5) [OF wf ok shard i])
  have ne: "?ord \<noteq> []" by (rule smooth_order_facts(1) [OF build])
  have "fst (select_run targets (map (\<lambda>locked. (shard, locked, healthy)) locks) lane)
      = map Some (map (\<lambda>k. ?ord ! (k mod length ?ord)) [?t..<?t + length ?ord])"
    using run_walks_order [OF wf shard ok i refl refl nowrap] by (simp add: period)
  also have "\<dots> = map Some (rotate ?t ?ord)" by (simp only: map_mod_rotate [OF ne])
  finally have "count_list (fst (select_run targets (map (\<lambda>locked. (shard, locked, healthy)) locks) lane)) (Some idx)
      = count_list (rotate ?t ?ord) idx" by (simp add: count_list_map_conv inj_Some)
  also have "\<dots> = count_list ?ord idx" by (rule count_list_mset) simp
  finally have picks: "count_list (fst (select_run targets (map (\<lambda>locked. (shard, locked, healthy)) locks) lane)) (Some idx)
      = count_list ?ord idx" .
  have "(idx, weight (targets ! idx)) \<in> set ?w" using idx by (auto simp: weighted_of_def elems_def)
  then show ?thesis
    using order_shares(2) [OF weighted_of_facts(3,1) build] unfolding picks Let_def by (auto simp: count_list_0_iff)
qed

section \<open>Properties\<close>

definition sample_targets :: "UpstreamTarget list" where
  "sample_targets = map (\<lambda>w. \<lparr>host = ''10.0.0.1'', port = 80, weight = w\<rparr>) [2, 1]"

definition sample_healthy :: HealthBitset where
  "sample_healthy = bitset_all 2"

definition sample_lane :: WrrLaneState where
  "sample_lane = (new_lane 2)\<lparr>slots := (slots (new_lane 2))[0 := with_seed (Bitset 3) [0, 1, 0] False 0 0]\<rparr>"

lemma sample_bitset: "wf_bitset sample_healthy" "elems sample_healthy = {..<2}" "bits sample_healthy = 3"
  by (simp_all add: sample_healthy_def) (simp add: bitset_all_def)

lemma sample_slots:
  "slots sample_lane = with_seed (Bitset 3) [0, 1, 0] False 0 0 # replicate 7 invalid_schedule"
  by (simp add: sample_lane_def new_lane_def inactive_lane_def eval_nat_numeral)

lemma sample_lookup: "lookup_bitset_schedule sample_lane 3 = Some 0"
  by (simp add: lookup_bitset_schedule_def sample_slots upt_rec with_seed_def)

lemma sample_order: "build_smooth_wrr_order (weighted_of sample_targets 3) = Smooth [0, 1, 0]"
proof -
  have w: "weighted_of sample_targets 3 = [(0, 2), (1, 1)]" by code_simp
  have g: "weights_gcd [(0, 2), (1, 1)] = 1" by code_simp
  have b: "bound_wrr_weights [(0, 2), (1, 1)] 3 = [(0, 2), (1, 1)]" by (subst bound_uncapped) simp_all
  have r: "replicate 2 (0 :: int) = [0, 0]" by (simp add: eval_nat_numeral)
  have "snd ((smooth_step [(0, 2), (1, 1)] 3 ^^ 3) ([0, 0], [])) = [0, 1, 0]"
    by (simp add: eval_nat_numeral(2,3) smooth_step_def best_slot_def i64_sat_def clamp_def)
  then show ?thesis unfolding w by (simp add: build_smooth_wrr_order_def g b r Let_def del: One_nat_def)
qed

lemma sample_lane_ok: "lane_ok sample_targets sample_lane"
proof -
  have "slot_ok sample_targets (with_seed (Bitset 3) [0, 1, 0] False 0 0)"
    by (simp add: slot_ok_def schedule_for_def with_seed_def sample_order)
  moreover have "slot_ok sample_targets invalid_schedule" by (simp add: slot_ok_def invalid_schedule_def)
  moreover have "is_active sample_lane"
    by (simp add: is_active_def sample_lane_def new_lane_def)
  ultimately show ?thesis by (auto simp: lane_ok_def sample_slots)
qed

text \<open>
  C18. Weighted round robin never fails and never leaves the healthy targets: on a lane of at least one
  target every selection of a run, whatever the shards, the contention for the publish gate and the
  changes of the healthy set between selections, picks a healthy target, and one of positive weight
  whenever a healthy target has one.
\<close>

theorem wrr_selection_sound:
  assumes "0 < n" and "list_all call_ok calls"
  shows "list_all2 (\<lambda>(_, _, healthy) r. \<exists>idx. r = Some idx \<and> eligible targets healthy idx)
           calls (fst (select_run targets calls (new_lane n)))"
  using run_eligible [OF new_lane_ok [OF assms(1)] assms(2)] by blast

theorem wrr_selection_sound_witness:
  "\<exists>idx. fst (select_run sample_targets [(3, False, sample_healthy)] (new_lane 2)) = [Some idx]
         \<and> eligible sample_targets sample_healthy idx"
proof -
  have "0 \<in> elems sample_healthy" by (simp add: sample_bitset)
  then have "list_all call_ok [(3, False, sample_healthy)]" by (auto simp: call_ok_def sample_bitset lessThan_empty_iff)
  from wrr_selection_sound [OF _ this, of 2 sample_targets] show ?thesis
    by (auto simp: list_all2_Cons1 simp del: select_run.simps)
qed

text \<open>
  C20. Each worker sees the configured ratios: when the lane holds a schedule for the healthy set, as
  many consecutive selections by one shard as the schedule is long pick every healthy target exactly
  its share of the period, from whatever ticket the shard starts and however the publish gate is
  contended, as long as the 64-bit ticket does not wrap in between.
\<close>

theorem wrr_worker_period:
  assumes "wf_bitset healthy" "elems healthy \<noteq> {}" "shard < WRR_COUNTER_SHARDS"
    and "lane_ok targets lane" "lookup_bitset_schedule lane (bits healthy) = Some i" "\<not> zero_weight (slots lane ! i)"
    and "length locks = length (sched_order (slots lane ! i))"
    and "unat (counters (slots lane ! i) ! shard) + length locks \<le> 2 ^ 64"
    and "idx \<in> elems healthy"
  shows "let picks = count_list (fst (select_run targets (map (\<lambda>locked. (shard, locked, healthy)) locks) lane)) (Some idx) in
           if weight (targets ! idx) = 0 then picks = 0
           else share_ok (weighted_of targets (bits healthy)) (weight (targets ! idx)) (int picks)"
  using assms by (rule worker_period)

theorem wrr_worker_period_witness:
  "share_ok (weighted_of sample_targets 3) 2
     (int (count_list (fst (select_run sample_targets (map (\<lambda>locked. (0, locked, sample_healthy)) [True, False, True]) sample_lane)) (Some 0)))"
proof -
  have w: "weight (sample_targets ! 0) = 2" by (simp add: sample_targets_def)
  have s: "slots sample_lane ! 0 = with_seed (Bitset 3) [0, 1, 0] False 0 0" by (simp add: sample_slots)
  have "counters (slots sample_lane ! 0) ! 0 = 0" by (simp add: s with_seed_def)
  then show ?thesis
    using wrr_worker_period [OF sample_bitset(1) _ _ sample_lane_ok, of 0 0 "[True, False, True]" 0] sample_lookup
    by (simp add: sample_bitset s with_seed_def w lessThan_empty_iff)
qed

end
