(* ===== verification/Spec2Isabelle.thy ===== *)
theory Spec2Isabelle
  imports Circuit_Breaker_Threads Circuit_Breaker_Cache Breaker_Outcome Retry Error_Class
    Policy_Path Client_Ip Mesh_Ports Router_Cache
    Active_Limit Pending_Limit Backend_Conn_Limit Conn_Limiter Mesh_Authz Wrr_Lane
begin

text \<open>
  Ferrum Edge is an edge gateway and mesh data plane written in Rust (the crate under
  \<^verbatim>\<open>src/src/\<close>). A connection is admitted, its client address and scheme are resolved, its path is
  brought into canonical form, a route is looked up, the mesh policies are evaluated, a target is
  selected, the destination limits and the circuit breaker are consulted, the backend is called, and
  the outcome decides about a retry and is reported to the breaker. This development models those
  decisions; it does not model the transports, protocols and services around them.

  \<^bold>\<open>How the code is modelled.\<close> Each function of the source is one HOL function of the same name, a
  struct is a record, an enum a datatype, a machine integer a word of its width (or a number with the
  saturation written out), an error a value of a sum or an option. Mutable state is passed explicitly.
  Code that many threads run over shared atomics is a step function: one step is one atomic access
  or one section under a lock, a schedule names the thread that moves next, and the theorems are about
  every schedule. Atomics are sequentially consistent. Maps are functions or association lists; where
  the source leaves an iteration order open, the order is a parameter. Third-party code is a parameter
  with its documented contract as a hypothesis: the regular expressions of the \<^verbatim>\<open>regex\<close> crate, the
  semaphore of the async runtime, Unicode lower-casing.

  \<^bold>\<open>Foundations.\<close>
  \<^item> \<^verbatim>\<open>Ferrum_Prelude\<close>: integer types, saturating arithmetic, compare-exchange, text, decimals.
  \<^item> \<^verbatim>\<open>Std_Net\<close>: the address types of the standard library with their parsers and printers.
  \<^item> \<^verbatim>\<open>Interleaving\<close>: schedules of threads over one state; its locales lift an invariant of single
    steps to schedules and bound a counter by the threads that hold a token.

  \<^bold>\<open>Circuit breaker and retries.\<close>
  \<^item> \<^verbatim>\<open>Circuit_Breaker\<close> (\<^verbatim>\<open>circuit_breaker.rs\<close>): the packed word (\<open>pack_full\<close> and its projections), the
    operations \<open>can_execute\<close>, \<open>record_success\<close>, \<open>record_failure\<close>, \<open>record_neutral\<close> and
    \<open>release_half_open_slot\<close>, the invariant \<open>wf_breaker\<close>, and the three-state machine \<open>spec_op\<close> that
    they refine for every history of calls. A breaker opens at its threshold, rejects until its
    timeout, probes within its limit and recovers.
  \<^item> \<^verbatim>\<open>Circuit_Breaker_Threads\<close>: the same code, one atomic access per step. The word stays well formed,
    admissions linearize, no probe slot leaks; a schedule in which a straggler of an earlier
    cycle frees a slot of the current one is exhibited.
  \<^item> \<^verbatim>\<open>Circuit_Breaker_Cache\<close>, \<^verbatim>\<open>Runtime_Keys\<close>: the bounded cache of breakers by key, and that the keys
    of distinct resources are distinct.
  \<^item> \<^verbatim>\<open>Breaker_Outcome\<close> (\<^verbatim>\<open>proxy/backend_dispatch.rs\<close>, \<^verbatim>\<open>proxy/mod.rs\<close>): from a finished exchange to a
    report, and the guard that settles a probe slot exactly once.
  \<^item> \<^verbatim>\<open>Error_Class\<close>, \<^verbatim>\<open>Retry\<close> (\<^verbatim>\<open>retry.rs\<close>): error classes with their labels, the retry decision, the backoff
    delay, and that the loop ends.

  \<^bold>\<open>Admission and limits.\<close>
  \<^item> \<^verbatim>\<open>Conn_Limiter\<close> (\<^verbatim>\<open>util/conn_limit.rs\<close>): the global cap and the share per source hold.
  \<^item> \<^verbatim>\<open>Slot_Map\<close>, \<^verbatim>\<open>Slot_Threads\<close>: the counter map of the destination limiters and its exact accounting
    under every interleaving, as locales.
  \<^item> \<^verbatim>\<open>Active_Limit\<close>, \<^verbatim>\<open>Pending_Limit\<close>, \<^verbatim>\<open>Backend_Conn_Limit\<close> (the \<^verbatim>\<open>backend_*_limit.rs\<close> files): the
    interpretations of those locales, the lane keys, and the leases that bind a dial to its policy.

  \<^bold>\<open>Who is calling, and for what.\<close>
  \<^item> \<^verbatim>\<open>Cidr\<close> (\<^verbatim>\<open>util/cidr.rs\<close>, \<^verbatim>\<open>util/client_identity.rs\<close>): networks as words, matching as interval
    membership, and the exact test whether a list restricts anything.
  \<^item> \<^verbatim>\<open>Client_Ip\<close> (\<^verbatim>\<open>proxy/client_ip.rs\<close>): an untrusted peer cannot choose its address or scheme, and what
    a client prepends to a forwarded chain is irrelevant.
  \<^item> \<^verbatim>\<open>Policy_Path\<close> (\<^verbatim>\<open>policy_path.rs\<close>): the canonical path equals segment-wise decoding of the unambiguous
    targets, and has a single reading.

  \<^bold>\<open>Routing\<close> (\<^verbatim>\<open>router_cache.rs\<close>, \<^verbatim>\<open>request_epoch.rs\<close>, \<^verbatim>\<open>modes/mesh/mod.rs\<close>).
  \<^item> \<^verbatim>\<open>Route_Match\<close>, \<^verbatim>\<open>Route_Table\<close>: listener-scoped candidates, the indexes of a host tier, construction and
    search of the table. The search equals the declarative order of tiers over the configuration, and a
    listener never serves the routes of another.
  \<^item> \<^verbatim>\<open>Mesh_Groups\<close>, \<^verbatim>\<open>Mesh_Ports\<close>: the per-port siblings of a mesh service and their selection.
  \<^item> \<^verbatim>\<open>Freq_Sketch\<close>, \<^verbatim>\<open>Cache_Eviction\<close>, \<^verbatim>\<open>Route_Pending\<close>, \<^verbatim>\<open>Router_Cache\<close>: the sketch, the eviction, and
    the lookup cache. After every interleaving of lookups, reloads and clears a cached answer is the
    answer of the search, and the partitions stay bounded.

  \<^bold>\<open>Mesh authorization\<close> (\<^verbatim>\<open>modes/mesh/policy.rs\<close>, \<^verbatim>\<open>modes/mesh/config.rs\<close>, \<^verbatim>\<open>identity/spiffe/\<close>).
  \<^item> \<^verbatim>\<open>Wildcard_Match\<close>, \<^verbatim>\<open>Port_Pattern\<close>, \<^verbatim>\<open>Mesh_Host\<close>, \<^verbatim>\<open>Spiffe_Id\<close>: globs, port wildcards, hosts and identities,
    each against its declarative reading.
  \<^item> \<^verbatim>\<open>Mesh_Policy\<close>, \<^verbatim>\<open>Mesh_Authz\<close>: the matchers up to \<open>rule_matches\<close> and the evaluation. The single pass
    equals the specification over all matches, ignores the order of the policies, fails closed below
    HTTP, and its early test has no false negatives.

  \<^bold>\<open>Load balancing\<close> (\<^verbatim>\<open>load_balancer.rs\<close>).
  \<^item> \<^verbatim>\<open>Health_Bitset\<close>: the candidate set as a word, and its ordinal lookup.
  \<^item> \<^verbatim>\<open>Wrr_Order\<close>: gcd, largest-remainder apportionment and the smooth order; a period gives every target
    its share.
  \<^item> \<^verbatim>\<open>Wrr_Lane\<close>: the schedule cache and the selection; a selection always finds a healthy target, and each
    worker sees the ratios.

  \<^bold>\<open>Bounds and fuel.\<close> Loops are structural or have a termination proof (\<open>for_each_set_bit\<close>, \<open>wrr_gcd\<close>, and
  others on a word or a length). Only the retry loop (\<open>attempts\<close>) runs on fuel, since the backend answers
  it; fuel \<open>max_retries + 1\<close> is proved to be enough. The proofs that a thread running alone computes the
  sequential operation (\<open>run_alone\<close>) use 4 steps for an admission and 12 for a report, which the lemmas
  show to be enough for the thread to settle. The weighted schedules need fewer than \<open>2 ^ 32\<close>
  targets for their 64-bit total to be exact, and one period without a wrap of the 64-bit ticket for
  the share of a worker; candidate sets hold at most 128 targets. Concurrency theorems are for any
  number of threads and any schedule. Resource ids in the key theorems are those the validator accepts.

  \<^bold>\<open>Not modelled.\<close>
  \<^item> Transports and protocols (\<^verbatim>\<open>tls\<close>, \<^verbatim>\<open>dtls\<close>, \<^verbatim>\<open>http3\<close>, \<^verbatim>\<open>grpc\<close>, the pools and proxies under \<^verbatim>\<open>proxy\<close>, \<^verbatim>\<open>socket_opts.rs\<close>):
    their behaviour is that of the async runtime, the kernel and third-party stacks.
  \<^item> Configuration and control (\<^verbatim>\<open>config\<close> apart from the types used here, \<^verbatim>\<open>config_sources\<close>, \<^verbatim>\<open>admin\<close>, \<^verbatim>\<open>xds\<close>,
    \<^verbatim>\<open>k8s_controller\<close>, \<^verbatim>\<open>modes\<close>, \<^verbatim>\<open>service_discovery\<close>, \<^verbatim>\<open>secrets\<close>): stores, watches and services.
  \<^item> Plugins (\<^verbatim>\<open>plugins\<close>, \<^verbatim>\<open>plugin_cache.rs\<close>): each is a program of its own behind one trait.
  \<^item> In the load balancer, the other algorithms, health and locality filtering, subsets and the vector
    path for more than 128 targets; health checks and overload control.
  \<^item> In authorization, policy scopes and the trust in asserted identities of tunnelled peers.
  \<^item> The memory orderings of the atomics, logging, metrics and other observability.
\<close>

end
